(* ===== verification/Roll_Prelude.thy ===== *)
theory Roll_Prelude
  imports Main "HOL-Library.Word"
begin

text \<open>
  Shared vocabulary of the development: the machine integer types of the C++ sources,
  the collections of rewrite rules the component theories fill, and generic facts on
  lists and words that several components use.
\<close>

unbundle bit_operations_syntax

section \<open>Types\<close>

text \<open>\<open>uint8_t\<close>, \<open>uint32_t\<close> and \<open>uint64_t\<close>. A \<open>size_t\<close> that counts bytes held in memory or
  positions of a file is a \<open>nat\<close>; values that travel on the wire keep their width.\<close>

type_synonym byte = "8 word"
type_synonym u32 = "32 word"
type_synonym u64 = "64 word"
type_synonym bytes = "8 word list"

text \<open>The result of a call that reports failure and also changes the state it was given.\<close>

type_synonym ('e, 'a, 's) outcome = "('e + 'a) \<times> 's"

named_theorems codec_simps \<open>functional laws of the wire format\<close>

section \<open>Lists\<close>

lemma take_drop_split: "take n xs = ys @ zs \<Longrightarrow> drop (length ys) (take n xs) = zs"
  by simp

lemma take_add_take_drop: "take n xs @ take m (drop n xs) = take (n + m) xs"
  by (simp add: take_add)

lemma length_takeI: "n \<le> length xs \<Longrightarrow> length (take n xs) = n"
  by simp

lemma take_eq_self_iff_length: "length (take n xs) = n \<longleftrightarrow> n \<le> length xs"
  by auto

lemma drop_eq_Cons_nth: "drop n xs = y # ys \<Longrightarrow> n < length xs \<and> xs ! n = y \<and> drop (Suc n) xs = ys"
  by (metis Cons_nth_drop_Suc drop_all leI list.distinct(1) list.inject)

lemma nth_drop_Cons: "n < length xs \<Longrightarrow> drop n xs = xs ! n # drop (Suc n) xs"
  by (simp add: Cons_nth_drop_Suc)

lemma take_drop_window:
  "take m (drop p xs) @ drop (p + min (length xs - p) m) xs = drop p xs"
proof (cases "length xs - p \<le> m")
  case True
  then show ?thesis by simp
next
  case False
  then have "drop (p + min (length xs - p) m) xs = drop m (drop p xs)"
    by (simp add: add.commute)
  then show ?thesis by (simp only: append_take_drop_id)
qed

lemma in_set_tlD: "x \<in> set (tl xs) \<Longrightarrow> x \<in> set xs"
  by (cases xs) auto

lemma take_append_exact: "length ys = k \<Longrightarrow> k \<le> n \<Longrightarrow> take n (ys @ zs) = ys @ take (n - k) zs"
  by simp

lemma foldl_append_concat: "foldl (\<lambda>acc x. acc @ f x) acc xs = acc @ concat (map f xs)"
  by (induction xs arbitrary: acc) auto

section \<open>Words\<close>

lemma unat_lt_pow: "unat (w :: 'a::len word) < 2 ^ LENGTH('a)"
  by (rule unsigned_less)

lemma byte_lt_256 [simp]: "unat (b :: byte) < 256"
  using unat_lt_pow [of b] by simp

lemma byte_le_255 [simp]: "unat (b :: byte) \<le> 255"
  using byte_lt_256 [of b] by linarith

lemma unat_ucast_byte_u64 [simp]: "unat (ucast (b :: byte) :: u64) = unat b"
  by (simp add: unsigned_ucast_eq take_bit_nat_eq_self_iff) (use byte_lt_256 [of b] in linarith)

lemma unat_ucast_u32_u64 [simp]: "unat (ucast (w :: u32) :: u64) = unat w"
  using unat_lt_pow [of w] by (simp add: unsigned_ucast_eq take_bit_nat_eq_self_iff)

lemma unat_u64_of_nat: "n < 2 ^ 64 \<Longrightarrow> unat (of_nat n :: u64) = n"
  by (simp add: unat_of_nat take_bit_nat_eq_self)

lemma unat_u32_of_nat: "n < 2 ^ 32 \<Longrightarrow> unat (of_nat n :: u32) = n"
  by (simp add: unat_of_nat take_bit_nat_eq_self)

lemma unat_byte_of_nat: "n < 256 \<Longrightarrow> unat (of_nat n :: byte) = n"
  by (simp add: unat_of_nat take_bit_nat_eq_self)

lemma unat_drop_bit_div: "unat (drop_bit n w) = unat w div 2 ^ n"
  unfolding unat_drop_bit_eq by (rule drop_bit_eq_div)

lemma unat_mask_and: "unat (w AND mask n) = unat w mod 2 ^ n"
  unfolding take_bit_eq_mask [symmetric] unsigned_take_bit_eq by (rule take_bit_eq_mod)

text \<open>A value below \<open>2 ^ n\<close> and a value shifted past \<open>n\<close> share no bit: their union is their sum.\<close>

lemma bit_below:
  fixes v :: "'a::len word"
  assumes "unat v < 2 ^ n" and "bit v j"
  shows "j < n"
proof (rule ccontr)
  assume "\<not> j < n"
  then have "(2::nat) ^ n \<le> 2 ^ j" by simp
  with assms(1) have "unat v < 2 ^ j" by linarith
  moreover have "bit (unat v) j"
    using assms(2) by (simp add: bit_unsigned_iff)
  then have "odd (unat v div 2 ^ j)" by (simp add: bit_iff_odd)
  ultimately show False by simp
qed

lemma unat_or_push_bit:
  fixes v b :: "'a::len word"
  assumes "unat v < 2 ^ n" and "unat b * 2 ^ n < 2 ^ LENGTH('a)"
  shows "unat (v OR push_bit n b) = unat v + unat b * 2 ^ n"
proof -
  have "v AND push_bit n b = 0"
    by (rule bit_eqI) (auto simp: bit_simps dest: bit_below [OF assms(1)])
  then have "v OR push_bit n b = v + push_bit n b"
    using word_plus_and_or [of v "push_bit n b"] by simp
  moreover have "unat (push_bit n b) = unat b * 2 ^ n"
    unfolding unsigned_push_bit_eq push_bit_eq_mult [of n "unat b"]
    using assms(2) by (intro take_bit_nat_eq_self)
  moreover have "unat v + unat b * 2 ^ n < 2 ^ LENGTH('a)"
  proof (cases "unat b = 0")
    case False
    then have "(2::nat) ^ n \<le> unat b * 2 ^ n" by simp
    with assms(2) have "(2::nat) ^ n < 2 ^ LENGTH('a)" by linarith
    then have n: "n < LENGTH('a)" by simp
    then have split: "(2::nat) ^ LENGTH('a) = 2 ^ (LENGTH('a) - n) * 2 ^ n"
      by (simp flip: power_add)
    with assms(2) have "unat b < 2 ^ (LENGTH('a) - n)" by simp
    then have "Suc (unat b) * 2 ^ n \<le> 2 ^ (LENGTH('a) - n) * 2 ^ n" by (intro mult_le_mono1) simp
    with assms(1) split show ?thesis by simp
  qed (use unat_lt_pow [of v] in simp)
  ultimately show ?thesis by (simp add: unat_word_ariths)
qed

end
