(* ===== verification/Delta_Format.thy ===== *)
theory Delta_Format
  imports Roll_Prelude
begin

text \<open>
  Constants and enumerations of the delta format (\<^verbatim>\<open>src/src/DeltaFormat.hpp\<close>) and the
  failure categories and statistics of the two operations (\<^verbatim>\<open>src/src/DeltaError.hpp\<close>).
\<close>

section \<open>Format constants\<close>

definition DELTA_MAGIC :: bytes where
  "DELTA_MAGIC = [0x52, 0x48, 0x44, 0x00]"

definition DELTA_FORMAT_VERSION :: u32 where
  "DELTA_FORMAT_VERSION = 5"

definition DELTA_HEADER_SIZE :: nat where
  "DELTA_HEADER_SIZE = 8"

definition DELTA_TRAILER_TAG :: byte where
  "DELTA_TRAILER_TAG = 0xFF"

definition DELTA_DIGEST_BYTES :: nat where
  "DELTA_DIGEST_BYTES = 16"

definition DELTA_MIN_CHUNK_SIZE :: nat where
  "DELTA_MIN_CHUNK_SIZE = 512"

definition DELTA_TARGET_CHUNK_SIZE :: nat where
  "DELTA_TARGET_CHUNK_SIZE = 8192"

definition DELTA_MAX_CHUNK_SIZE :: nat where
  "DELTA_MAX_CHUNK_SIZE = 16384"

definition DELTA_BOUNDARY_TARGET :: u64 where
  "DELTA_BOUNDARY_TARGET = 0x2AAB"

definition DELTA_ENTRY_TYPE_LIMIT :: byte where
  "DELTA_ENTRY_TYPE_LIMIT = 3"

lemmas delta_sizes = DELTA_HEADER_SIZE_def DELTA_DIGEST_BYTES_def DELTA_MIN_CHUNK_SIZE_def
  DELTA_TARGET_CHUNK_SIZE_def DELTA_MAX_CHUNK_SIZE_def

lemma length_DELTA_MAGIC [simp]: "length DELTA_MAGIC = 4"
  by (simp add: DELTA_MAGIC_def)

section \<open>Entry types\<close>

datatype EntryType = ORIGINAL_CHUNK | ADDED_CHUNK | MODIFIED_CHUNK

text \<open>\<open>static_cast<uint8_t>(type)\<close>, and the cast back of a tag the reader has bounded.\<close>

fun entry_tag :: "EntryType \<Rightarrow> byte" where
  "entry_tag ORIGINAL_CHUNK = 0"
| "entry_tag ADDED_CHUNK = 1"
| "entry_tag MODIFIED_CHUNK = 2"

definition entry_type_of :: "byte \<Rightarrow> EntryType" where
  "entry_type_of t =
     (if t = 0 then ORIGINAL_CHUNK else if t = 1 then ADDED_CHUNK else MODIFIED_CHUNK)"

lemma entry_type_of_tag [simp]: "entry_type_of (entry_tag t) = t"
  by (cases t) (simp_all add: entry_type_of_def)

lemma entry_tag_less_limit [simp]: "entry_tag t < DELTA_ENTRY_TYPE_LIMIT"
  by (cases t) (simp_all add: DELTA_ENTRY_TYPE_LIMIT_def)

lemma entry_tag_not_trailer [simp]: "entry_tag t \<noteq> DELTA_TRAILER_TAG"
  by (cases t) (simp_all add: DELTA_TRAILER_TAG_def)

lemma entry_tag_of_type:
  assumes "t < DELTA_ENTRY_TYPE_LIMIT"
  shows "entry_tag (entry_type_of t) = t"
proof -
  from assms have "unat t < 3"
    by (simp add: DELTA_ENTRY_TYPE_LIMIT_def word_less_nat_alt)
  then have "unat t = 0 \<or> unat t = 1 \<or> unat t = 2" by arith
  then have "t = 0 \<or> t = 1 \<or> t = 2"
    by (auto simp: word_unat_eq_iff)
  then show ?thesis by (auto simp: entry_type_of_def)
qed

text \<open>The entry types in the order of their tags, and that no type is missing below the limit.\<close>

instantiation EntryType :: linorder
begin

definition less_eq_EntryType :: "EntryType \<Rightarrow> EntryType \<Rightarrow> bool" where
  "less_eq_EntryType s t \<longleftrightarrow> entry_tag s \<le> entry_tag t"

definition less_EntryType :: "EntryType \<Rightarrow> EntryType \<Rightarrow> bool" where
  "less_EntryType s t \<longleftrightarrow> entry_tag s < entry_tag t"

instance
proof
  fix s t :: EntryType
  show "s \<le> t \<Longrightarrow> t \<le> s \<Longrightarrow> s = t"
    unfolding less_eq_EntryType_def by (metis entry_type_of_tag order.antisym)
qed (auto simp: less_eq_EntryType_def less_EntryType_def)

end

instantiation EntryType :: enum
begin

definition enum_EntryType :: "EntryType list" where
  "enum_EntryType = [ORIGINAL_CHUNK, ADDED_CHUNK, MODIFIED_CHUNK]"

definition enum_all_EntryType :: "(EntryType \<Rightarrow> bool) \<Rightarrow> bool" where
  "enum_all_EntryType P \<longleftrightarrow> P ORIGINAL_CHUNK \<and> P ADDED_CHUNK \<and> P MODIFIED_CHUNK"

definition enum_ex_EntryType :: "(EntryType \<Rightarrow> bool) \<Rightarrow> bool" where
  "enum_ex_EntryType P \<longleftrightarrow> P ORIGINAL_CHUNK \<or> P ADDED_CHUNK \<or> P MODIFIED_CHUNK"

instance
proof
  fix P :: "EntryType \<Rightarrow> bool"
  show "(UNIV :: EntryType set) = set enum_class.enum"
    using EntryType.exhaust by (auto simp: enum_EntryType_def)
  show "enum_class.enum_all P \<longleftrightarrow> Ball UNIV P"
    unfolding enum_all_EntryType_def by (metis EntryType.exhaust UNIV_I)
  show "enum_class.enum_ex P \<longleftrightarrow> Bex UNIV P"
    unfolding enum_ex_EntryType_def by (metis EntryType.exhaust UNIV_I)
qed (simp add: enum_EntryType_def)

end

lemma entry_types_below_limit: "map entry_tag enum_class.enum = map of_nat [0..<unat DELTA_ENTRY_TYPE_LIMIT]"
  by (simp add: enum_EntryType_def DELTA_ENTRY_TYPE_LIMIT_def upt_rec)

section \<open>Failures and statistics\<close>

datatype DeltaErrc =
    io_err
  | corrupt_delta
  | integrity_mismatch
  | invalid_argument
  | limit_exceeded
  | internal_error

record DeltaError =
  code :: DeltaErrc
  message :: string

definition delta_error :: "DeltaErrc \<Rightarrow> string \<Rightarrow> DeltaError" where
  "delta_error c msg = \<lparr>code = c, message = msg\<rparr>"

lemma code_delta_error [simp]: "code (delta_error c m) = c"
  by (simp add: delta_error_def)

fun to_string :: "DeltaErrc \<Rightarrow> string" where
  "to_string io_err = ''I/O error''"
| "to_string corrupt_delta = ''corrupt delta''"
| "to_string integrity_mismatch = ''integrity mismatch''"
| "to_string invalid_argument = ''invalid argument''"
| "to_string limit_exceeded = ''limit exceeded''"
| "to_string internal_error = ''internal error''"

record DeltaStats =
  ds_chunks_processed :: nat
  ds_bytes_written :: nat

record ApplyStats =
  as_entries_processed :: nat
  as_bytes_written :: nat

text \<open>\<open>std::to_string\<close> of an unsigned number: decimal digits, most significant first.\<close>

fun to_dec :: "nat \<Rightarrow> string" where
  "to_dec n = (if n < 10 then [char_of (48 + n)]
               else to_dec (n div 10) @ [char_of (48 + n mod 10)])"

declare to_dec.simps [simp del]

end
