(* ===== verification/Byte_Source.thy ===== *)
theory Byte_Source
  imports Roll_Prelude "HOL-Library.State_Monad"
begin

text \<open>
  The interface through which the delta reader consumes its input.  \<open>DeltaReader\<close> holds a
  reference to a \<open>FileIO\<close> and calls four of its operations; a record of those four makes the reader
  a function of its source, so that the same reader runs on the buffered file (the code) and on a
  plain list of bytes (its specification).  The locale states what a source promises and proves
  once that every reader built from the four operations then agrees with its specification.
\<close>

section \<open>Sources\<close>

record 's source =
  src_byte :: "('s, byte option) state"
  src_peek :: "('s, byte option) state"
  src_chunk :: "nat \<Rightarrow> ('s, bytes) state"
  src_error :: "'s \<Rightarrow> bool"

definition list_source :: "bytes source" where
  "list_source =
     \<lparr>src_byte = State (\<lambda>bs. case bs of [] \<Rightarrow> (None, []) | b # r \<Rightarrow> (Some b, r)),
      src_peek = State (\<lambda>bs. case bs of [] \<Rightarrow> (None, []) | b # r \<Rightarrow> (Some b, bs)),
      src_chunk = (\<lambda>n. State (\<lambda>bs. (take n bs, drop n bs))),
      src_error = (\<lambda>_. False)\<rparr>"

lemma list_source_simps [simp]:
  "run_state (src_byte list_source) [] = (None, [])"
  "run_state (src_byte list_source) (b # bs) = (Some b, bs)"
  "run_state (src_peek list_source) [] = (None, [])"
  "run_state (src_peek list_source) (b # bs) = (Some b, b # bs)"
  "run_state (src_chunk list_source n) bs = (take n bs, drop n bs)"
  "src_error list_source bs = False"
  by (simp_all add: list_source_def)

text \<open>Computations that can fail with a message.\<close>

definition throw :: "string \<Rightarrow> ('s, string + 'a) state" where
  "throw msg = State_Monad.return (Inl msg)"

definition give :: "'a \<Rightarrow> ('s, string + 'a) state" where
  "give x = State_Monad.return (Inr x)"

definition try_then ::
  "('s, string + 'a) state \<Rightarrow> ('a \<Rightarrow> ('s, string + 'b) state) \<Rightarrow> ('s, string + 'b) state" where
  "try_then m f = do { r \<leftarrow> m; case r of Inl msg \<Rightarrow> throw msg | Inr x \<Rightarrow> f x }"

lemma run_throw [simp]: "run_state (throw msg) s = (Inl msg, s)"
  by (simp add: throw_def)

lemma run_give [simp]: "run_state (give x) s = (Inr x, s)"
  by (simp add: give_def)

lemma run_try_then:
  "run_state (try_then m f) s =
     (case run_state m s of (Inl msg, t) \<Rightarrow> (Inl msg, t) | (Inr x, t) \<Rightarrow> run_state (f x) t)"
  by (auto simp: try_then_def split: prod.splits sum.splits)

section \<open>Agreement with a specification on lists\<close>

text \<open>
  \<open>simulates err usable calm rest op spec\<close>: from every usable state, \<open>op\<close> leaves a usable state, never
  loses a recorded error, records none on a calm device, and unless an error is recorded after it,
  its result and what remains are those of \<open>spec\<close> on what remained before.
\<close>

definition simulates ::
  "('s \<Rightarrow> bool) \<Rightarrow> ('s \<Rightarrow> bool) \<Rightarrow> ('s \<Rightarrow> bool) \<Rightarrow> ('s \<Rightarrow> bytes) \<Rightarrow>
   ('s, 'r) state \<Rightarrow> (bytes, 'r) state \<Rightarrow> bool" where
  "simulates err usable calm rest op spec \<longleftrightarrow>
     (\<forall>s r s'. usable s \<longrightarrow> run_state op s = (r, s') \<longrightarrow>
        usable s' \<and> (err s \<longrightarrow> err s') \<and> (calm s \<longrightarrow> calm s') \<and>
        (\<not> err s' \<longrightarrow> run_state spec (rest s) = (r, rest s')))"

lemma simulatesI:
  assumes "\<And>s r s'. usable s \<Longrightarrow> run_state op s = (r, s') \<Longrightarrow>
      usable s' \<and> (err s \<longrightarrow> err s') \<and> (calm s \<longrightarrow> calm s') \<and>
      (\<not> err s' \<longrightarrow> run_state spec (rest s) = (r, rest s'))"
  shows "simulates err usable calm rest op spec"
  using assms unfolding simulates_def by blast

lemma simulatesD:
  assumes "simulates err usable calm rest op spec" and "usable s" and "run_state op s = (r, s')"
  shows "usable s'" and "err s \<Longrightarrow> err s'" and "calm s \<Longrightarrow> calm s'"
    and "\<not> err s' \<Longrightarrow> run_state spec (rest s) = (r, rest s')"
  using assms unfolding simulates_def by blast+

lemma simulates_return [intro]:
  "simulates err usable calm rest (State_Monad.return x) (State_Monad.return x)"
  by (rule simulatesI) auto

lemma simulates_throw [intro]: "simulates err usable calm rest (throw m) (throw m)"
  unfolding throw_def by (rule simulates_return)

lemma simulates_give [intro]: "simulates err usable calm rest (give x) (give x)"
  unfolding give_def by (rule simulates_return)

lemma simulates_bind [intro]:
  assumes op: "simulates err usable calm rest op spec"
    and k: "\<And>x. simulates err usable calm rest (f x) (g x)"
  shows "simulates err usable calm rest (State_Monad.bind op f) (State_Monad.bind spec g)"
proof (rule simulatesI)
  fix s r s'
  assume usable: "usable s" and run: "run_state (State_Monad.bind op f) s = (r, s')"
  obtain x t where 1: "run_state op s = (x, t)" by fastforce
  with run have 2: "run_state (f x) t = (r, s')" by simp
  note op' = simulatesD [OF op usable 1]
  note k' = simulatesD [OF k op'(1) 2]
  show "usable s' \<and> (err s \<longrightarrow> err s') \<and> (calm s \<longrightarrow> calm s') \<and>
      (\<not> err s' \<longrightarrow> run_state (State_Monad.bind spec g) (rest s) = (r, rest s'))"
  proof (intro conjI impI)
    assume clean: "\<not> err s'"
    then have "\<not> err t" using k'(2) by blast
    then show "run_state (State_Monad.bind spec g) (rest s) = (r, rest s')"
      using op'(4) k'(4) clean by simp
  qed (use op'(2,3) k'(1-3) in blast)+
qed

lemma simulates_try_then [intro]:
  assumes "simulates err usable calm rest op spec"
    and "\<And>x. simulates err usable calm rest (f x) (g x)"
  shows "simulates err usable calm rest (try_then op f) (try_then spec g)"
  unfolding try_then_def
  by (rule simulates_bind [OF assms(1)]) (auto intro: assms(2) split: sum.split)

lemma simulates_if [intro]:
  assumes "simulates err usable calm rest op1 spec1" and "simulates err usable calm rest op2 spec2"
  shows "simulates err usable calm rest (if c then op1 else op2) (if c then spec1 else spec2)"
  using assms by simp

lemma simulates_case_option [intro]:
  assumes "simulates err usable calm rest a1 b1" and "\<And>y. simulates err usable calm rest (a2 y) (b2 y)"
  shows "simulates err usable calm rest (case x of None \<Rightarrow> a1 | Some y \<Rightarrow> a2 y)
           (case x of None \<Rightarrow> b1 | Some y \<Rightarrow> b2 y)"
  using assms by (cases x) simp_all

section \<open>The contract of a source\<close>

locale byte_source =
  fixes src :: "'s source"
    and rest :: "'s \<Rightarrow> bytes"
    and usable :: "'s \<Rightarrow> bool"
    and calm :: "'s \<Rightarrow> bool"
  assumes calm_no_error: "calm s \<Longrightarrow> \<not> src_error src s"
    and calm_usable: "calm s \<Longrightarrow> usable s"
    and byte_sim: "simulates (src_error src) usable calm rest (src_byte src) (src_byte list_source)"
    and peek_sim: "simulates (src_error src) usable calm rest (src_peek src) (src_peek list_source)"
    and chunk_sim: "simulates (src_error src) usable calm rest (src_chunk src n) (src_chunk list_source n)"
begin

text \<open>An operation that agrees with its specification does so exactly on a calm device, and a
  run of it on any device that ends without a recorded error is a run of the specification.\<close>

lemma calm_run:
  assumes "simulates (src_error src) usable calm rest op spec" and "calm s"
    and "run_state op s = (r, s')"
  shows "calm s'" and "run_state spec (rest s) = (r, rest s')"
  using simulatesD [OF assms(1) calm_usable [OF assms(2)] assms(3)] assms(2) calm_no_error by blast+

lemma clean_run:
  assumes "simulates (src_error src) usable calm rest op spec" and "usable s"
    and "run_state op s = (r, s')" and "\<not> src_error src s'"
  shows "run_state spec (rest s) = (r, rest s')" and "\<not> src_error src s"
  using simulatesD [OF assms(1-3)] assms(4) by blast+

text \<open>Two block reads in a row are one block read.\<close>

lemma chunk_then_chunk:
  assumes "calm s" and "run_state (src_chunk src m) s = (xs, s1)"
    and "run_state (src_chunk src n) s1 = (ys, s2)"
  shows "xs @ ys = take (m + n) (rest s)" and "rest s2 = drop (m + n) (rest s)"
proof -
  have "xs = take m (rest s)" "rest s1 = drop m (rest s)" and calm1: "calm s1"
    using calm_run [OF chunk_sim assms(1,2)] by auto
  moreover have "ys = take n (rest s1)" "rest s2 = drop n (rest s1)"
    using calm_run [OF chunk_sim calm1 assms(3)] by auto
  ultimately show "xs @ ys = take (m + n) (rest s)" "rest s2 = drop (m + n) (rest s)"
    by (simp_all add: take_add add.commute)
qed

text \<open>Peeking commits to the byte that is read next.\<close>

lemma peek_then_byte:
  assumes "usable s" and "run_state (src_peek src) s = (b, s1)" and "run_state (src_byte src) s1 = (c, s2)"
    and "\<not> src_error src s2"
  shows "b = c"
proof -
  note pk = simulatesD [OF peek_sim assms(1,2)]
  note rd = simulatesD [OF byte_sim pk(1) assms(3)]
  have "\<not> src_error src s1" using rd(2) assms(4) by blast
  with pk(4) have "run_state (src_peek list_source) (rest s) = (b, rest s1)" by blast
  moreover have "run_state (src_byte list_source) (rest s1) = (c, rest s2)" using rd(4) assms(4) by blast
  ultimately show ?thesis by (cases "rest s"; cases "rest s1") auto
qed

end

end
