(* ===== verification/File_IO.thy ===== *)
theory File_IO
  imports Byte_Source
begin

text \<open>
  The buffered file helper (\<^verbatim>\<open>src/src/FileIO.hpp\<close>, \<^verbatim>\<open>src/src/FileIO.cpp\<close>) over a model of the
  \<^verbatim>\<open>std::fstream\<close> operations it uses.  A stream carries the bytes of its file, one joint get/put
  position, the three state bits, and a plan of the device's behaviour: each read, write, seek or
  flush consumes one element, \<open>None\<close> for success and \<open>Some k\<close> for a failure after \<open>k\<close> bytes.
  An exhausted plan means the device never fails again.
\<close>

section \<open>The standard stream\<close>

record fstream =
  st_data :: bytes
  st_pos :: nat
  st_open :: bool
  st_eof :: bool
  st_fail :: bool
  st_bad :: bool
  st_plan :: "nat option list"

definition st_good :: "fstream \<Rightarrow> bool" where
  "st_good s \<longleftrightarrow> \<not> st_eof s \<and> \<not> st_fail s \<and> \<not> st_bad s"

text \<open>\<open>fail()\<close> reports \<open>failbit\<close> or \<open>badbit\<close>.\<close>

definition st_failed :: "fstream \<Rightarrow> bool" where
  "st_failed s \<longleftrightarrow> st_fail s \<or> st_bad s"

definition st_clear :: "fstream \<Rightarrow> fstream" where
  "st_clear s = s\<lparr>st_eof := False, st_fail := False, st_bad := False\<rparr>"

definition st_fault :: "fstream \<Rightarrow> nat option" where
  "st_fault s = (case st_plan s of [] \<Rightarrow> None | x # _ \<Rightarrow> x)"

definition st_step :: "fstream \<Rightarrow> fstream" where
  "st_step s = s\<lparr>st_plan := tl (st_plan s)\<rparr>"

text \<open>\<open>read(buf, n)\<close>: on a stream that is not good nothing is extracted and \<open>failbit\<close> is set;
  reaching the end sets \<open>eofbit\<close> and \<open>failbit\<close>; a device error sets \<open>badbit\<close>.  The list is what
  \<open>gcount()\<close> counts.\<close>

definition st_read :: "nat \<Rightarrow> fstream \<Rightarrow> bytes \<times> fstream" where
  "st_read n s =
     (if \<not> st_good s then ([], s\<lparr>st_fail := True\<rparr>)
      else let rest = drop (st_pos s) (st_data s) in
        case st_fault s of
          Some k \<Rightarrow>
            let bs = take (min k n) rest in
            (bs, (st_step s)\<lparr>st_pos := st_pos s + length bs, st_bad := True\<rparr>)
        | None \<Rightarrow>
            let bs = take n rest in
            (bs, (st_step s)\<lparr>st_pos := st_pos s + length bs,
                             st_eof := length bs < n, st_fail := length bs < n\<rparr>))"

text \<open>\<open>seekg\<close> to an absolute position: it drops \<open>eofbit\<close> first, and does nothing but set
  \<open>failbit\<close> on a failed stream.\<close>

definition st_seek :: "nat \<Rightarrow> fstream \<Rightarrow> fstream" where
  "st_seek p s =
     (let s1 = s\<lparr>st_eof := False\<rparr> in
      if st_failed s1 then s1\<lparr>st_fail := True\<rparr>
      else case st_fault s1 of
          Some _ \<Rightarrow> (st_step s1)\<lparr>st_fail := True\<rparr>
        | None \<Rightarrow> (st_step s1)\<lparr>st_pos := p\<rparr>)"

text \<open>\<open>write(buf, n)\<close> at the current position; a gap past the end reads as zeros.\<close>

definition st_overwrite :: "bytes \<Rightarrow> nat \<Rightarrow> bytes \<Rightarrow> bytes" where
  "st_overwrite old p bs =
     take p old @ replicate (p - length old) 0 @ bs @ drop (p + length bs) old"

definition st_write :: "bytes \<Rightarrow> fstream \<Rightarrow> fstream" where
  "st_write bs s =
     (if \<not> st_good s then s\<lparr>st_fail := True\<rparr>
      else if \<not> st_open s then s\<lparr>st_bad := bs \<noteq> []\<rparr>
      else case st_fault s of
          Some k \<Rightarrow>
            let bs' = take k bs in
            (st_step s)\<lparr>st_data := st_overwrite (st_data s) (st_pos s) bs',
                        st_pos := st_pos s + length bs', st_bad := True\<rparr>
        | None \<Rightarrow>
            (st_step s)\<lparr>st_data := st_overwrite (st_data s) (st_pos s) bs,
                        st_pos := st_pos s + length bs\<rparr>)"

text \<open>\<open>tellp\<close>: \<open>None\<close> is the position -1.\<close>

definition st_tell :: "fstream \<Rightarrow> nat option \<times> fstream" where
  "st_tell s =
     (if st_failed s \<or> \<not> st_open s then (None, s)
      else case st_fault s of Some _ \<Rightarrow> (None, st_step s) | None \<Rightarrow> (Some (st_pos s), st_step s))"

definition st_close :: "fstream \<Rightarrow> fstream" where
  "st_close s =
     (case st_fault s of
        Some _ \<Rightarrow> (st_step s)\<lparr>st_open := False, st_fail := True\<rparr>
      | None \<Rightarrow> (st_step s)\<lparr>st_open := False\<rparr>)"

lemmas st_defs = st_good_def st_failed_def st_clear_def st_fault_def st_step_def

section \<open>The buffered file\<close>

datatype FileMode = IN | OUT | INOUT | EXCLUSIVE_OUT

text \<open>
  The read-ahead \<open>rbuf_\<close> is a block of fixed size of which only \<open>[0, rlen_)\<close> was ever filled; the
  model keeps that filled prefix as a list, so \<open>rlen_\<close> is \<open>length (rbuf f)\<close>.
\<close>

record fileio =
  strm :: fstream
  fsize :: nat
  io_error :: bool
  readable :: bool
  rbuf :: bytes
  rpos :: nat

definition READ_BUFFER_SIZE :: nat where
  "READ_BUFFER_SIZE = 65536"

definition STREAMOFF_MAX :: nat where
  "STREAMOFF_MAX = 2 ^ 63 - 1"

definition is_open :: "fileio \<Rightarrow> bool" where
  "is_open f \<longleftrightarrow> st_open (strm f)"

definition is_eof :: "fileio \<Rightarrow> bool" where
  "is_eof f \<longleftrightarrow> rpos f = length (rbuf f) \<and> st_eof (strm f)"

definition has_error :: "fileio \<Rightarrow> bool" where
  "has_error f \<longleftrightarrow> io_error f"

definition discard_read_buffer :: "fileio \<Rightarrow> fileio" where
  "discard_read_buffer f = f\<lparr>rpos := 0, rbuf := []\<rparr>"

definition stream_error :: "fstream \<Rightarrow> bool" where
  "stream_error s \<longleftrightarrow> st_bad s \<or> (st_failed s \<and> \<not> st_eof s)"

definition refill :: "fileio \<Rightarrow> bool \<times> fileio" where
  "refill f =
     (let f0 = f\<lparr>rpos := 0, rbuf := []\<rparr> in
      if \<not> is_open f0 \<or> \<not> readable f0 \<or> io_error f0 then (False, f0\<lparr>io_error := True\<rparr>)
      else let (got, s') = st_read READ_BUFFER_SIZE (strm f0);
               f1 = f0\<lparr>strm := s', io_error := stream_error s'\<rparr>
           in if got = [] then (False, f1) else (True, f1\<lparr>rbuf := got\<rparr>))"

text \<open>\<open>EOF\<close> is \<open>None\<close>.  A read position past the filled prefix would be an access out of range in
  the code; the model answers \<open>None\<close> there, and the invariant below excludes it.\<close>

definition read_byte :: "fileio \<Rightarrow> byte option \<times> fileio" where
  "read_byte f =
     (let (ok, f1) = (if rpos f = length (rbuf f) then refill f else (True, f)) in
      if ok \<and> rpos f1 < length (rbuf f1)
      then (Some (rbuf f1 ! rpos f1), f1\<lparr>rpos := rpos f1 + 1\<rparr>)
      else (None, f1))"

definition peek_byte :: "fileio \<Rightarrow> byte option \<times> fileio" where
  "peek_byte f =
     (let (ok, f1) = (if rpos f = length (rbuf f) then refill f else (True, f)) in
      if ok \<and> rpos f1 < length (rbuf f1) then (Some (rbuf f1 ! rpos f1), f1) else (None, f1))"

text \<open>One pass of the loop of \<open>read_chunk\<close>: the bytes of this step and the state after it.\<close>

definition read_step :: "nat \<Rightarrow> fileio \<Rightarrow> bytes \<times> fileio" where
  "read_step step f =
     (let buffered = min step (length (rbuf f) - rpos f);
          part = take buffered (drop (rpos f) (rbuf f));
          f1 = f\<lparr>rpos := rpos f + buffered\<rparr>
      in if buffered < step
         then let (bs, s') = st_read (step - buffered) (strm f1)
              in (part @ bs, f1\<lparr>strm := s', io_error := stream_error s'\<rparr>)
         else (part, f1))"

function read_loop :: "nat \<Rightarrow> bytes \<Rightarrow> fileio \<Rightarrow> bytes \<times> fileio" where
  "read_loop n vec f =
     (if length vec < n then
        (let step = min (n - length vec) READ_BUFFER_SIZE;
             (got, f1) = read_step step f
         in if length got < step \<or> io_error f1 then (vec @ got, f1)
            else read_loop n (vec @ got) f1)
      else (vec, f))"
  by pat_completeness auto
termination
  by (relation "measure (\<lambda>(n, vec, f). n - length vec)") (auto simp: READ_BUFFER_SIZE_def)

declare read_loop.simps [simp del]

definition read_chunk :: "nat \<Rightarrow> fileio \<Rightarrow> bytes \<times> fileio" where
  "read_chunk n f =
     (if n = 0 then ([], f)
      else if \<not> is_open f \<or> \<not> readable f \<or> io_error f then ([], f\<lparr>io_error := True\<rparr>)
      else read_loop n [] f)"

definition read_chunk_at :: "nat \<Rightarrow> nat \<Rightarrow> fileio \<Rightarrow> bytes \<times> fileio" where
  "read_chunk_at n p f =
     (let f0 = discard_read_buffer f in
      if \<not> is_open f0 \<or> \<not> readable f0 \<or> io_error f0 \<or> p > STREAMOFF_MAX
      then ([], f0\<lparr>io_error := True\<rparr>)
      else let s' = st_seek p (st_clear (strm f0)); f1 = f0\<lparr>strm := s'\<rparr>
           in if st_failed s' then ([], f1\<lparr>io_error := True\<rparr>) else read_chunk n f1)"

text \<open>A relative seek backwards by the bytes read ahead.\<close>

definition unread_buffer :: "fileio \<Rightarrow> fileio" where
  "unread_buffer f =
     (let buffered = length (rbuf f) - rpos f; f0 = discard_read_buffer f in
      if buffered > 0
      then let s' = st_seek (st_pos (strm f0) - buffered) (st_clear (strm f0))
           in f0\<lparr>strm := s', io_error := io_error f0 \<or> st_failed s'\<rparr>
      else f0)"

definition write_chunk :: "bytes \<Rightarrow> fileio \<Rightarrow> bool \<times> fileio" where
  "write_chunk chunk f =
     (if io_error f then (False, f)
      else let f1 = unread_buffer f in
        if io_error f1 \<or> length chunk > STREAMOFF_MAX then (False, f1\<lparr>io_error := True\<rparr>)
        else let s' = st_write chunk (strm f1);
                 f2 = f1\<lparr>strm := s', io_error := \<not> st_good s'\<rparr>;
                 f3 = (if \<not> io_error f2
                       then if \<not> readable f2 then f2\<lparr>fsize := fsize f2 + length chunk\<rparr>
                            else (case st_tell s' of
                                (Some pos, s2) \<Rightarrow> f2\<lparr>strm := s2, fsize := max (fsize f2) pos\<rparr>
                              | (None, s2) \<Rightarrow> f2\<lparr>strm := s2, io_error := True\<rparr>)
                       else f2)
             in (\<not> io_error f3, f3))"

definition write_byte :: "byte \<Rightarrow> fileio \<Rightarrow> bool \<times> fileio" where
  "write_byte b f = write_chunk [b] f"

text \<open>The overloads: a 64-bit number in big-endian order (the host is little-endian), and the first
  \<open>chunk_size\<close> bytes at a pointer.\<close>

definition write_chunk_u64 :: "u64 \<Rightarrow> fileio \<Rightarrow> bool \<times> fileio" where
  "write_chunk_u64 chunk f = write_chunk (rev (map (\<lambda>i. ucast (drop_bit (8 * i) chunk)) [0..<8])) f"

definition write_chunk_ptr :: "bytes \<Rightarrow> nat \<Rightarrow> fileio \<Rightarrow> bool \<times> fileio" where
  "write_chunk_ptr chunk chunk_size f = write_chunk (take chunk_size chunk) f"

text \<open>\<open>close\<close> reports whether this close succeeded: a short read at the end of the file is
  forgotten, a stream error is not.\<close>

definition fio_close :: "fileio \<Rightarrow> bool \<times> fileio" where
  "fio_close f =
     (let f0 = discard_read_buffer f in
      if \<not> is_open f0 then (True, f0)
      else let had_stream_error = st_bad (strm f0);
               s' = st_close (st_clear (strm f0));
               f1 = f0\<lparr>strm := s',
                        io_error := io_error f0 \<or> st_failed s' \<or> had_stream_error, fsize := 0\<rparr>
           in (\<not> io_error f1, f1))"

text \<open>The move operations: the source is left closed and empty.\<close>

definition closed_stream :: fstream where
  "closed_stream = \<lparr>st_data = [], st_pos = 0, st_open = False, st_eof = False,
                    st_fail = False, st_bad = False, st_plan = []\<rparr>"

definition fio_default :: fileio where
  "fio_default = \<lparr>strm = closed_stream, fsize = 0, io_error = False, readable = False,
                  rbuf = [], rpos = 0\<rparr>"

definition fio_move :: "fileio \<Rightarrow> fileio \<times> fileio" where
  "fio_move other = (other, fio_default)"

definition fio_move_assign :: "fileio \<Rightarrow> fileio \<Rightarrow> fileio \<times> fileio" where
  "fio_move_assign self other =
     (let (closed, _) = fio_close self
      in (other\<lparr>io_error := io_error other \<or> \<not> closed\<rparr>, fio_default))"

section \<open>What the file still has to deliver\<close>

text \<open>
  The caller's view of an input file is the list of bytes not yet consumed: those read ahead, then
  those the stream has not been asked for.  The invariant says that, unless an error was recorded,
  the stream's state bits record nothing worse than the end of the file, and truthfully.
\<close>

definition remaining :: "fileio \<Rightarrow> bytes" where
  "remaining f = drop (rpos f) (rbuf f) @ drop (st_pos (strm f)) (st_data (strm f))"

definition stream_calm :: "fstream \<Rightarrow> bool" where
  "stream_calm s \<longleftrightarrow> \<not> st_bad s \<and> (st_fail s \<longrightarrow> st_eof s) \<and>
     (st_eof s \<longrightarrow> length (st_data s) \<le> st_pos s)"

definition reading :: "fileio \<Rightarrow> bool" where
  "reading f \<longleftrightarrow> is_open f \<and> readable f \<and> rpos f \<le> length (rbuf f) \<and>
     (\<not> io_error f \<longrightarrow> stream_calm (strm f))"

definition plan_quiet :: "fstream \<Rightarrow> bool" where
  "plan_quiet s \<longleftrightarrow> (\<forall>x \<in> set (st_plan s). x = None)"

definition healthy :: "fileio \<Rightarrow> bool" where
  "healthy f \<longleftrightarrow> reading f \<and> \<not> io_error f \<and> plan_quiet (strm f)"

lemma st_fault_quiet: "plan_quiet s \<Longrightarrow> st_fault s = None"
  by (auto simp: plan_quiet_def st_fault_def split: list.splits)

lemma plan_quiet_step: "plan_quiet s \<Longrightarrow> plan_quiet (st_step s)"
  by (auto simp: plan_quiet_def st_step_def dest: in_set_tlD)

subsection \<open>One read of the stream\<close>

lemma st_read_frame:
  assumes "st_read n s = (bs, s')"
  shows "st_data s' = st_data s" and "st_open s' = st_open s" and "length bs \<le> n"
    and "bs @ drop (st_pos s') (st_data s) = drop (st_pos s) (st_data s)"
  using assms
  by (auto simp: st_read_def Let_def st_step_def take_drop_window
      split: if_splits option.splits)

text \<open>If the stream reports no error, it delivered what was asked or reached the end.\<close>

lemma st_read_correct:
  assumes "st_read n s = (bs, s')" and "stream_calm s" and "\<not> stream_error s'"
  shows "bs = take n (drop (st_pos s) (st_data s))" and "stream_calm s'"
  using assms
  by (auto simp: st_read_def Let_def st_defs stream_error_def stream_calm_def
      split: if_splits option.splits list.splits)

lemma st_read_quiet:
  assumes "st_read n s = (bs, s')" and "stream_calm s" and "plan_quiet s"
  shows "\<not> stream_error s'" and "plan_quiet s'"
  using assms
  by (auto simp: st_read_def Let_def st_fault_quiet plan_quiet_step stream_error_def
      stream_calm_def st_good_def st_failed_def st_step_def plan_quiet_def split: if_splits)
    (blast dest: in_set_tlD)

subsection \<open>The read operations against the remaining bytes\<close>

text \<open>
  \<open>delivers f f'\<close> relates two states of an input file between which \<open>bs\<close> was handed out: the
  file stays usable, its contents are untouched, a recorded error stays recorded, and unless one is
  recorded \<open>bs\<close> is what was asked for and the rest is what remains.
\<close>

definition delivers :: "fileio \<Rightarrow> fileio \<Rightarrow> bytes \<Rightarrow> bool" where
  "delivers f f' rest \<longleftrightarrow> reading f' \<and> st_data (strm f') = st_data (strm f) \<and> fsize f' = fsize f \<and>
     (io_error f \<longrightarrow> io_error f') \<and> (healthy f \<longrightarrow> healthy f') \<and>
     (\<not> io_error f' \<longrightarrow> remaining f' = rest)"

lemma refill_delivers:
  assumes "refill f = (ok, f')" and "reading f" and "rpos f = length (rbuf f)"
  shows "delivers f f' (remaining f)"
    and "\<not> io_error f' \<Longrightarrow> ok \<longleftrightarrow> remaining f \<noteq> []" and "ok \<longleftrightarrow> rbuf f' \<noteq> []"
    and "rpos f' = 0" and "\<not> io_error f' \<Longrightarrow> \<not> io_error f"
proof -
  obtain got s' where rd: "st_read READ_BUFFER_SIZE (strm f) = (got, s')" by fastforce
  note fr = st_read_frame [OF rd]
  have pos: "0 < READ_BUFFER_SIZE" by (simp add: READ_BUFFER_SIZE_def)
  have got: "got = take READ_BUFFER_SIZE (drop (st_pos (strm f)) (st_data (strm f)))"
    and calm: "stream_calm s'" if "\<not> io_error f" "\<not> stream_error s'"
    using st_read_correct [OF rd] that assms(2) by (auto simp: reading_def)
  have quiet: "\<not> stream_error s' \<and> plan_quiet s'" if "healthy f"
    using st_read_quiet [OF rd] that by (auto simp: healthy_def reading_def)
  show "delivers f f' (remaining f)"
    using assms rd fr got calm quiet
    by (auto simp: refill_def delivers_def reading_def is_open_def Let_def remaining_def healthy_def
        split: if_splits)
  show "ok \<longleftrightarrow> remaining f \<noteq> []" if "\<not> io_error f'"
    using that assms rd got pos
    by (auto simp: refill_def reading_def is_open_def Let_def remaining_def split: if_splits)
  show "ok \<longleftrightarrow> rbuf f' \<noteq> []" "rpos f' = 0" "\<not> io_error f' \<Longrightarrow> \<not> io_error f"
    using assms rd by (auto simp: refill_def Let_def split: if_splits)
qed

text \<open>Both single-byte operations first make sure that a byte is read ahead.\<close>

lemma ensure_ahead:
  assumes "(if rpos f = length (rbuf f) then refill f else (True, f)) = (ok, f1)" and "reading f"
  shows "delivers f f1 (remaining f)"
    and "\<not> io_error f1 \<Longrightarrow> ok \<and> rpos f1 < length (rbuf f1) \<longleftrightarrow> remaining f \<noteq> []"
    and "ok \<Longrightarrow> rpos f1 < length (rbuf f1)"
proof -
  have refilled: "refill f = (ok, f1)" if "rpos f = length (rbuf f)"
    using assms that by simp
  have kept: "f1 = f" "ok" if "rpos f \<noteq> length (rbuf f)"
    using assms that by auto
  show "delivers f f1 (remaining f)"
    using refill_delivers(1) [OF refilled assms(2)] kept assms(2)
    by (cases "rpos f = length (rbuf f)") (auto simp: delivers_def)
  show "ok \<and> rpos f1 < length (rbuf f1) \<longleftrightarrow> remaining f \<noteq> []" if "\<not> io_error f1"
    using refill_delivers(2-4) [OF refilled assms(2)] kept assms(2) that
    by (cases "rpos f = length (rbuf f)") (auto simp: reading_def remaining_def)
  show "rpos f1 < length (rbuf f1)" if ok
    using refill_delivers(3,4) [OF refilled assms(2)] kept assms(2) that
    by (cases "rpos f = length (rbuf f)") (auto simp: reading_def)
qed

lemma delivers_trans:
  "delivers f f1 r1 \<Longrightarrow> delivers f1 f2 r2 \<Longrightarrow> delivers f f2 r2"
  by (auto simp: delivers_def)

lemma delivers_sticky: "delivers f f' r \<Longrightarrow> io_error f \<Longrightarrow> io_error f'"
  by (simp add: delivers_def)

lemma read_byte_delivers:
  assumes "read_byte f = (b, f')" and "reading f"
  shows "delivers f f' (tl (remaining f))"
    and "\<not> io_error f' \<Longrightarrow> b = (case remaining f of [] \<Rightarrow> None | x # _ \<Rightarrow> Some x)"
proof -
  obtain ok f1 where e: "(if rpos f = length (rbuf f) then refill f else (True, f)) = (ok, f1)"
    by fastforce
  note ens = ensure_ahead [OF e assms(2)]
  have "(b, f') = (if ok \<and> rpos f1 < length (rbuf f1)
      then (Some (rbuf f1 ! rpos f1), f1\<lparr>rpos := rpos f1 + 1\<rparr>) else (None, f1))"
    using assms(1) unfolding read_byte_def Let_def e by simp
  then consider (got) "ok" "rpos f1 < length (rbuf f1)" "b = Some (rbuf f1 ! rpos f1)"
      "f' = f1\<lparr>rpos := rpos f1 + 1\<rparr>"
    | (none) "\<not> ok" "b = None" "f' = f1"
    using ens(3) by (cases ok) simp_all
  then have "delivers f f' (tl (remaining f)) \<and>
    (\<not> io_error f' \<longrightarrow> b = (case remaining f of [] \<Rightarrow> None | x # _ \<Rightarrow> Some x))"
  proof cases
    case got
    then have cons: "remaining f1 = rbuf f1 ! rpos f1 # remaining f'"
      by (simp add: remaining_def nth_drop_Cons)
    have frame: "io_error f' = io_error f1" "strm f' = strm f1" "fsize f' = fsize f1" "reading f' = reading f1"
        "healthy f' = healthy f1"
      using got(2,4) ens(1) by (auto simp: healthy_def reading_def is_open_def delivers_def)
    have same: "remaining f = rbuf f1 ! rpos f1 # remaining f'" if "\<not> io_error f1"
      using ens(1) that cons by (simp add: delivers_def)
    show ?thesis using ens(1) same frame got(3) unfolding delivers_def by simp
  next
    case none
    then have "remaining f = []" if "\<not> io_error f1" using ens(2) that by simp
    with none ens(1) show ?thesis by (auto simp: delivers_def)
  qed
  then show "delivers f f' (tl (remaining f))"
    and "\<not> io_error f' \<Longrightarrow> b = (case remaining f of [] \<Rightarrow> None | x # _ \<Rightarrow> Some x)" by simp_all
qed

lemma peek_byte_delivers:
  assumes "peek_byte f = (b, f')" and "reading f"
  shows "delivers f f' (remaining f)"
    and "\<not> io_error f' \<Longrightarrow> b = (case remaining f of [] \<Rightarrow> None | x # _ \<Rightarrow> Some x)"
proof -
  obtain ok f1 where e: "(if rpos f = length (rbuf f) then refill f else (True, f)) = (ok, f1)"
    by fastforce
  note ens = ensure_ahead [OF e assms(2)]
  have f': "f' = f1" and b: "b = (if ok \<and> rpos f1 < length (rbuf f1)
      then Some (rbuf f1 ! rpos f1) else None)"
    using assms(1) unfolding peek_byte_def Let_def e by (auto split: if_splits)
  show "delivers f f' (remaining f)" using ens(1) f' by simp
  show "b = (case remaining f of [] \<Rightarrow> None | x # _ \<Rightarrow> Some x)" if "\<not> io_error f'"
  proof (cases "ok \<and> rpos f1 < length (rbuf f1)")
    case True
    then have "remaining f1 = rbuf f1 ! rpos f1 # drop (rpos f1 + 1) (rbuf f1)
        @ drop (st_pos (strm f1)) (st_data (strm f1))"
      by (simp add: remaining_def nth_drop_Cons)
    moreover have "remaining f1 = remaining f" using ens(1) that f' by (simp add: delivers_def)
    ultimately show ?thesis using True b by simp
  next
    case False
    then have "remaining f = []" using ens(2) that f' by blast
    with False b show ?thesis by simp
  qed
qed

subsection \<open>Block reads\<close>

text \<open>A request the buffer can serve, and one that goes on to the stream.\<close>

definition step_delivers :: "nat \<Rightarrow> fileio \<Rightarrow> bytes \<Rightarrow> fileio \<Rightarrow> bool" where
  "step_delivers k f got f' \<longleftrightarrow> delivers f f' (drop k (remaining f)) \<and> length got \<le> k \<and>
     (\<not> io_error f' \<longrightarrow> got = take k (remaining f))"

lemma read_step_buffered:
  assumes "read_step k f = (got, f')" and "reading f" and "\<not> io_error f" and "k \<le> length (rbuf f) - rpos f"
  shows "step_delivers k f got f'"
proof -
  define part where "part = take k (drop (rpos f) (rbuf f))"
  have len: "length part = k" and rp: "rpos f \<le> length (rbuf f)"
    using assms(2,4) by (auto simp: part_def reading_def)
  have got: "got = part" and f': "f' = f\<lparr>rpos := rpos f + k\<rparr>"
    using assms(1,4) by (auto simp: read_step_def Let_def part_def min_def)
  have "drop (rpos f) (rbuf f) = part @ drop (rpos f + k) (rbuf f)"
    unfolding part_def by (metis append_take_drop_id drop_drop add.commute)
  then have "remaining f = part @ remaining f'" by (simp add: remaining_def f')
  then show ?thesis
    using f' got len assms(2-4) rp by (auto simp: step_delivers_def delivers_def reading_def healthy_def is_open_def)
qed

lemma read_step_streamed:
  assumes "read_step k f = (got, f')" and "reading f" and "\<not> io_error f" and "length (rbuf f) - rpos f < k"
  shows "step_delivers k f got f'"
proof -
  define part where "part = drop (rpos f) (rbuf f)"
  define m where "m = length part"
  have m: "m = length (rbuf f) - rpos f" "m < k" using assms(4) by (simp_all add: m_def part_def)
  obtain bs s' where rd: "st_read (k - m) (strm f) = (bs, s')" by fastforce
  have got: "got = part @ bs" and f': "f' = f\<lparr>rpos := length (rbuf f), strm := s', io_error := stream_error s'\<rparr>"
    using assms(1,2) rd m by (auto simp: read_step_def Let_def part_def reading_def min_def)
  note fr = st_read_frame [OF rd]
  have calm: "stream_calm (strm f)" using assms(2,3) by (simp add: reading_def)
  note ok = st_read_correct [OF rd calm]
  have quiet: "healthy f \<Longrightarrow> \<not> stream_error s' \<and> plan_quiet s'"
    using st_read_quiet [OF rd calm] by (simp add: healthy_def)
  have tot: "remaining f = part @ bs @ remaining f'" using fr(1,4) by (simp add: f' remaining_def part_def)
  have lb: "length bs \<le> k - m" by (rule fr(3))
  have short: "remaining f' = []" if "length bs < k - m" "\<not> stream_error s'"
  proof -
    have "bs = take (k - m) (drop (st_pos (strm f)) (st_data (strm f)))" by (rule ok(1)) (rule that(2))
    then have "bs = drop (st_pos (strm f)) (st_data (strm f))" using that(1) by simp
    with fr(1,4) show ?thesis by (simp add: f' remaining_def)
  qed
  have "remaining f' = drop k (remaining f) \<and> got = take k (remaining f)" if "\<not> stream_error s'"
    using tot lb m(2) short [OF _ that] got by (cases "length bs < k - m") (auto simp: m_def)
  then show ?thesis
    using f' fr(1,2) ok(2) quiet assms(2,3) lb got m
    by (auto simp: step_delivers_def delivers_def reading_def healthy_def is_open_def m_def)
qed

lemma read_step_delivers:
  assumes "read_step k f = (got, f')" and "reading f" and "\<not> io_error f"
  shows "delivers f f' (drop k (remaining f))" and "length got \<le> k"
    and "\<not> io_error f' \<Longrightarrow> got = take k (remaining f)"
  using read_step_buffered [OF assms] read_step_streamed [OF assms]
  by (cases "length (rbuf f) - rpos f < k"; simp add: step_delivers_def)+

lemma read_loop_delivers:
  assumes "read_loop n vec f = (out, f')" and "reading f" and "\<not> io_error f" and "length vec \<le> n"
  shows "delivers f f' (drop (n - length vec) (remaining f)) \<and> length out \<le> n \<and>
         (\<not> io_error f' \<longrightarrow> out = vec @ take (n - length vec) (remaining f))"
  using assms
proof (induction n vec f rule: read_loop.induct)
  case (1 n vec f)
  show ?case
  proof (cases "length vec < n")
    case True
    define k where "k = min (n - length vec) READ_BUFFER_SIZE"
    obtain got f1 where st: "read_step k f = (got, f1)" by fastforce
    note sd = read_step_delivers [OF st "1.prems"(2,3)]
    have k: "0 < k" "length vec + k \<le> n" using True by (auto simp: k_def READ_BUFFER_SIZE_def)
    show ?thesis
    proof (cases "length got < k \<or> io_error f1")
      case stop: True
      then have "out = vec @ got" "f' = f1"
        using "1.prems"(1) True st by (auto simp: read_loop.simps [of n vec f] k_def [symmetric] Let_def)
      moreover have "remaining f = got" if "\<not> io_error f1"
        using stop sd(3) that by auto
      ultimately show ?thesis using sd k by (auto simp: delivers_def)
    next
      case False
      then have rec: "read_loop n (vec @ got) f1 = (out, f')" and lg: "length got = k"
        using "1.prems"(1) True st sd(2)
        by (auto simp: read_loop.simps [of n vec f] k_def [symmetric] Let_def)
      have IH: "delivers f1 f' (drop (n - length (vec @ got)) (remaining f1)) \<and> length out \<le> n \<and>
          (\<not> io_error f' \<longrightarrow> out = (vec @ got) @ take (n - length (vec @ got)) (remaining f1))"
        using "1.IH" [OF True k_def refl] st False rec sd(1) lg k
        by (auto simp: delivers_def)
      have "remaining f1 = drop k (remaining f)" "got = take k (remaining f)"
        using sd False by (auto simp: delivers_def)
      moreover have "n - length vec = k + (n - length vec - k)" using k by simp
      ultimately show ?thesis
        using IH lg delivers_trans [OF sd(1)]
        by (metis append.assoc diff_diff_left drop_drop length_append take_add add.commute)
    qed
  next
    case False
    then show ?thesis
      using "1.prems" by (auto simp: read_loop.simps [of n vec f] delivers_def)
  qed
qed

lemma read_chunk_delivers:
  assumes "read_chunk n f = (out, f')" and "reading f"
  shows "delivers f f' (drop n (remaining f))" and "length out \<le> n"
    and "\<not> io_error f' \<Longrightarrow> out = take n (remaining f)"
proof -
  consider (zero) "n = 0" "out = []" "f' = f" | (err) "n > 0" "io_error f" "out = []" "f' = f"
    | (loop) "n > 0" "\<not> io_error f" "read_loop n [] f = (out, f')"
    using assms by (auto simp: read_chunk_def reading_def split: if_splits)
  then have "delivers f f' (drop n (remaining f)) \<and> length out \<le> n \<and>
      (\<not> io_error f' \<longrightarrow> out = take n (remaining f))"
    using assms(2) read_loop_delivers [of n "[]" f out f'] by cases (auto simp: delivers_def)
  then show "delivers f f' (drop n (remaining f))" and "length out \<le> n"
    and "\<not> io_error f' \<Longrightarrow> out = take n (remaining f)" by simp_all
qed

subsection \<open>The file as a byte source\<close>

definition file_source :: "fileio source" where
  "file_source = \<lparr>src_byte = State read_byte, src_peek = State peek_byte,
                  src_chunk = (\<lambda>n. State (read_chunk n)), src_error = io_error\<rparr>"

lemma file_source_simps [simp]:
  "run_state (src_byte file_source) f = read_byte f"
  "run_state (src_peek file_source) f = peek_byte f"
  "run_state (src_chunk file_source n) f = read_chunk n f"
  "src_error file_source f = io_error f"
  by (simp_all add: file_source_def)

interpretation fio: byte_source file_source remaining reading healthy
proof
  fix f n
  show "healthy f \<Longrightarrow> \<not> src_error file_source f" and "healthy f \<Longrightarrow> reading f"
    by (simp_all add: healthy_def)
  show "simulates (src_error file_source) reading healthy remaining
          (src_byte file_source) (src_byte list_source)"
  proof (rule simulatesI)
    fix f b f' assume "reading f" "run_state (src_byte file_source) f = (b, f')"
    then show "reading f' \<and> (src_error file_source f \<longrightarrow> src_error file_source f') \<and>
        (healthy f \<longrightarrow> healthy f') \<and> (\<not> src_error file_source f' \<longrightarrow>
        run_state (src_byte list_source) (remaining f) = (b, remaining f'))"
      using read_byte_delivers [of f b f'] by (cases "remaining f") (auto simp: delivers_def)
  qed
  show "simulates (src_error file_source) reading healthy remaining
          (src_peek file_source) (src_peek list_source)"
  proof (rule simulatesI)
    fix f b f' assume "reading f" "run_state (src_peek file_source) f = (b, f')"
    then show "reading f' \<and> (src_error file_source f \<longrightarrow> src_error file_source f') \<and>
        (healthy f \<longrightarrow> healthy f') \<and> (\<not> src_error file_source f' \<longrightarrow>
        run_state (src_peek list_source) (remaining f) = (b, remaining f'))"
      using peek_byte_delivers [of f b f'] by (cases "remaining f") (auto simp: delivers_def)
  qed
  show "simulates (src_error file_source) reading healthy remaining
          (src_chunk file_source n) (src_chunk list_source n)"
  proof (rule simulatesI)
    fix f b f' assume "reading f" "run_state (src_chunk file_source n) f = (b, f')"
    then show "reading f' \<and> (src_error file_source f \<longrightarrow> src_error file_source f') \<and>
        (healthy f \<longrightarrow> healthy f') \<and> (\<not> src_error file_source f' \<longrightarrow>
        run_state (src_chunk list_source n) (remaining f) = (b, remaining f'))"
      using read_chunk_delivers [of n f b f'] by (auto simp: delivers_def)
  qed
qed

subsection \<open>Positioned reads\<close>

lemma st_seek_frame:
  "st_data (st_seek p s) = st_data s" "st_open (st_seek p s) = st_open s"
  by (auto simp: st_seek_def Let_def st_step_def split: option.splits)

lemma st_seek_clear:
  "\<not> st_failed (st_seek p (st_clear s)) \<Longrightarrow>
     st_pos (st_seek p (st_clear s)) = p \<and> stream_calm (st_seek p (st_clear s))"
  "plan_quiet s \<Longrightarrow> \<not> st_failed (st_seek p (st_clear s)) \<and> plan_quiet (st_seek p (st_clear s))"
  by (auto simp: st_seek_def Let_def st_defs stream_calm_def plan_quiet_def
      split: option.splits list.splits)

lemma read_chunk_at_delivers:
  assumes "read_chunk_at n p f = (out, f')" and "reading f" and "p \<le> STREAMOFF_MAX"
  shows "delivers f f' (drop (p + n) (st_data (strm f)))" and "length out \<le> n"
    and "\<not> io_error f' \<Longrightarrow> out = take n (drop p (st_data (strm f)))"
proof -
  define s' where "s' = st_seek p (st_clear (strm f))"
  define f1 where "f1 = (discard_read_buffer f)\<lparr>strm := s'\<rparr>"
  have fr: "st_data s' = st_data (strm f)" "st_open s' = st_open (strm f)"
    by (simp_all add: s'_def st_seek_frame st_clear_def)
  note sk = st_seek_clear [where p = p and s = "strm f", folded s'_def]
  consider (err) "io_error f" "out = []" "f' = discard_read_buffer f"
    | (seek) "\<not> io_error f" "st_failed s'" "out = []" "f' = f1\<lparr>io_error := True\<rparr>"
    | (read) "\<not> io_error f" "\<not> st_failed s'" "read_chunk n f1 = (out, f')"
    using assms by (auto simp: read_chunk_at_def Let_def reading_def discard_read_buffer_def
        is_open_def s'_def f1_def split: if_splits)
  then have "delivers f f' (drop (p + n) (st_data (strm f))) \<and> length out \<le> n \<and>
      (\<not> io_error f' \<longrightarrow> out = take n (drop p (st_data (strm f))))"
  proof cases
    case err
    then show ?thesis using assms(2)
      by (auto simp: delivers_def reading_def discard_read_buffer_def is_open_def healthy_def)
  next
    case seek
    then show ?thesis using assms(2) fr sk(2)
      by (auto simp: delivers_def reading_def discard_read_buffer_def is_open_def healthy_def f1_def)
  next
    case read
    have rd: "reading f1" using read assms(2) fr sk(1)
      by (auto simp: reading_def discard_read_buffer_def is_open_def f1_def)
    have "remaining f1 = drop p (st_data (strm f))"
      using sk(1) read fr by (simp add: remaining_def f1_def discard_read_buffer_def)
    moreover have "healthy f \<Longrightarrow> healthy f1"
      using rd sk(2) by (auto simp: healthy_def f1_def discard_read_buffer_def)
    ultimately show ?thesis
      using read_chunk_delivers [OF read(3) rd] read(1) fr
      by (auto simp: delivers_def f1_def add.commute discard_read_buffer_def)
  qed
  then show "delivers f f' (drop (p + n) (st_data (strm f)))" and "length out \<le> n"
    and "\<not> io_error f' \<Longrightarrow> out = take n (drop p (st_data (strm f)))" by simp_all
qed

subsection \<open>Progress\<close>

text \<open>Without any assumption on the file: a byte handed out is taken off what remains, and no read
  adds to it.\<close>

lemma refill_remaining:
  assumes "refill f = (True, f')" and "rpos f = length (rbuf f)"
  shows "remaining f' = remaining f" and "rpos f' = 0"
proof -
  obtain got s' where r: "st_read READ_BUFFER_SIZE (strm f) = (got, s')"
    and f': "f' = f\<lparr>rpos := 0, strm := s', io_error := stream_error s', rbuf := got\<rparr>"
    using assms(1) by (auto simp: refill_def Let_def is_open_def split: prod.splits if_splits)
  show "remaining f' = remaining f" "rpos f' = 0"
    using st_read_frame [OF r] assms(2) by (simp_all add: f' remaining_def)
qed

lemma read_byte_progress:
  assumes "read_byte f = (Some b, f')"
  shows "length (remaining f') < length (remaining f)"
proof (cases "rpos f = length (rbuf f)")
  case True
  obtain ok f1 where r: "refill f = (ok, f1)" by fastforce
  with True assms have ok: "ok" and f': "f' = f1\<lparr>rpos := rpos f1 + 1\<rparr>" and lt: "rpos f1 < length (rbuf f1)"
    by (auto simp: read_byte_def Let_def split: if_splits)
  have "remaining f1 = remaining f" using refill_remaining(1) [OF _ True, of f1] r ok by simp
  moreover have "length (remaining f') < length (remaining f1)"
    using lt by (auto simp: f' remaining_def)
  ultimately show ?thesis by simp
next
  case False
  then show ?thesis using assms by (auto simp: read_byte_def Let_def remaining_def split: if_splits)
qed

lemma read_step_remaining:
  assumes "read_step k f = (bs, f')"
  shows "length (remaining f') \<le> length (remaining f)"
proof -
  have "length (drop (st_pos s') (st_data s')) \<le> length (drop (st_pos s) (st_data s))"
    if "st_read n s = (xs, s')" for n s xs s'
    using st_read_frame [OF that] by (metis le_add2 length_append)
  then show ?thesis
    using assms by (fastforce simp: read_step_def Let_def remaining_def split: prod.splits if_splits)
qed

lemma read_chunk_remaining:
  assumes "read_chunk n f = (bs, f')"
  shows "length (remaining f') \<le> length (remaining f)"
proof -
  have loop: "read_loop n vec g = (bs, g') \<Longrightarrow> length (remaining g') \<le> length (remaining g)" for vec g g'
  proof (induction n vec g rule: read_loop.induct)
    case (1 n vec g)
    obtain got g1 where st: "read_step (min (n - length vec) READ_BUFFER_SIZE) g = (got, g1)" by fastforce
    have "length (remaining g1) \<le> length (remaining g)" by (rule read_step_remaining [OF st])
    then show ?case
      using "1.prems" "1.IH" [OF _ refl, of "(got, g1)" got g1] st
      by (subst (asm) read_loop.simps) (fastforce simp: Let_def split: if_splits)
  qed
  show ?thesis using assms loop [of "[]" f f'] by (auto simp: read_chunk_def remaining_def split: if_splits)
qed

section \<open>Output files\<close>

text \<open>An output file is written front to back: its position stays at the end of its bytes.\<close>

definition writing :: "fileio \<Rightarrow> bool" where
  "writing f \<longleftrightarrow> is_open f \<and> \<not> readable f \<and> rbuf f = [] \<and> rpos f = 0 \<and>
     (\<not> io_error f \<longrightarrow> st_good (strm f) \<and> st_pos (strm f) = length (st_data (strm f)))"

definition healthy_out :: "fileio \<Rightarrow> bool" where
  "healthy_out f \<longleftrightarrow> writing f \<and> \<not> io_error f \<and> plan_quiet (strm f)"

definition written :: "fileio \<Rightarrow> bytes" where
  "written f = st_data (strm f)"

lemma st_overwrite_end: "st_overwrite old (length old) bs = old @ bs"
  by (simp add: st_overwrite_def)

lemma write_chunk_appends:
  assumes "write_chunk bs f = (ok, f')" and "writing f"
  shows "writing f'" and "ok \<longleftrightarrow> \<not> io_error f'" and "io_error f \<Longrightarrow> io_error f'"
    and "ok \<Longrightarrow> written f' = written f @ bs"
    and "healthy_out f \<Longrightarrow> length bs \<le> STREAMOFF_MAX \<Longrightarrow> ok \<and> healthy_out f'"
proof -
  have ub: "unread_buffer f = f"
    using assms(2) by (simp add: unread_buffer_def writing_def discard_read_buffer_def)
  show "writing f'" and "ok \<longleftrightarrow> \<not> io_error f'" and "io_error f \<Longrightarrow> io_error f'"
    and "ok \<Longrightarrow> written f' = written f @ bs"
    using assms ub
    by (auto simp: write_chunk_def writing_def Let_def is_open_def written_def st_write_def
        st_good_def st_step_def st_overwrite_end split: if_splits option.splits)
  show "ok \<and> healthy_out f'" if "healthy_out f" "length bs \<le> STREAMOFF_MAX"
    using assms ub that
    by (auto simp: write_chunk_def healthy_out_def writing_def Let_def is_open_def st_write_def
        st_fault_quiet plan_quiet_def st_good_def st_step_def st_overwrite_end
        split: if_splits option.splits) (blast dest: in_set_tlD)
qed

lemma write_u64_appends:
  assumes "write_chunk_u64 v f = (True, f')" and "writing f"
  shows "written f' = written f @ [ucast (drop_bit 56 v), ucast (drop_bit 48 v), ucast (drop_bit 40 v),
    ucast (drop_bit 32 v), ucast (drop_bit 24 v), ucast (drop_bit 16 v), ucast (drop_bit 8 v), ucast v]"
  using write_chunk_appends(4) [OF assms(1) [unfolded write_chunk_u64_def] assms(2)] by (simp add: upt_rec)

section \<open>Properties of the buffered file\<close>

text \<open>A caller mixes single-byte, peeking and block reads in any order.\<close>

datatype read_op = ReadByte | PeekByte | ReadChunk nat

fun run_read :: "read_op \<Rightarrow> fileio \<Rightarrow> bytes \<times> fileio" where
  "run_read ReadByte f = (case read_byte f of (None, g) \<Rightarrow> ([], g) | (Some b, g) \<Rightarrow> ([b], g))"
| "run_read PeekByte f = (case peek_byte f of (_, g) \<Rightarrow> ([], g))"
| "run_read (ReadChunk n) f = read_chunk n f"

fun run_reads :: "read_op list \<Rightarrow> fileio \<Rightarrow> bytes \<times> fileio" where
  "run_reads [] f = ([], f)"
| "run_reads (x # xs) f =
     (case run_read x f of (bs, g) \<Rightarrow> case run_reads xs g of (cs, h) \<Rightarrow> (bs @ cs, h))"

lemma run_read_delivers:
  assumes "run_read x f = (bs, g)" and "reading f"
  shows "reading g" and "io_error f \<Longrightarrow> io_error g" and "healthy f \<Longrightarrow> healthy g"
    and "\<not> io_error g \<Longrightarrow> bs @ remaining g = remaining f"
proof -
  have "reading g \<and> (io_error f \<longrightarrow> io_error g) \<and> (healthy f \<longrightarrow> healthy g) \<and>
      (\<not> io_error g \<longrightarrow> bs @ remaining g = remaining f)"
  proof (cases x)
    case ReadByte
    obtain b h where "read_byte f = (b, h)" by fastforce
    with read_byte_delivers [OF this assms(2)] assms(1) ReadByte show ?thesis
      by (cases b; cases "remaining f") (auto simp: delivers_def)
  next
    case PeekByte
    obtain b h where "peek_byte f = (b, h)" by fastforce
    with peek_byte_delivers [OF this assms(2)] assms(1) PeekByte show ?thesis
      by (auto simp: delivers_def)
  next
    case (ReadChunk n)
    with read_chunk_delivers [of n f bs g] assms show ?thesis by (auto simp: delivers_def)
  qed
  then show "reading g" and "io_error f \<Longrightarrow> io_error g" and "healthy f \<Longrightarrow> healthy g"
    and "\<not> io_error g \<Longrightarrow> bs @ remaining g = remaining f" by simp_all
qed

lemma run_reads_delivers:
  assumes "run_reads xs f = (bs, g)" and "reading f"
  shows "reading g \<and> (io_error f \<longrightarrow> io_error g) \<and> (healthy f \<longrightarrow> healthy g) \<and>
    (\<not> io_error g \<longrightarrow> bs @ remaining g = remaining f)"
  using assms
proof (induction xs arbitrary: f bs)
  case (Cons x xs)
  obtain cs h ds where 1: "run_read x f = (cs, h)" and 2: "run_reads xs h = (ds, g)"
      and bs: "bs = cs @ ds"
    using Cons.prems(1) by (auto split: prod.splits)
  note hd = run_read_delivers [OF 1 Cons.prems(2)]
  show ?case using Cons.IH [OF 2 hd(1)] hd bs by (cases "io_error h") auto
qed simp

subsection \<open>A freshly opened input\<close>

definition file_of :: "bytes \<Rightarrow> fileio" where
  "file_of bs = \<lparr>strm = \<lparr>st_data = bs, st_pos = 0, st_open = True, st_eof = False, st_fail = False,
     st_bad = False, st_plan = []\<rparr>, fsize = length bs, io_error = False, readable = True,
     rbuf = [], rpos = 0\<rparr>"

lemma file_of_simps [simp]:
  "healthy (file_of bs)" "reading (file_of bs)" "remaining (file_of bs) = bs"
  "st_data (strm (file_of bs)) = bs" "fsize (file_of bs) = length bs" "\<not> io_error (file_of bs)"
  by (simp_all add: file_of_def healthy_def reading_def is_open_def stream_calm_def plan_quiet_def remaining_def)

section \<open>What a caller may rely on\<close>

text \<open>C21 However a caller mixes single-byte reads, peeks and block reads, the bytes returned are the file's,
  in order and without loss, unless an I/O error was recorded; a recorded error is never forgotten,
  and a device that does not fail records none.\<close>

theorem reads_deliver_in_order:
  assumes "run_reads xs f = (bs, g)" and "reading f"
  shows "reading g \<and> (io_error f \<longrightarrow> io_error g) \<and> (healthy f \<longrightarrow> healthy g) \<and>
    (\<not> io_error g \<longrightarrow> bs @ remaining g = remaining f)"
  using run_reads_delivers [OF assms] .

theorem reads_deliver_in_order_witness:
  "\<exists>bs g. run_reads [PeekByte, ReadByte, ReadChunk 2, ReadByte] (file_of [1, 2, 3, 4, 5]) = (bs, g) \<and>
     bs @ remaining g = [1, 2, 3, 4, 5]"
proof -
  obtain bs g where r: "run_reads [PeekByte, ReadByte, ReadChunk 2, ReadByte] (file_of [1, 2, 3, 4, 5]) = (bs, g)"
    by fastforce
  note d = reads_deliver_in_order [OF this file_of_simps(2)]
  then have "\<not> io_error g" using file_of_simps(1) healthy_def by blast
  with d have "bs @ remaining g = [1, 2, 3, 4, 5]" by simp
  with r show ?thesis by blast
qed

text \<open>A positioned read does not depend on what was read before: unless an error is recorded it returns
  the bytes of the file at that offset, cut only at the end of the file, and later reads go on there.\<close>

lemma positioned_read:
  assumes "read_chunk_at n p f = (bs, g)" and "reading f" and "p \<le> STREAMOFF_MAX" and "\<not> io_error g"
  shows "bs = take n (drop p (st_data (strm f))) \<and> remaining g = drop (p + n) (st_data (strm f))"
  using read_chunk_at_delivers [OF assms(1-3)] assms(4) by (auto simp: delivers_def)

end
