(* ===== verification/Delta_Codec.thy ===== *)
theory Delta_Codec
  imports Delta_Format File_IO
begin

text \<open>
  The wire format of the delta stream (\<^verbatim>\<open>src/src/DeltaCodec.hpp\<close>): integer primitives, the
  writer, and the reader.  The reader is written over a \<open>source\<close> (theory \<open>Byte_Source\<close>): on
  \<open>file_source\<close> it is the code's \<open>DeltaReader\<close>, on \<open>list_source\<close> it is a parser of byte lists
  that serves as its specification.  The \<open>std::to_string\<close> in a message is \<open>to_dec\<close>.
\<close>

section \<open>Integer primitives\<close>

definition push_u32_be :: "bytes \<Rightarrow> u32 \<Rightarrow> bytes" where
  "push_u32_be out value =
     out @ [ucast (drop_bit 24 value), ucast (drop_bit 16 value),
            ucast (drop_bit 8 value), ucast value]"

text \<open>The caller passes four bytes; a shorter read would be out of range in the code.\<close>

fun load_u32_be :: "bytes \<Rightarrow> u32" where
  "load_u32_be (a # b # c # d # _) =
     push_bit 24 (ucast a) OR push_bit 16 (ucast b) OR push_bit 8 (ucast c) OR ucast d"
| "load_u32_be _ = 0"

definition VARINT_MAX_BYTES :: nat where
  "VARINT_MAX_BYTES = 10"

function push_varint :: "bytes \<Rightarrow> u64 \<Rightarrow> bytes" where
  "push_varint out value =
     (if value \<ge> 0x80 then push_varint (out @ [ucast value OR 0x80]) (drop_bit 7 value)
      else out @ [ucast value])"
  by pat_completeness auto
termination
  by (relation "measure (\<lambda>(out, value). unat value)")
    (auto simp: unat_drop_bit_div word_le_nat_alt)

declare push_varint.simps [simp del]

function varint_size_loop :: "nat \<Rightarrow> u64 \<Rightarrow> nat" where
  "varint_size_loop n value =
     (if value \<ge> 0x80 then varint_size_loop (Suc n) (drop_bit 7 value) else n)"
  by pat_completeness auto
termination
  by (relation "measure (\<lambda>(n, value). unat value)")
    (auto simp: unat_drop_bit_div word_le_nat_alt)

declare varint_size_loop.simps [simp del]

definition varint_size :: "u64 \<Rightarrow> nat" where
  "varint_size value = varint_size_loop 1 value"

section \<open>Wire structures\<close>

record DeltaEntryHeader =
  type :: EntryType
  old_index :: u64
  out_size :: u64
  digest :: bytes

definition references_old :: "DeltaEntryHeader \<Rightarrow> bool" where
  "references_old h \<longleftrightarrow> type h = ORIGINAL_CHUNK \<or> type h = MODIFIED_CHUNK"

record DiffOpcode =
  op :: byte
  pos :: u32
  delete_length :: u32
  payload :: bytes

abbreviation op_D :: byte where "op_D \<equiv> 0x44"
abbreviation op_I :: byte where "op_I \<equiv> 0x49"
abbreviation op_X :: byte where "op_X \<equiv> 0x58"

definition is_diff_opcode :: "byte option \<Rightarrow> bool" where
  "is_diff_opcode b \<longleftrightarrow> b = Some op_D \<or> b = Some op_I \<or> b = Some op_X"

section \<open>Writer\<close>

record DeltaWriter =
  out :: fileio
  bytes_written :: nat
  werror :: string

definition new_writer :: "fileio \<Rightarrow> DeltaWriter" where
  "new_writer f = \<lparr>out = f, bytes_written = 0, werror = []\<rparr>"

definition added_size :: "nat \<Rightarrow> nat" where
  "added_size payload_size =
     1 + varint_size (of_nat payload_size) + DELTA_DIGEST_BYTES + payload_size"

definition modified_size :: "u64 \<Rightarrow> nat \<Rightarrow> nat \<Rightarrow> nat" where
  "modified_size old_idx out_sz diff_size =
     1 + varint_size old_idx + varint_size (of_nat out_sz) + DELTA_DIGEST_BYTES + diff_size"

definition emit :: "bytes \<Rightarrow> string \<Rightarrow> DeltaWriter \<Rightarrow> bool \<times> DeltaWriter" where
  "emit bs what w =
     (case write_chunk bs (out w) of
        (False, f) \<Rightarrow> (False, w\<lparr>out := f, werror := ''Failed to write '' @ what\<rparr>)
      | (True, f) \<Rightarrow> (True, w\<lparr>out := f, bytes_written := bytes_written w + length bs\<rparr>))"

text \<open>\<open>a && b\<close> over calls that change the writer.\<close>

definition and_then ::
  "(DeltaWriter \<Rightarrow> bool \<times> DeltaWriter) \<Rightarrow> (DeltaWriter \<Rightarrow> bool \<times> DeltaWriter) \<Rightarrow>
   DeltaWriter \<Rightarrow> bool \<times> DeltaWriter" where
  "and_then a b w = (case a w of (True, w1) \<Rightarrow> b w1 | (False, w1) \<Rightarrow> (False, w1))"

definition record_head :: "EntryType \<Rightarrow> u64 list \<Rightarrow> bytes \<Rightarrow> bytes" where
  "record_head ty vals dig =
     foldl push_varint [entry_tag ty] vals @ take DELTA_DIGEST_BYTES dig"

definition emitRecord ::
  "EntryType \<Rightarrow> u64 list \<Rightarrow> bytes \<Rightarrow> bytes \<Rightarrow> string \<Rightarrow> DeltaWriter \<Rightarrow> bool \<times> DeltaWriter" where
  "emitRecord ty vals dig body what w =
     (if length vals > 2 \<or> length dig \<noteq> DELTA_DIGEST_BYTES
      then (False, w\<lparr>werror := ''Invalid '' @ what\<rparr>)
      else and_then (emit (record_head ty vals dig) what)
             (\<lambda>w1. if body = [] then (True, w1) else emit body what w1) w)"

definition write_header :: "DeltaWriter \<Rightarrow> bool \<times> DeltaWriter" where
  "write_header w = emit (push_u32_be DELTA_MAGIC DELTA_FORMAT_VERSION) ''delta header'' w"

definition write_original :: "u64 \<Rightarrow> bytes \<Rightarrow> DeltaWriter \<Rightarrow> bool \<times> DeltaWriter" where
  "write_original old_idx dig w =
     emitRecord ORIGINAL_CHUNK [old_idx] dig [] ''ORIGINAL entry'' w"

definition write_added :: "bytes \<Rightarrow> bytes \<Rightarrow> DeltaWriter \<Rightarrow> bool \<times> DeltaWriter" where
  "write_added dig body w =
     emitRecord ADDED_CHUNK [of_nat (length body)] dig body ''ADDED entry'' w"

definition write_modified ::
  "u64 \<Rightarrow> u64 \<Rightarrow> bytes \<Rightarrow> bytes \<Rightarrow> DeltaWriter \<Rightarrow> bool \<times> DeltaWriter" where
  "write_modified old_idx out_sz dig opcodes w =
     emitRecord MODIFIED_CHUNK [old_idx, out_sz] dig opcodes ''MODIFIED entry'' w"

definition write_trailer :: "bytes \<Rightarrow> DeltaWriter \<Rightarrow> bool \<times> DeltaWriter" where
  "write_trailer dig w =
     and_then (emit [DELTA_TRAILER_TAG] ''delta trailer'') (emit dig ''delta trailer'') w"

section \<open>Reader\<close>

text \<open>What comes next in the stream.\<close>

datatype Item = Entry | Trailer | End

definition read_exact :: "'s source \<Rightarrow> nat \<Rightarrow> ('s, bytes option) state" where
  "read_exact src count = do {
     data \<leftarrow> src_chunk src count;
     State_Monad.return (if length data = count then Some data else None) }"

text \<open>Read exactly or fail with the caller's message.\<close>

definition read_or :: "'s source \<Rightarrow> nat \<Rightarrow> string \<Rightarrow> ('s, string + bytes) state" where
  "read_or src count msg = do {
     r \<leftarrow> read_exact src count;
     case r of None \<Rightarrow> throw msg | Some data \<Rightarrow> give data }"

definition read_header :: "'s source \<Rightarrow> ('s, string + unit) state" where
  "read_header src = do {
     buf \<leftarrow> src_chunk src DELTA_HEADER_SIZE;
     if length buf \<noteq> DELTA_HEADER_SIZE then throw ''Truncated delta: missing header''
     else if take (length DELTA_MAGIC) buf \<noteq> DELTA_MAGIC then throw ''Bad delta magic''
     else let version = load_u32_be (drop (length DELTA_MAGIC) buf) in
       if version \<noteq> DELTA_FORMAT_VERSION
       then throw (''Unsupported delta version: '' @ to_dec (unat version))
       else give () }"

definition next_item :: "'s source \<Rightarrow> ('s, Item) state" where
  "next_item src = do {
     peek \<leftarrow> src_peek src;
     State_Monad.return (case peek of None \<Rightarrow> End
       | Some b \<Rightarrow> if b = DELTA_TRAILER_TAG then Trailer else Entry) }"

text \<open>The loop of \<open>read_varint\<close> counts \<open>i\<close> up from 0; the recursion counts the passes left.\<close>

fun read_varint_loop :: "'s source \<Rightarrow> string \<Rightarrow> nat \<Rightarrow> u64 \<Rightarrow> ('s, string + u64) state" where
  "read_varint_loop src what 0 value = throw (''Malformed varint for '' @ what)"
| "read_varint_loop src what (Suc left) value = do {
     b \<leftarrow> src_byte src;
     case b of
       None \<Rightarrow> throw (''Truncated delta: missing '' @ what)
     | Some byte \<Rightarrow>
         let i = VARINT_MAX_BYTES - Suc left; bits = ucast byte AND 0x7F :: u64 in
         if i = VARINT_MAX_BYTES - 1 \<and> bits > 1 then throw (''Malformed varint for '' @ what)
         else let value' = value OR push_bit (7 * i) bits in
           if byte AND 0x80 = 0 then give value'
           else read_varint_loop src what left value' }"

definition read_varint :: "'s source \<Rightarrow> string \<Rightarrow> ('s, string + u64) state" where
  "read_varint src what = read_varint_loop src what VARINT_MAX_BYTES 0"

definition empty_header :: DeltaEntryHeader where
  "empty_header = \<lparr>type = ORIGINAL_CHUNK, old_index = 0, out_size = 0, digest = []\<rparr>"

definition read_entry_index :: "'s source \<Rightarrow> DeltaEntryHeader \<Rightarrow> ('s, string + DeltaEntryHeader) state" where
  "read_entry_index src h =
     (if references_old h
      then try_then (read_varint src ''old chunk index'') (\<lambda>i. give (h\<lparr>old_index := i\<rparr>))
      else give h)"

definition read_entry_size :: "'s source \<Rightarrow> DeltaEntryHeader \<Rightarrow> ('s, string + DeltaEntryHeader) state" where
  "read_entry_size src h =
     (if type h \<noteq> ORIGINAL_CHUNK
      then try_then (read_varint src ''chunk size'') (\<lambda>n.
             if unat n > DELTA_MAX_CHUNK_SIZE
             then throw (''Delta entry declares an out-of-range chunk size: '' @ to_dec (unat n))
             else give (h\<lparr>out_size := n\<rparr>))
      else give h)"

definition read_entry_header :: "'s source \<Rightarrow> ('s, string + DeltaEntryHeader) state" where
  "read_entry_header src = do {
     t \<leftarrow> src_byte src;
     case t of
       None \<Rightarrow> throw ''Truncated delta: missing entry type''
     | Some tag \<Rightarrow>
         if tag \<ge> DELTA_ENTRY_TYPE_LIMIT
         then throw (''Unknown entry type in delta: '' @ to_dec (unat tag))
         else try_then (read_entry_index src (empty_header\<lparr>type := entry_type_of tag\<rparr>)) (\<lambda>h1.
              try_then (read_entry_size src h1) (\<lambda>h2.
              try_then (read_or src DELTA_DIGEST_BYTES ''Truncated delta: missing entry digest'')
                (\<lambda>d. give (h2\<lparr>digest := d\<rparr>)))) }"

definition read_payload :: "'s source \<Rightarrow> nat \<Rightarrow> ('s, string + bytes) state" where
  "read_payload src count = read_or src count ''Truncated delta: short payload''"

definition at_diff_opcode :: "'s source \<Rightarrow> ('s, bool) state" where
  "at_diff_opcode src = do { b \<leftarrow> src_peek src; State_Monad.return (is_diff_opcode b) }"

definition read_opcode_body :: "'s source \<Rightarrow> byte \<Rightarrow> u32 \<Rightarrow> ('s, string + DiffOpcode) state" where
  "read_opcode_body src tag p =
     (if tag = op_X
      then try_then (read_or src 4 ''Truncated diff: missing X length'') (\<lambda>buf.
             give \<lparr>op = tag, pos = p, delete_length = load_u32_be buf, payload = []\<rparr>)
      else do {
        c \<leftarrow> src_byte src;
        case c of
          None \<Rightarrow> throw ''Truncated diff: missing count byte''
        | Some count \<Rightarrow>
            try_then (read_or src (unat count) ''Truncated diff: missing inline bytes'') (\<lambda>bs.
              give \<lparr>op = tag, pos = p, delete_length = 0, payload = bs\<rparr>) })"

definition read_diff_opcode :: "'s source \<Rightarrow> ('s, string + DiffOpcode) state" where
  "read_diff_opcode src = do {
     t \<leftarrow> src_byte src;
     case t of
       None \<Rightarrow> throw ''Truncated diff: missing opcode''
     | Some tag \<Rightarrow>
         if \<not> is_diff_opcode (Some tag) then throw ''Truncated diff: missing opcode''
         else try_then (read_or src 4 ''Truncated diff: missing pos'') (\<lambda>buf.
                read_opcode_body src tag (load_u32_be buf)) }"

definition fail_if_error :: "'s source \<Rightarrow> string \<Rightarrow> ('s, string + unit) state" where
  "fail_if_error src msg =
     State (\<lambda>s. (if src_error src s then Inl msg else Inr (), s))"

definition read_trailer :: "'s source \<Rightarrow> nat \<Rightarrow> ('s, string + bytes) state" where
  "read_trailer src trailer_digest_size = do {
     t \<leftarrow> src_byte src;
     if t \<noteq> Some DELTA_TRAILER_TAG then throw ''Truncated delta: missing trailer tag''
     else try_then (read_or src trailer_digest_size ''Truncated delta: short trailer'') (\<lambda>dig.
       do {
         p \<leftarrow> src_peek src;
         if p \<noteq> None then throw ''Unexpected bytes after delta trailer''
         else try_then (fail_if_error src ''Failed to read delta trailer'') (\<lambda>_. give dig) }) }"

definition finish :: "'s source \<Rightarrow> bool \<Rightarrow> ('s, string + unit) state" where
  "finish src saw_trailer =
     try_then (fail_if_error src ''Failed to read delta'') (\<lambda>_.
       if \<not> saw_trailer then throw ''Missing delta trailer'' else give ())"

definition finish_diff :: "nat \<Rightarrow> string + unit" where
  "finish_diff opcodes =
     (if opcodes \<noteq> 0 then Inr () else Inl ''MODIFIED entry has no diff opcodes'')"

section \<open>The reader on a file and the reader on a list\<close>

context byte_source
begin

lemmas source_sims = byte_sim peek_sim chunk_sim simulates_return simulates_throw simulates_give

lemma read_exact_sim: "simulates (src_error src) usable calm rest (read_exact src n) (read_exact list_source n)"
  unfolding read_exact_def by (intro simulates_bind source_sims)

lemma read_or_sim: "simulates (src_error src) usable calm rest (read_or src n m) (read_or list_source n m)"
  unfolding read_or_def by (intro simulates_bind simulates_case_option source_sims read_exact_sim)

lemma read_header_sim: "simulates (src_error src) usable calm rest (read_header src) (read_header list_source)"
  unfolding read_header_def Let_def by (intro simulates_bind simulates_if source_sims)

lemma next_item_sim: "simulates (src_error src) usable calm rest (next_item src) (next_item list_source)"
  unfolding next_item_def by (intro simulates_bind source_sims)

lemma read_varint_loop_sim:
  "simulates (src_error src) usable calm rest (read_varint_loop src w k v) (read_varint_loop list_source w k v)"
proof (induction k arbitrary: v)
  case 0
  show ?case unfolding read_varint_loop.simps by (rule source_sims)
next
  case (Suc k)
  show ?case unfolding read_varint_loop.simps Let_def
    by (intro simulates_bind simulates_case_option simulates_if source_sims Suc.IH)
qed

lemma read_varint_sim: "simulates (src_error src) usable calm rest (read_varint src w) (read_varint list_source w)"
  unfolding read_varint_def by (rule read_varint_loop_sim)

lemma read_entry_index_sim:
  "simulates (src_error src) usable calm rest (read_entry_index src h) (read_entry_index list_source h)"
  unfolding read_entry_index_def by (intro simulates_try_then simulates_if source_sims read_varint_sim)

lemma read_entry_size_sim:
  "simulates (src_error src) usable calm rest (read_entry_size src h) (read_entry_size list_source h)"
  unfolding read_entry_size_def by (intro simulates_try_then simulates_if source_sims read_varint_sim)

lemma read_entry_header_sim:
  "simulates (src_error src) usable calm rest (read_entry_header src) (read_entry_header list_source)"
  unfolding read_entry_header_def
  by (intro simulates_bind simulates_case_option simulates_if simulates_try_then source_sims
      read_or_sim read_entry_index_sim read_entry_size_sim)

lemma read_payload_sim:
  "simulates (src_error src) usable calm rest (read_payload src n) (read_payload list_source n)"
  unfolding read_payload_def by (rule read_or_sim)

lemma at_diff_opcode_sim:
  "simulates (src_error src) usable calm rest (at_diff_opcode src) (at_diff_opcode list_source)"
  unfolding at_diff_opcode_def by (intro simulates_bind source_sims)

lemma read_opcode_body_sim:
  "simulates (src_error src) usable calm rest (read_opcode_body src t p) (read_opcode_body list_source t p)"
  unfolding read_opcode_body_def
  by (intro simulates_bind simulates_case_option simulates_if simulates_try_then source_sims read_or_sim)

lemma read_diff_opcode_sim:
  "simulates (src_error src) usable calm rest (read_diff_opcode src) (read_diff_opcode list_source)"
  unfolding read_diff_opcode_def
  by (intro simulates_bind simulates_case_option simulates_if simulates_try_then source_sims
      read_or_sim read_opcode_body_sim)

lemma fail_if_error_sim:
  "simulates (src_error src) usable calm rest (fail_if_error src m) (fail_if_error list_source m)"
  by (rule simulatesI) (auto simp: fail_if_error_def)

lemma read_trailer_sim:
  "simulates (src_error src) usable calm rest (read_trailer src n) (read_trailer list_source n)"
  unfolding read_trailer_def
  by (intro simulates_bind simulates_if simulates_try_then source_sims read_or_sim fail_if_error_sim)

lemma finish_sim: "simulates (src_error src) usable calm rest (finish src b) (finish list_source b)"
  unfolding finish_def by (intro simulates_if simulates_try_then source_sims fail_if_error_sim)

text \<open>A trailer is accepted, and the stream finished, only if no error was recorded.\<close>

lemma read_trailer_clean:
  assumes "run_state (read_trailer src n) s = (Inr d, s')"
  shows "\<not> src_error src s'"
  using assms
  by (auto simp: read_trailer_def run_try_then fail_if_error_def split: prod.splits sum.splits if_splits)

lemma finish_clean:
  assumes "run_state (finish src b) s = (Inr u, s')"
  shows "\<not> src_error src s'" and "b" and "s' = s"
  using assms
  by (auto simp: finish_def run_try_then fail_if_error_def split: sum.splits if_splits)

end

section \<open>Integers on the wire\<close>

lemma push_u32_be_append: "push_u32_be xs v = xs @ push_u32_be [] v" by (simp add: push_u32_be_def)
lemma length_push_u32_be: "length (push_u32_be xs v) = length xs + 4" by (simp add: push_u32_be_def)
lemma load_push_u32_be: "load_u32_be (push_u32_be [] v @ r) = v"
proof (rule bit_eqI)
  fix n assume "possible_bit TYPE(32 word) n"
  then have n: "n < 32" by simp
  then consider "n < 8" | "8 \<le> n" "n < 16" | "16 \<le> n" "n < 24" | "24 \<le> n" "n < 32" by linarith
  then show "bit (load_u32_be (push_u32_be [] v @ r)) n \<longleftrightarrow> bit v n"
    by cases (use n in \<open>auto simp: push_u32_be_def bit_simps\<close>)
qed
lemma push_varint_append: "push_varint xs v = xs @ push_varint [] v"
proof (induction v arbitrary: xs rule: measure_induct_rule [where f = unat])
  case (less v)
  show ?case
  proof (cases "v \<ge> 0x80")
    case True
    then have "unat (drop_bit 7 v) < unat v" by (simp add: unat_drop_bit_div word_le_nat_alt)
    note IH = less [OF this]
    have "push_varint xs v = push_varint (xs @ [ucast v OR 0x80]) (drop_bit 7 v)"
      using True by (subst push_varint.simps) simp
    moreover have "push_varint [] v = push_varint [ucast v OR 0x80] (drop_bit 7 v)"
      using True by (subst push_varint.simps) simp
    ultimately show ?thesis
      by (simp only: IH [of "xs @ [ucast v OR 0x80]"] IH [of "[ucast v OR 0x80]"] append.assoc)
  qed (simp add: push_varint.simps [of xs v] push_varint.simps [of "[]" v])
qed
lemma push_varint_unfold: "push_varint [] v =
  (if v \<ge> 0x80 then (ucast v OR 0x80) # push_varint [] (drop_bit 7 v) else [ucast v])"
  using push_varint_append [of "[ucast v OR 0x80]" "drop_bit 7 v"] by (subst push_varint.simps) simp
lemma word_127_mask: "(0x7F :: 'a::len word) = mask 7" by (simp add: mask_eq_exp_minus_1)
lemma bit_int_128: "bit (0x80 :: int) n \<longleftrightarrow> n = 7"
proof -
  have "bit (0x80 :: int) n = bit (2 ^ 7 :: int) n" by simp
  then show ?thesis unfolding bit_exp_iff by auto
qed
lemma varint_byte_high: "((ucast (v::u64) OR 0x80) :: byte) AND 0x80 \<noteq> 0"
proof
  assume "((ucast v OR 0x80) :: byte) AND 0x80 = 0"
  then have "bit (((ucast v OR 0x80) :: byte) AND 0x80) 7 = bit (0::byte) 7" by simp
  then show False by (simp add: bit_int_128 bit_and_iff bit_or_iff)
qed
lemma byte_low_and_128: "unat (b :: byte) < 128 \<Longrightarrow> b AND 0x80 = 0"
  by (rule bit_eqI) (auto simp: bit_and_iff bit_int_128 dest: bit_below [where n = 7, simplified])
lemma varint_bits_high: "ucast ((ucast (v::u64) OR 0x80) :: byte) AND (0x7F :: u64) = v AND 0x7F"
  unfolding word_127_mask by (rule bit_eqI) (auto simp: bit_simps bit_int_128)
lemma unat_ucast_u64_byte: "unat (ucast (v :: u64) :: byte) = unat v mod 256"
  by (simp add: unsigned_ucast_eq take_bit_eq_mod)
lemma varint_bits_low: "unat (v :: u64) < 128 \<Longrightarrow> ucast (ucast v :: byte) AND (0x7F :: u64) = v"
  unfolding word_127_mask word_unat_eq_iff unat_mask_and by (simp add: unat_ucast_u64_byte)
lemma unat_and_127: "unat ((v :: u64) AND 0x7F) = unat v mod 128"
  unfolding word_127_mask by (simp add: unat_mask_and)

lemma varint_pass:
  assumes "run_state (read_varint_loop list_source w (Suc k) acc) (b # bs) = res"
    and "i = VARINT_MAX_BYTES - Suc k" and "bits = ucast b AND (0x7F :: u64)"
  shows "res = (if i = VARINT_MAX_BYTES - 1 \<and> bits > 1 then (Inl (''Malformed varint for '' @ w), bs)
     else if b AND 0x80 = 0 then (Inr (acc OR push_bit (7 * i) bits), bs)
     else run_state (read_varint_loop list_source w k (acc OR push_bit (7 * i) bits)) bs)"
  unfolding assms(1) [symmetric] assms(2,3) by (simp add: Let_def del: push_bit_and)

text \<open>Arithmetic of seven-bit groups: the group at position \<open>i\<close> and what is above it.\<close>

lemma group_shift: "(2::nat) ^ (7 * Suc i) = 128 * 2 ^ (7 * i)"
  by (simp add: power_add)

lemma group_bound: "a < 2 ^ (7 * i) \<Longrightarrow> x < 128 \<Longrightarrow> a + x * 2 ^ (7 * i) < (2::nat) ^ (7 * Suc i)"
proof -
  assume "a < 2 ^ (7 * i)" and "x < 128"
  moreover from this(2) have "x * 2 ^ (7 * i) \<le> 127 * (2::nat) ^ (7 * i)" by (intro mult_le_mono1) simp
  ultimately show ?thesis unfolding group_shift by linarith
qed

lemma group_total: "v mod 128 * 2 ^ (7 * i) + v div 128 * 2 ^ (7 * Suc i) = v * (2::nat) ^ (7 * i)"
proof -
  have "v * 2 ^ (7 * i) = (v div 128 * 128 + v mod 128) * (2::nat) ^ (7 * i)" by simp
  then show ?thesis unfolding group_shift by (simp only: add_mult_distrib mult.assoc add.commute)
qed

lemma group_position:
  assumes "128 \<le> v" and "v * (2::nat) ^ (7 * i) < 2 ^ 64"
  shows "i \<le> 8"
proof -
  have "128 * 2 ^ (7 * i) \<le> v * (2::nat) ^ (7 * i)" using assms(1) by (intro mult_le_mono1)
  with assms(2) have "(2::nat) ^ (7 * Suc i) < 2 ^ 64" unfolding group_shift by linarith
  then have "7 * Suc i < 64" by (rule power_less_imp_less_exp [rotated]) simp
  then show ?thesis by simp
qed

lemma push_varint_last: "\<not> v \<ge> 0x80 \<Longrightarrow> push_varint [] v = [ucast v]"
  by (subst push_varint_unfold) simp

lemma push_varint_more: "v \<ge> 0x80 \<Longrightarrow> push_varint [] v = (ucast v OR 0x80) # push_varint [] (drop_bit 7 v)"
  by (subst push_varint_unfold) simp

lemma read_varint_loop_push:
  assumes "0 < k" and "k \<le> VARINT_MAX_BYTES" and "unat acc < 2 ^ (7 * (VARINT_MAX_BYTES - k))"
    and "unat v * 2 ^ (7 * (VARINT_MAX_BYTES - k)) < 2 ^ 64"
  shows "run_state (read_varint_loop list_source w k acc) (push_varint [] v @ r) =
           (Inr (of_nat (unat acc + unat v * 2 ^ (7 * (VARINT_MAX_BYTES - k)))), r)"
  using assms
proof (induction k arbitrary: v acc)
  case 0
  then show ?case by simp
next
  case (Suc k)
  define i where "i = VARINT_MAX_BYTES - Suc k"
  have acc: "unat acc < 2 ^ (7 * i)" and v: "unat v * 2 ^ (7 * i) < 2 ^ LENGTH(64)"
    and Suci: "VARINT_MAX_BYTES - k = Suc i" and i9: "i \<le> 9"
    using Suc.prems by (auto simp: i_def VARINT_MAX_BYTES_def)
  show ?case
  proof (cases "v \<ge> 0x80")
    case False
    then have small: "unat v < 128" by (simp add: word_le_nat_alt)
    have one: "\<not> (i = VARINT_MAX_BYTES - 1 \<and> v > 1)"
      using v by (auto simp: VARINT_MAX_BYTES_def word_less_nat_alt)
    have "acc OR push_bit (7 * i) v = of_nat (unat acc + unat v * 2 ^ (7 * i))"
      by (simp add: unat_or_push_bit [OF acc v, symmetric])
    then show ?thesis
      using one small byte_low_and_128 [of "ucast v"] push_varint_last [OF False]
      by (simp add: Let_def varint_bits_low unat_ucast_u64_byte i_def del: push_bit_and)
  next
    case True
    then have big: "128 \<le> unat v" by (simp add: word_le_nat_alt)
    have i8: "i \<le> 8" using group_position [OF big] v by simp
    define u where "u = acc OR push_bit (7 * i) (v AND 0x7F)"
    have "unat (v AND 0x7F) * 2 ^ (7 * i) < 2 ^ LENGTH(64)" using group_total [of "unat v" i] v unat_and_127 [of v] by simp
    from unat_or_push_bit [OF acc this] have u: "unat u = unat acc + unat v mod 128 * 2 ^ (7 * i)"
      by (simp add: u_def unat_and_127)
    have tot: "unat u + unat (drop_bit 7 v) * 2 ^ (7 * Suc i) = unat acc + unat v * 2 ^ (7 * i)"
      using u group_total [of "unat v" i] by (simp only: unat_drop_bit_div) simp
    have ub: "unat u < 2 ^ (7 * Suc i)" unfolding u by (rule group_bound [OF acc]) simp
    have vb: "unat (drop_bit 7 v) * 2 ^ (7 * Suc i) < 2 ^ 64"
      using group_total [of "unat v" i] v by (simp add: unat_drop_bit_div)
    have "run_state (read_varint_loop list_source w k u) (push_varint [] (drop_bit 7 v) @ r) =
        (Inr (of_nat (unat u + unat (drop_bit 7 v) * 2 ^ (7 * Suc i))), r)"
      using Suc.IH [of u "drop_bit 7 v"] ub vb i8 Suc.prems(2) unfolding Suci
      by (simp add: i_def VARINT_MAX_BYTES_def)
    then have rec: "run_state (read_varint_loop list_source w k u) (push_varint [] (drop_bit 7 v) @ r) =
        (Inr (of_nat (unat acc + unat v * 2 ^ (7 * i))), r)"
      by (simp only: tot)
    have "i \<noteq> VARINT_MAX_BYTES - 1" using i8 by (simp add: VARINT_MAX_BYTES_def)
    then show ?thesis
      using varint_byte_high [of v] rec push_varint_more [OF True]
      by (simp add: Let_def varint_bits_high u_def [symmetric] i_def [symmetric]
          del: push_bit_and of_nat_add of_nat_mult)
  qed
qed

lemma read_varint_push [codec_simps]:
  "run_state (read_varint list_source w) (push_varint [] v @ r) = (Inr v, r)"
  using read_varint_loop_push [of VARINT_MAX_BYTES 0 v w r] unat_lt_pow [of v]
  by (simp add: read_varint_def VARINT_MAX_BYTES_def)

text \<open>The number a group of seven-bit digits denotes, least significant first.\<close>

fun leb_value :: "bytes \<Rightarrow> nat" where
  "leb_value [] = 0"
| "leb_value (b # bs) = unat b mod 128 + 128 * leb_value bs"

lemma unat_ucast_and_127: "unat (ucast (b :: byte) AND 0x7F :: u64) = unat b mod 128"
  unfolding word_127_mask unat_mask_and by simp

lemma group_fits:
  assumes "\<not> (i = VARINT_MAX_BYTES - 1 \<and> bits > 1)" and "unat (bits :: u64) < 128" and "i \<le> 9"
  shows "unat bits * 2 ^ (7 * i) < 2 ^ 64"
proof (cases "i = 9")
  case True
  with assms(1) have "unat bits \<le> 1"
    by (simp add: VARINT_MAX_BYTES_def word_less_nat_alt not_less)
  then have "unat bits * 2 ^ (7 * i) \<le> 1 * 2 ^ (7 * i)" by (intro mult_le_mono1)
  with True show ?thesis by simp
next
  case False
  have "0 + unat bits * 2 ^ (7 * i) < 2 ^ (7 * Suc i)" by (rule group_bound) (simp_all add: assms(2))
  also have "\<dots> \<le> (2::nat) ^ 63" using False assms(3) by (intro power_increasing) auto
  finally show ?thesis by simp
qed

lemma read_varint_loop_value:
  assumes "run_state (read_varint_loop list_source w k acc) bs = (Inr v, r)"
    and "k \<le> VARINT_MAX_BYTES" and "unat acc < 2 ^ (7 * (VARINT_MAX_BYTES - k))"
  shows "\<exists>ds. bs = ds @ r \<and> 0 < length ds \<and> length ds \<le> k \<and>
           unat v = unat acc + 2 ^ (7 * (VARINT_MAX_BYTES - k)) * leb_value ds"
  using assms
proof (induction k arbitrary: acc bs)
  case 0
  then show ?case by simp
next
  case (Suc k)
  define i where "i = VARINT_MAX_BYTES - Suc k"
  obtain b cs where bs: "bs = b # cs" using Suc.prems(1) by (cases bs) auto
  define bits where "bits = (ucast b AND 0x7F :: u64)"
  have ub: "unat bits = unat b mod 128" by (simp add: bits_def unat_ucast_and_127)
  have i9: "i \<le> 9" and acc: "unat acc < 2 ^ (7 * i)" and Suci: "VARINT_MAX_BYTES - k = Suc i"
    using Suc.prems(2,3) by (auto simp: i_def VARINT_MAX_BYTES_def)
  have pass: "\<not> (i = VARINT_MAX_BYTES - 1 \<and> bits > 1)"
    and res: "(Inr v, r) = (if b AND 0x80 = 0 then (Inr (acc OR push_bit (7 * i) bits), cs)
        else run_state (read_varint_loop list_source w k (acc OR push_bit (7 * i) bits)) cs)"
    using varint_pass [OF Suc.prems(1) [unfolded bs] i_def bits_def] by (auto split: if_splits)
  have "unat bits * 2 ^ (7 * i) < 2 ^ LENGTH(64)" using group_fits [OF pass _ i9] ub by simp
  note val = unat_or_push_bit [OF acc this]
  show ?case
  proof (cases "b AND 0x80 = 0")
    case True
    then have "v = acc OR push_bit (7 * i) bits" "r = cs" using res by simp_all
    then have "bs = [b] @ r \<and> unat v = unat acc + 2 ^ (7 * i) * leb_value [b]"
      using val ub bs by (simp add: mult.commute)
    then show ?thesis unfolding i_def [symmetric] by (intro exI [of _ "[b]"]) simp
  next
    case False
    define u where "u = acc OR push_bit (7 * i) bits"
    have rec: "run_state (read_varint_loop list_source w k u) cs = (Inr v, r)"
      using res False by (simp add: u_def)
    have "unat u < 2 ^ (7 * Suc i)" unfolding u_def val by (rule group_bound [OF acc]) (simp add: ub)
    then obtain ds where ds: "cs = ds @ r" "length ds \<le> k"
        "unat v = unat u + 2 ^ (7 * Suc i) * leb_value ds"
      using Suc.IH [OF rec] Suc.prems(2) unfolding Suci by auto
    have "unat v = unat acc + 2 ^ (7 * i) * leb_value (b # ds)"
      using ds(3) val ub by (simp add: u_def power_add algebra_simps)
    then show ?thesis unfolding i_def [symmetric] using ds bs by (intro exI [of _ "b # ds"]) simp
  qed
qed

lemma varint_size_loop_eq: "varint_size_loop n v = n - 1 + length (push_varint [] v)" if "0 < n"
  using that
proof (induction n v rule: varint_size_loop.induct)
  case (1 n v)
  show ?case
    using 1 by (subst varint_size_loop.simps, subst push_varint_unfold) simp
qed

lemma varint_size_eq: "varint_size v = length (push_varint [] v)"
  by (simp add: varint_size_def varint_size_loop_eq)

lemma length_push_varint_le: "unat v < 2 ^ (7 * k) \<Longrightarrow> 0 < k \<Longrightarrow> length (push_varint [] v) \<le> k"
proof (induction k arbitrary: v)
  case (Suc k)
  show ?case
  proof (cases "v \<ge> 0x80")
    case True
    then have big: "128 \<le> unat v" by (simp add: word_le_nat_alt)
    have "unat v div 128 < 2 ^ (7 * k)"
      using Suc.prems(1) by (simp add: power_add less_mult_imp_div_less mult.commute)
    moreover have "0 < k" using big Suc.prems(1) by (cases k) auto
    ultimately have "length (push_varint [] (drop_bit 7 v)) \<le> k"
      by (intro Suc.IH) (simp_all add: unat_drop_bit_div)
    then show ?thesis by (subst push_varint_unfold) simp
  qed (subst push_varint_unfold, simp)
qed simp

lemma length_push_varint_max: "length (push_varint [] v) \<le> VARINT_MAX_BYTES"
proof -
  have "unat v < 2 ^ 64" using unat_lt_pow [of v] by simp
  then have "unat v < 2 ^ (7 * 10)" by (rule less_le_trans) simp
  then show ?thesis unfolding VARINT_MAX_BYTES_def by (rule length_push_varint_le) simp
qed

section \<open>Records on the wire\<close>

text \<open>The abstract contents of a delta, and the bytes the format assigns to them.\<close>

datatype delta_entry =
    OriginalE u64 bytes
  | AddedE bytes bytes
  | ModifiedE u64 u64 bytes bytes

fun encode_entry :: "delta_entry \<Rightarrow> bytes" where
  "encode_entry (OriginalE i d) = record_head ORIGINAL_CHUNK [i] d"
| "encode_entry (AddedE d p) = record_head ADDED_CHUNK [of_nat (length p)] d @ p"
| "encode_entry (ModifiedE i n d ops) = record_head MODIFIED_CHUNK [i, n] d @ ops"

fun entry_digest :: "delta_entry \<Rightarrow> bytes" where
  "entry_digest (OriginalE i d) = d"
| "entry_digest (AddedE d p) = d"
| "entry_digest (ModifiedE i n d ops) = d"

fun write_entry :: "delta_entry \<Rightarrow> DeltaWriter \<Rightarrow> bool \<times> DeltaWriter" where
  "write_entry (OriginalE i d) = write_original i d"
| "write_entry (AddedE d p) = write_added d p"
| "write_entry (ModifiedE i n d ops) = write_modified i n d ops"

definition header_bytes :: bytes where
  "header_bytes = push_u32_be DELTA_MAGIC DELTA_FORMAT_VERSION"

definition encode_delta :: "delta_entry list \<Rightarrow> bytes \<Rightarrow> bytes" where
  "encode_delta es trailer =
     header_bytes @ concat (map encode_entry es) @ DELTA_TRAILER_TAG # trailer"

definition encode_opcode :: "DiffOpcode \<Rightarrow> bytes" where
  "encode_opcode c =
     [op c] @ push_u32_be [] (pos c) @
     (if op c = op_X then push_u32_be [] (delete_length c)
      else of_nat (length (payload c)) # payload c)"

definition valid_opcode :: "DiffOpcode \<Rightarrow> bool" where
  "valid_opcode c \<longleftrightarrow> is_diff_opcode (Some (op c)) \<and>
     (if op c = op_X then payload c = [] else delete_length c = 0 \<and> length (payload c) \<le> 255)"

lemma record_head_eq:
  "record_head ty vals d = entry_tag ty # concat (map (push_varint []) vals) @ take DELTA_DIGEST_BYTES d"
proof -
  have "foldl push_varint xs vals = xs @ concat (map (push_varint []) vals)" for xs
    by (induction vals arbitrary: xs) (simp, simp, metis append.assoc push_varint_append)
  then show ?thesis by (simp add: record_head_def)
qed

subsection \<open>Reading records\<close>

lemma read_or_list [codec_simps]:
  "run_state (read_or list_source n m) bs =
     (if n \<le> length bs then (Inr (take n bs), drop n bs) else (Inl m, []))"
  by (auto simp: read_or_def read_exact_def)

lemma read_payload_list [codec_simps]:
  "run_state (read_payload list_source n) bs =
     (if n \<le> length bs then (Inr (take n bs), drop n bs)
      else (Inl ''Truncated delta: short payload'', []))"
  by (simp add: read_payload_def read_or_list)

lemma read_header_bytes [codec_simps]:
  "run_state (read_header list_source) (header_bytes @ r) = (Inr (), r)"
proof -
  have "length header_bytes = 8" by (simp add: header_bytes_def push_u32_be_def)
  moreover have "take 4 header_bytes = DELTA_MAGIC"
    by (simp add: header_bytes_def push_u32_be_def DELTA_MAGIC_def)
  moreover have "load_u32_be (drop 4 header_bytes) = DELTA_FORMAT_VERSION"
    using load_push_u32_be [of DELTA_FORMAT_VERSION "[]"]
    by (simp add: header_bytes_def push_u32_be_append [of DELTA_MAGIC])
  ultimately show ?thesis by (simp add: read_header_def DELTA_HEADER_SIZE_def)
qed

lemma entry_type_of_tags [simp]:
  "entry_type_of 0 = ORIGINAL_CHUNK" "entry_type_of 1 = ADDED_CHUNK" "entry_type_of 2 = MODIFIED_CHUNK"
  by (simp_all add: entry_type_of_def)

lemma not_tag_limit: "\<not> DELTA_ENTRY_TYPE_LIMIT \<le> entry_tag ty"
  by (simp add: not_le)

lemma read_entry_header_list:
  "run_state (read_entry_header list_source) (entry_tag ty # bs) =
     run_state (try_then (read_entry_index list_source (empty_header\<lparr>type := ty\<rparr>)) (\<lambda>h1.
              try_then (read_entry_size list_source h1) (\<lambda>h2.
              try_then (read_or list_source DELTA_DIGEST_BYTES ''Truncated delta: missing entry digest'')
                (\<lambda>d. give (h2\<lparr>digest := d\<rparr>))))) bs"
  by (simp add: read_entry_header_def not_tag_limit)

lemma read_original_head [codec_simps]:
  assumes "length d = DELTA_DIGEST_BYTES"
  shows "run_state (read_entry_header list_source) (record_head ORIGINAL_CHUNK [i] d @ r) =
    (Inr \<lparr>type = ORIGINAL_CHUNK, old_index = i, out_size = 0, digest = d\<rparr>, r)"
  using assms
  by (simp add: record_head_eq read_entry_header_list run_try_then read_entry_index_def
      read_entry_size_def references_old_def empty_header_def read_varint_push read_or_list
      del: entry_tag.simps)

lemma read_added_head [codec_simps]:
  assumes "length d = DELTA_DIGEST_BYTES" and "unat n \<le> DELTA_MAX_CHUNK_SIZE"
  shows "run_state (read_entry_header list_source) (record_head ADDED_CHUNK [n] d @ r) =
    (Inr \<lparr>type = ADDED_CHUNK, old_index = 0, out_size = n, digest = d\<rparr>, r)"
  using assms
  by (simp add: record_head_eq read_entry_header_list run_try_then read_entry_index_def
      read_entry_size_def references_old_def empty_header_def read_varint_push read_or_list
      del: entry_tag.simps)

lemma read_modified_head [codec_simps]:
  assumes "length d = DELTA_DIGEST_BYTES" and "unat n \<le> DELTA_MAX_CHUNK_SIZE"
  shows "run_state (read_entry_header list_source) (record_head MODIFIED_CHUNK [i, n] d @ r) =
    (Inr \<lparr>type = MODIFIED_CHUNK, old_index = i, out_size = n, digest = d\<rparr>, r)"
  using assms
  by (simp add: record_head_eq read_entry_header_list run_try_then read_entry_index_def
      read_entry_size_def references_old_def empty_header_def read_varint_push read_or_list
      del: entry_tag.simps)

lemma next_item_list [codec_simps]:
  "run_state (next_item list_source) [] = (End, [])"
  "run_state (next_item list_source) (record_head ty vals d @ r) = (Entry, record_head ty vals d @ r)"
  "run_state (next_item list_source) (DELTA_TRAILER_TAG # r) = (Trailer, DELTA_TRAILER_TAG # r)"
  by (simp_all add: next_item_def record_head_eq)

lemma read_trailer_list [codec_simps]:
  "run_state (read_trailer list_source n) (DELTA_TRAILER_TAG # bs) =
     (if n \<le> length bs
      then (if drop n bs = [] then Inr bs else Inl ''Unexpected bytes after delta trailer'', drop n bs)
      else (Inl ''Truncated delta: short trailer'', []))"
  by (cases "drop n bs") (auto simp: read_trailer_def run_try_then read_or_list fail_if_error_def)

subsection \<open>Reading opcodes\<close>

lemma read_diff_opcode_encode [codec_simps]:
  assumes "valid_opcode c"
  shows "run_state (read_diff_opcode list_source) (encode_opcode c @ r) = (Inr c, r)"
proof (cases "op c = op_X")
  case True
  with assms show ?thesis
    by (simp add: encode_opcode_def valid_opcode_def read_diff_opcode_def read_opcode_body_def
        run_try_then read_or_list length_push_u32_be load_push_u32_be [where r = "[]", simplified])
next
  case False
  with assms show ?thesis
    by (simp add: encode_opcode_def valid_opcode_def read_diff_opcode_def read_opcode_body_def
        run_try_then read_or_list length_push_u32_be load_push_u32_be [where r = "[]", simplified]
        unat_byte_of_nat)
qed

lemma push_load_u32_be:
  assumes "length bs = 4"
  shows "push_u32_be [] (load_u32_be bs) = bs"
proof -
  obtain a b c d where bs: "bs = [a, b, c, d]"
    using assms by (auto simp: numeral_eq_Suc length_Suc_conv)
  have "ucast (drop_bit 24 (load_u32_be bs)) = a" "ucast (drop_bit 16 (load_u32_be bs)) = b"
    "ucast (drop_bit 8 (load_u32_be bs)) = c" "ucast (load_u32_be bs) = d"
    by (rule bit_eqI; auto simp: bs bit_simps dest: bit_imp_le_length)+
  then show ?thesis by (simp add: push_u32_be_def bs)
qed

lemma read_diff_opcode_decode:
  assumes "run_state (read_diff_opcode list_source) bs = (Inr c, r)"
  shows "bs = encode_opcode c @ r" and "valid_opcode c"
proof -
  obtain t cs where bs: "bs = t # cs" and t: "is_diff_opcode (Some t)" and len: "4 \<le> length cs"
    and body: "run_state (read_opcode_body list_source t (load_u32_be (take 4 cs))) (drop 4 cs) = (Inr c, r)"
    using assms
    by (cases bs) (auto simp: read_diff_opcode_def run_try_then read_or_list split: if_splits)
  have pos: "push_u32_be [] (load_u32_be (take 4 cs)) = take 4 cs"
    using len by (intro push_load_u32_be) simp
  have "bs = encode_opcode c @ r \<and> valid_opcode c"
  proof (cases "t = op_X")
    case True
    with body have c: "c = \<lparr>op = t, pos = load_u32_be (take 4 cs),
        delete_length = load_u32_be (take 4 (drop 4 cs)), payload = []\<rparr>"
      and r: "r = drop 4 (drop 4 cs)" and len2: "4 \<le> length (drop 4 cs)"
      by (auto simp: read_opcode_body_def run_try_then read_or_list split: if_splits)
    have "push_u32_be [] (load_u32_be (take 4 (drop 4 cs))) = take 4 (drop 4 cs)"
      using len2 by (intro push_load_u32_be) simp
    moreover have "cs = take 4 cs @ take 4 (drop 4 cs) @ drop 4 (drop 4 cs)"
      by (simp only: append_take_drop_id)
    ultimately show ?thesis using t True pos
      by (auto simp: c r bs encode_opcode_def valid_opcode_def simp del: drop_drop)
  next
    case False
    then obtain n ds where ds: "drop 4 cs = n # ds" and nl: "unat n \<le> length ds"
      and c: "c = \<lparr>op = t, pos = load_u32_be (take 4 cs), delete_length = 0, payload = take (unat n) ds\<rparr>"
      and r: "r = drop (unat n) ds"
      using body by (cases "drop 4 cs") (auto simp: read_opcode_body_def run_try_then read_or_list
          split: if_splits)
    have "(of_nat (unat n) :: byte) = n" by simp
    moreover have "cs = take 4 cs @ n # take (unat n) ds @ drop (unat n) ds"
      using ds by (metis append_take_drop_id)
    ultimately show ?thesis using t False pos nl
      by (auto simp: c r bs encode_opcode_def valid_opcode_def min_def)
  qed
  then show "bs = encode_opcode c @ r" and "valid_opcode c" by simp_all
qed

subsection \<open>Truncation\<close>

text \<open>A reader that has not seen the whole record reports a failure, whatever the cut.\<close>

lemma read_varint_loop_open:
  assumes "\<And>b. b \<in> set xs \<Longrightarrow> b AND 0x80 \<noteq> 0" and "length xs < k" and "k \<le> VARINT_MAX_BYTES"
  shows "run_state (read_varint_loop list_source w k acc) xs =
           (Inl (''Truncated delta: missing '' @ w), [])"
  using assms
proof (induction k arbitrary: xs acc)
  case (Suc k)
  show ?case
  proof (cases xs)
    case (Cons b ys)
    have "VARINT_MAX_BYTES - Suc k \<noteq> VARINT_MAX_BYTES - 1"
      using Suc.prems(2,3) Cons by auto
    then show ?thesis
      using Suc.IH [of ys] Suc.prems Cons by (simp add: Let_def del: push_bit_and)
  qed simp
qed simp

lemma push_varint_open: "b \<in> set (butlast (push_varint [] v)) \<Longrightarrow> b AND 0x80 \<noteq> 0"
proof (induction v rule: measure_induct_rule [where f = unat])
  case (less v)
  show ?case
  proof (cases "v \<ge> 0x80")
    case True
    then have "unat (drop_bit 7 v) < unat v" by (simp add: unat_drop_bit_div word_le_nat_alt)
    with less True varint_byte_high [of v] show ?thesis
      by (subst (asm) (2) push_varint_unfold) (auto split: if_splits)
  next
    case False
    with less.prems show ?thesis by (subst (asm) push_varint_unfold) simp
  qed
qed

lemma read_varint_truncated:
  assumes "n < length (push_varint [] v)"
  shows "run_state (read_varint list_source w) (take n (push_varint [] v)) =
           (Inl (''Truncated delta: missing '' @ w), [])"
proof -
  have "set (take n (push_varint [] v)) \<subseteq> set (butlast (push_varint [] v))"
    using assms by (metis butlast_conv_take less_Suc_eq_le Suc_pred' length_greater_0_conv
        list.size(3) not_less0 set_take_subset_set_take)
  then show ?thesis
    unfolding read_varint_def
    using push_varint_open length_push_varint_max [of v] assms
    by (intro read_varint_loop_open) auto
qed

lemma try_then_assoc: "try_then (try_then m f) g = try_then m (\<lambda>x. try_then (f x) g)"
  by (rule state_ext) (auto simp: run_try_then split: prod.splits sum.splits)

lemma try_then_give: "try_then (give x) f = f x"
  by (rule state_ext) (simp add: run_try_then)

lemma try_then_throw: "try_then (throw m) f = throw m"
  by (rule state_ext) (simp add: run_try_then)

lemmas try_then_norm = try_then_assoc try_then_give try_then_throw

lemma varint_then_truncated:
  "run_state (try_then (read_varint list_source w) f) (take n (push_varint [] v @ r)) =
     (if n < length (push_varint [] v) then (Inl (''Truncated delta: missing '' @ w), [])
      else run_state (f v) (take (n - length (push_varint [] v)) r))"
  by (auto simp: run_try_then read_varint_truncated read_varint_push)

lemma read_entry_header_truncated:
  assumes "n < length (record_head ty vals d)" and "length d = DELTA_DIGEST_BYTES"
    and "(ty, vals) \<in> {(ORIGINAL_CHUNK, [i]), (ADDED_CHUNK, [m]), (MODIFIED_CHUNK, [i, m])}"
    and "unat m \<le> DELTA_MAX_CHUNK_SIZE"
  shows "\<exists>msg. run_state (read_entry_header list_source) (take n (record_head ty vals d)) = (Inl msg, [])"
proof (cases n)
  case 0
  then show ?thesis by (simp add: read_entry_header_def)
next
  case (Suc k)
  have short: "\<exists>msg. run_state (try_then (read_or list_source DELTA_DIGEST_BYTES e) f) (take j d) = (Inl msg, [])"
    if "j < DELTA_DIGEST_BYTES" for e f j
    using that assms(2) by (simp add: run_try_then read_or_list)
  have d: "take DELTA_DIGEST_BYTES d = d" using assms(2) by simp
  show ?thesis
    using assms Suc
    by (auto simp: record_head_eq read_entry_header_list read_entry_index_def read_entry_size_def
        references_old_def empty_header_def try_then_norm varint_then_truncated d
        simp del: entry_tag.simps take_append intro!: short)
qed

subsection \<open>What a reader can have accepted\<close>

lemma read_or_length: "run_state (read_or src n m) s = (Inr d, s') \<Longrightarrow> length d = n"
  by (auto simp: read_or_def read_exact_def split: prod.splits if_splits)

lemma read_entry_header_bounds:
  assumes "run_state (read_entry_header src) s = (Inr h, s')"
  shows "unat (out_size h) \<le> DELTA_MAX_CHUNK_SIZE" and "length (digest h) = DELTA_DIGEST_BYTES"
    and "type h = ORIGINAL_CHUNK \<longrightarrow> out_size h = 0" and "type h = ADDED_CHUNK \<longrightarrow> old_index h = 0"
  using assms
  by (auto simp: read_entry_header_def run_try_then read_entry_index_def read_entry_size_def
      empty_header_def references_old_def dest: read_or_length
      split: prod.splits sum.splits option.splits if_splits)

section \<open>What the writer appends\<close>

lemma emit_appends:
  assumes "emit bs what w = (ok, w')" and "writing (out w)"
  shows "writing (out w')"
    and "ok \<Longrightarrow> written (out w') = written (out w) @ bs \<and> bytes_written w' = bytes_written w + length bs"
    and "ok \<longleftrightarrow> \<not> io_error (out w')" and "io_error (out w) \<Longrightarrow> \<not> ok"
    and "healthy_out (out w) \<Longrightarrow> length bs \<le> STREAMOFF_MAX \<Longrightarrow> ok \<and> healthy_out (out w')"
proof -
  obtain b f where wc: "write_chunk bs (out w) = (b, f)" by fastforce
  note wa = write_chunk_appends [OF wc assms(2)]
  have "ok = b" "out w' = f" and "b \<Longrightarrow> bytes_written w' = bytes_written w + length bs"
    using assms(1) wc by (auto simp: emit_def split: bool.splits)
  then show "writing (out w')"
    and "ok \<Longrightarrow> written (out w') = written (out w) @ bs \<and> bytes_written w' = bytes_written w + length bs"
    and "ok \<longleftrightarrow> \<not> io_error (out w')" and "io_error (out w) \<Longrightarrow> \<not> ok"
    and "healthy_out (out w) \<Longrightarrow> length bs \<le> STREAMOFF_MAX \<Longrightarrow> ok \<and> healthy_out (out w')"
    using wa by auto
qed

lemma and_then_emit_appends:
  assumes "and_then (emit bs what) (\<lambda>w1. if body = [] then (True, w1) else emit body what2 w1) w = (ok, w')"
    and "writing (out w)"
  shows "writing (out w')"
    and "ok \<Longrightarrow> written (out w') = written (out w) @ bs @ body \<and>
           bytes_written w' = bytes_written w + length bs + length body"
    and "healthy_out (out w) \<Longrightarrow> length bs \<le> STREAMOFF_MAX \<Longrightarrow> length body \<le> STREAMOFF_MAX \<Longrightarrow>
           ok \<and> healthy_out (out w')"
proof -
  obtain b w1 where e: "emit bs what w = (b, w1)" by fastforce
  note e1 = emit_appends [OF e assms(2)]
  show "writing (out w')"
    and "ok \<Longrightarrow> written (out w') = written (out w) @ bs @ body \<and>
           bytes_written w' = bytes_written w + length bs + length body"
    and "healthy_out (out w) \<Longrightarrow> length bs \<le> STREAMOFF_MAX \<Longrightarrow> length body \<le> STREAMOFF_MAX \<Longrightarrow>
           ok \<and> healthy_out (out w')"
    using assms(1) e e1 emit_appends [of body what2 w1 ok w']
    by (auto simp: and_then_def split: bool.splits if_splits)
qed

lemma length_record_head:
  "length d = DELTA_DIGEST_BYTES \<Longrightarrow> length (record_head ty [v] d) = 1 + varint_size v + DELTA_DIGEST_BYTES"
  "length d = DELTA_DIGEST_BYTES \<Longrightarrow>
     length (record_head ty [v, u] d) = 1 + varint_size v + varint_size u + DELTA_DIGEST_BYTES"
  by (simp_all add: record_head_eq varint_size_eq)

text \<open>The stack array of \<open>emitRecord\<close> holds any head it builds.\<close>

lemma record_head_fits:
  assumes "length vals \<le> 2"
  shows "length (record_head ty vals d) \<le> 1 + 2 * VARINT_MAX_BYTES + DELTA_DIGEST_BYTES"
proof -
  have "length (concat (map (push_varint []) vals)) \<le> length vals * VARINT_MAX_BYTES"
    by (induction vals) (auto intro: add_mono length_push_varint_max)
  also have "\<dots> \<le> 2 * VARINT_MAX_BYTES" using assms by (rule mult_le_mono1)
  finally show ?thesis by (simp add: record_head_eq)
qed

lemma emitRecord_appends:
  assumes "emitRecord ty vals dig body what w = (ok, w')" and "writing (out w)"
  shows "writing (out w')"
    and "ok \<Longrightarrow> length dig = DELTA_DIGEST_BYTES \<and>
           written (out w') = written (out w) @ record_head ty vals dig @ body \<and>
           bytes_written w' = bytes_written w + length (record_head ty vals dig @ body)"
    and "healthy_out (out w) \<Longrightarrow> length dig = DELTA_DIGEST_BYTES \<Longrightarrow> length vals \<le> 2 \<Longrightarrow>
           length body \<le> STREAMOFF_MAX \<Longrightarrow> ok \<and> healthy_out (out w')"
proof -
  have fits: "length (record_head ty vals dig) \<le> STREAMOFF_MAX" if "length vals \<le> 2"
    using record_head_fits [OF that, of ty dig]
    by (simp add: STREAMOFF_MAX_def VARINT_MAX_BYTES_def DELTA_DIGEST_BYTES_def)
  show "writing (out w')"
    and "ok \<Longrightarrow> length dig = DELTA_DIGEST_BYTES \<and>
           written (out w') = written (out w) @ record_head ty vals dig @ body \<and>
           bytes_written w' = bytes_written w + length (record_head ty vals dig @ body)"
    using assms and_then_emit_appends [of "record_head ty vals dig" what body what w ok w']
    by (auto simp: emitRecord_def split: if_splits)
  show "ok \<and> healthy_out (out w')" if "healthy_out (out w)" "length dig = DELTA_DIGEST_BYTES"
      "length vals \<le> 2" "length body \<le> STREAMOFF_MAX"
    using assms that fits and_then_emit_appends [of "record_head ty vals dig" what body what w ok w']
    by (auto simp: emitRecord_def split: if_splits)
qed

lemma write_entry_appends:
  assumes "write_entry e w = (ok, w')" and "writing (out w)"
  shows "writing (out w')"
    and "ok \<Longrightarrow> length (entry_digest e) = DELTA_DIGEST_BYTES \<and>
           written (out w') = written (out w) @ encode_entry e \<and>
           bytes_written w' = bytes_written w + length (encode_entry e)"
    and "healthy_out (out w) \<Longrightarrow> length (entry_digest e) = DELTA_DIGEST_BYTES \<Longrightarrow>
           length (encode_entry e) \<le> STREAMOFF_MAX \<Longrightarrow> ok \<and> healthy_out (out w')"
proof -
  obtain ty vals body what where e: "write_entry e = emitRecord ty vals (entry_digest e) body what"
      "encode_entry e = record_head ty vals (entry_digest e) @ body" "length vals \<le> 2"
  proof (cases e)
    case (OriginalE i d)
    then show ?thesis
      by (intro that [of ORIGINAL_CHUNK "[i]" "[]" "''ORIGINAL entry''"])
        (simp_all add: write_original_def fun_eq_iff)
  next
    case (AddedE d p)
    then show ?thesis
      by (intro that [of ADDED_CHUNK "[of_nat (length p)]" p "''ADDED entry''"])
        (simp_all add: write_added_def fun_eq_iff)
  next
    case (ModifiedE i n d ops)
    then show ?thesis
      by (intro that [of MODIFIED_CHUNK "[i, n]" ops "''MODIFIED entry''"])
        (simp_all add: write_modified_def fun_eq_iff)
  qed
  note er = emitRecord_appends [OF assms(1) [unfolded e(1)] assms(2)]
  show "writing (out w')"
    and "ok \<Longrightarrow> length (entry_digest e) = DELTA_DIGEST_BYTES \<and>
           written (out w') = written (out w) @ encode_entry e \<and>
           bytes_written w' = bytes_written w + length (encode_entry e)"
    using er(1,2) by (simp_all add: e(2))
  show "ok \<and> healthy_out (out w')" if "healthy_out (out w)"
      "length (entry_digest e) = DELTA_DIGEST_BYTES" "length (encode_entry e) \<le> STREAMOFF_MAX"
    using er(3) that e(2,3) by simp
qed

section \<open>Properties of the wire format\<close>

fun entry_header :: "delta_entry \<Rightarrow> DeltaEntryHeader" where
  "entry_header (OriginalE i d) = \<lparr>type = ORIGINAL_CHUNK, old_index = i, out_size = 0, digest = d\<rparr>"
| "entry_header (AddedE d p) =
     \<lparr>type = ADDED_CHUNK, old_index = 0, out_size = of_nat (length p), digest = d\<rparr>"
| "entry_header (ModifiedE i n d ops) = \<lparr>type = MODIFIED_CHUNK, old_index = i, out_size = n, digest = d\<rparr>"

fun entry_body :: "delta_entry \<Rightarrow> bytes" where
  "entry_body (OriginalE i d) = []"
| "entry_body (AddedE d p) = p"
| "entry_body (ModifiedE i n d ops) = ops"

definition entry_ok :: "delta_entry \<Rightarrow> bool" where
  "entry_ok e \<longleftrightarrow> length (entry_digest e) = DELTA_DIGEST_BYTES \<and>
     unat (out_size (entry_header e)) \<le> DELTA_MAX_CHUNK_SIZE"

lemma read_entry_header_encode [codec_simps]:
  assumes "entry_ok e"
  shows "run_state (read_entry_header list_source) (encode_entry e @ r) = (Inr (entry_header e), entry_body e @ r)"
  using assms by (cases e) (simp_all add: entry_ok_def codec_simps)

text \<open>A varint written by \<open>push_varint\<close> is read back, takes as many bytes as \<open>varint_size\<close> says, and
  never more than ten.\<close>

lemma varint_roundtrip:
  "run_state (read_varint list_source w) (push_varint [] v @ r) = (Inr v, r) \<and>
   varint_size v = length (push_varint [] v) \<and>
   1 \<le> length (push_varint [] v) \<and> length (push_varint [] v) \<le> VARINT_MAX_BYTES"
proof (intro conjI)
  show "1 \<le> length (push_varint [] v)" by (subst push_varint_unfold) simp
qed (simp_all add: read_varint_push varint_size_eq length_push_varint_max)

text \<open>C32 Whatever bytes a hostile stream holds, a varint the reader accepts consumed between one and ten
  of them and has exactly the value its seven-bit groups denote, so an encoding wider than 64 bits
  is refused rather than wrapped.\<close>

theorem varint_no_wrap:
  assumes "run_state (read_varint list_source w) bs = (Inr v, r)"
  shows "\<exists>ds. bs = ds @ r \<and> 1 \<le> length ds \<and> length ds \<le> VARINT_MAX_BYTES \<and> unat v = leb_value ds"
  using read_varint_loop_value [of w VARINT_MAX_BYTES 0 bs v r] assms
  by (auto simp: read_varint_def Suc_le_eq)

theorem varint_no_wrap_witness:
  "\<exists>ds. [0x80, 0x80, 0x01, 0x07] = ds @ [0x07] \<and> 1 \<le> length ds \<and> length ds \<le> VARINT_MAX_BYTES \<and>
     unat (16384 :: u64) = leb_value ds"
proof (rule varint_no_wrap)
  show "run_state (read_varint list_source ''x'') [0x80, 0x80, 0x01, 0x07] = (Inr 16384, [0x07])"
    by code_simp
qed

text \<open>C25 The opcode reader accepts exactly the encodings of valid opcodes: it inverts the encoding and
  nothing else parses.\<close>

theorem opcode_reader_iff:
  "run_state (read_diff_opcode list_source) bs = (Inr c, r) \<longleftrightarrow> valid_opcode c \<and> bs = encode_opcode c @ r"
  using read_diff_opcode_decode read_diff_opcode_encode by blast

text \<open>C26 Record round trip through the file: on a file being read without a fault, positioned at the bytes
  \<open>write_entry\<close> appends for an entry, the reader returns that entry's header and is left at its body.\<close>

theorem entry_file_roundtrip:
  assumes "healthy f" and "remaining f = encode_entry e @ r" and "entry_ok e"
  shows "\<exists>f'. run_state (read_entry_header file_source) f = (Inr (entry_header e), f') \<and>
    healthy f' \<and> remaining f' = entry_body e @ r"
proof -
  obtain x f' where run: "run_state (read_entry_header file_source) f = (x, f')" by fastforce
  from fio.calm_run [OF fio.read_entry_header_sim assms(1) run] read_entry_header_encode [OF assms(3), of r]
  show ?thesis using run by (simp add: assms(2))
qed

theorem entry_file_roundtrip_witness:
  "\<exists>f'. run_state (read_entry_header file_source)
      (file_of (encode_entry (AddedE (replicate 16 7) [1, 2]) @ [0xFF])) =
        (Inr (entry_header (AddedE (replicate 16 7) [1, 2])), f') \<and>
    healthy f' \<and> remaining f' = entry_body (AddedE (replicate 16 7) [1, 2]) @ [0xFF]"
  by (rule entry_file_roundtrip) (simp_all add: entry_ok_def DELTA_DIGEST_BYTES_def DELTA_MAX_CHUNK_SIZE_def)

text \<open>C33 Truncation: a record head cut anywhere before its end is refused, never read as a shorter record.\<close>

theorem entry_truncation_rejected:
  assumes "length d = DELTA_DIGEST_BYTES" and "unat m \<le> DELTA_MAX_CHUNK_SIZE"
    and "(ty, vals) \<in> {(ORIGINAL_CHUNK, [i]), (ADDED_CHUNK, [m]), (MODIFIED_CHUNK, [i, m])}"
    and "n < length (record_head ty vals d)"
  shows "\<exists>msg. run_state (read_entry_header list_source) (take n (record_head ty vals d)) = (Inl msg, [])"
  using read_entry_header_truncated [OF assms(4,1,3,2)] .

theorem entry_truncation_rejected_witness:
  "\<exists>msg. run_state (read_entry_header list_source)
     (take 9 (record_head MODIFIED_CHUNK [300, 20] (replicate 16 5))) = (Inl msg, [])"
proof (rule entry_truncation_rejected)
  show "9 < length (record_head MODIFIED_CHUNK [300, 20] (replicate 16 5))" by code_simp
  show "(MODIFIED_CHUNK, [300, 20]) \<in>
      {(ORIGINAL_CHUNK, [300]), (ADDED_CHUNK, [20]), (MODIFIED_CHUNK, [300, 20 :: u64])}" by simp
qed (simp_all add: DELTA_DIGEST_BYTES_def DELTA_MAX_CHUNK_SIZE_def)

lemma read_header_sound:
  assumes "run_state (read_header list_source) bs = (Inr u, r)"
  shows "bs = header_bytes @ r"
proof -
  have lm: "length DELTA_MAGIC = 4" by (simp add: DELTA_MAGIC_def)
  have len: "length (take 8 bs) = 8" and magic: "take 4 (take 8 bs) = DELTA_MAGIC"
    and ver: "load_u32_be (drop 4 (take 8 bs)) = DELTA_FORMAT_VERSION" and r: "r = drop 8 bs"
    using assms by (auto simp: read_header_def DELTA_HEADER_SIZE_def lm Let_def split: if_splits)
  have "length (drop 4 (take 8 bs)) = 4" using len by simp
  from push_load_u32_be [OF this] have "drop 4 (take 8 bs) = push_u32_be [] DELTA_FORMAT_VERSION" by (simp add: ver)
  then have "take 8 bs = header_bytes"
    using magic append_take_drop_id [of 4 "take 8 bs"] push_u32_be_append [of DELTA_MAGIC]
    by (simp add: header_bytes_def)
  then show ?thesis using r append_take_drop_id [of 8 bs] by metis
qed

end
