(* ===== verification/Reader_Progress.thy ===== *)
theory Reader_Progress
  imports Delta_Codec
begin

text \<open>
  No operation of the reader on a file gives bytes back, whatever the state of the file or the
  faults of its device, and one that returns an item has taken at least one byte.  This is why the
  loops over entries and opcodes (\<^verbatim>\<open>src/src/Apply.hpp\<close>, \<^verbatim>\<open>src/src/DeltaViewer.cpp\<close>) terminate.
\<close>

section \<open>Computations that give nothing back\<close>

definition shrinks :: "(fileio, 'a) state \<Rightarrow> bool" where
  "shrinks m \<longleftrightarrow> (\<forall>f r f'. run_state m f = (r, f') \<longrightarrow> length (remaining f') \<le> length (remaining f))"

lemma shrinksD: "shrinks m \<Longrightarrow> run_state m f = (r, f') \<Longrightarrow> length (remaining f') \<le> length (remaining f)"
  unfolding shrinks_def by blast

lemma shrinks_return: "shrinks (State_Monad.return x)" "shrinks (throw msg)" "shrinks (give y)"
  by (simp_all add: shrinks_def)

lemma shrinks_bind:
  assumes "shrinks m" and "\<And>x. shrinks (k x)"
  shows "shrinks (State_Monad.bind m k)"
  unfolding shrinks_def
proof (intro allI impI)
  fix f r f' assume run: "run_state (State_Monad.bind m k) f = (r, f')"
  obtain x g where 1: "run_state m f = (x, g)" by fastforce
  then have 2: "run_state (k x) g = (r, f')" using run by simp
  show "length (remaining f') \<le> length (remaining f)"
    using shrinksD [OF assms(1) 1] shrinksD [OF assms(2) 2] by (rule order_trans [rotated])
qed

lemma shrinks_try_then: "shrinks m \<Longrightarrow> (\<And>x. shrinks (k x)) \<Longrightarrow> shrinks (try_then m k)"
  unfolding try_then_def by (rule shrinks_bind) (auto intro: shrinks_return split: sum.split)

lemma shrinks_if: "shrinks a \<Longrightarrow> shrinks b \<Longrightarrow> shrinks (if c then a else b)"
  by simp

lemma shrinks_option: "shrinks a \<Longrightarrow> (\<And>x. shrinks (b x)) \<Longrightarrow> shrinks (case y of None \<Rightarrow> a | Some x \<Rightarrow> b x)"
  by (cases y) simp_all

lemma refill_keeps:
  assumes "refill f = (ok, f')" and "rpos f = length (rbuf f)"
  shows "remaining f' = remaining f"
proof (cases ok)
  case True
  then show ?thesis using refill_remaining(1) [of f f'] assms by simp
next
  case False
  obtain got s' where r: "st_read READ_BUFFER_SIZE (strm f) = (got, s')" by fastforce
  then show ?thesis using assms False st_read_frame [OF r]
    by (auto simp: refill_def Let_def remaining_def discard_read_buffer_def split: if_splits)
qed

lemma shrinks_byte: "shrinks (src_byte file_source)"
  unfolding shrinks_def
proof (intro allI impI)
  fix f r f' assume "run_state (src_byte file_source) f = (r, f')"
  then have run: "read_byte f = (r, f')" by simp
  show "length (remaining f') \<le> length (remaining f)"
  proof (cases r)
    case None
    obtain ok g where "refill f = (ok, g)" by fastforce
    then show ?thesis using run None refill_keeps [of f ok g]
      by (auto simp: read_byte_def Let_def split: if_splits)
  next
    case (Some b)
    then show ?thesis using read_byte_progress [of f b f'] run by simp
  qed
qed

lemma shrinks_peek: "shrinks (src_peek file_source)"
  unfolding shrinks_def
proof (intro allI impI)
  fix f r f' assume "run_state (src_peek file_source) f = (r, f')"
  then have run: "peek_byte f = (r, f')" by simp
  obtain ok g where "refill f = (ok, g)" by fastforce
  then show "length (remaining f') \<le> length (remaining f)" using run refill_keeps [of f ok g]
    by (auto simp: peek_byte_def Let_def split: if_splits)
qed

lemma shrinks_chunk: "shrinks (src_chunk file_source n)"
  using read_chunk_remaining by (auto simp: shrinks_def)

section \<open>The reader's operations\<close>

lemmas shrinks_intros = shrinks_return shrinks_bind shrinks_try_then shrinks_if shrinks_option
  shrinks_byte shrinks_peek shrinks_chunk

lemma shrinks_read_or: "shrinks (read_or file_source n msg)"
  unfolding read_or_def read_exact_def by (intro shrinks_intros)

lemma shrinks_varint_loop: "shrinks (read_varint_loop file_source w k v)"
  by (induction k arbitrary: v) (auto simp: Let_def intro!: shrinks_intros)

lemma shrinks_varint: "shrinks (read_varint file_source w)"
  unfolding read_varint_def by (rule shrinks_varint_loop)

lemma shrinks_payload: "shrinks (read_payload file_source n)"
  unfolding read_payload_def by (rule shrinks_read_or)

lemma shrinks_next_item: "shrinks (next_item file_source)"
  unfolding next_item_def by (intro shrinks_intros)

lemma shrinks_at_diff_opcode: "shrinks (at_diff_opcode file_source)"
  unfolding at_diff_opcode_def by (intro shrinks_intros)

lemma shrinks_entry_index: "shrinks (read_entry_index file_source h)"
  unfolding read_entry_index_def by (intro shrinks_intros shrinks_varint)

lemma shrinks_entry_size: "shrinks (read_entry_size file_source h)"
  unfolding read_entry_size_def by (intro shrinks_intros shrinks_varint)

lemma shrinks_opcode_body: "shrinks (read_opcode_body file_source t p)"
  unfolding read_opcode_body_def by (intro shrinks_intros shrinks_read_or)

text \<open>An operation that begins with a byte takes it.\<close>

lemma byte_then_progress:
  assumes "run_state (State_Monad.bind (src_byte file_source) (\<lambda>t. case t of None \<Rightarrow> throw msg | Some b \<Rightarrow> k b)) f
      = (Inr x, f')"
    and "\<And>b. shrinks (k b)"
  shows "length (remaining f') < length (remaining f)"
proof -
  obtain t g where t: "read_byte f = (t, g)" by fastforce
  then obtain b where b: "t = Some b" and run: "run_state (k b) g = (Inr x, f')"
    using assms(1) by (cases t) auto
  show ?thesis using read_byte_progress [of f b g] t b shrinksD [OF assms(2) run] by simp
qed

lemma entry_header_progress:
  assumes "run_state (read_entry_header file_source) f = (Inr h, f')"
  shows "length (remaining f') < length (remaining f)"
  using assms unfolding read_entry_header_def
  by (rule byte_then_progress)
    (intro shrinks_intros shrinks_entry_index shrinks_entry_size shrinks_read_or)

lemma diff_opcode_progress:
  assumes "run_state (read_diff_opcode file_source) f = (Inr c, f')"
  shows "length (remaining f') < length (remaining f)"
  using assms unfolding read_diff_opcode_def
  by (rule byte_then_progress) (intro shrinks_intros shrinks_read_or shrinks_opcode_body)

lemmas reader_shrinks = shrinksD [OF shrinks_next_item] shrinksD [OF shrinks_at_diff_opcode]
  shrinksD [OF shrinks_payload]

end
