(* ===== verification/Diff_Ops.thy ===== *)
theory Diff_Ops
  imports Delta_Codec
begin

text \<open>
  What a run of diff opcodes does to an old chunk: the body of the loop of \<open>applyDiff\<close> and its tail
  copy (\<^verbatim>\<open>src/src/Apply.hpp\<close>), without the reader that delivers the opcodes.  The differences of
  \<open>size_t\<close> values the guards use wrap around in the code, and so they do here; the lemmas show
  that none of them ever does.
\<close>

section \<open>Subtraction on size_t\<close>

definition size_sub :: "nat \<Rightarrow> nat \<Rightarrow> nat" where
  "size_sub a b = (if b \<le> a then a - b else 2 ^ 64 - (b - a))"

lemma size_sub_le [simp]: "b \<le> a \<Longrightarrow> size_sub a b = a - b"
  by (simp add: size_sub_def)

section \<open>One opcode\<close>

record diff_state =
  df_output :: bytes
  df_old_pos :: nat
  df_new_pos :: nat

definition diff_start :: diff_state where
  "diff_start = \<lparr>df_output = [], df_old_pos = 0, df_new_pos = 0\<rparr>"

definition copy_match :: "bytes \<Rightarrow> nat \<Rightarrow> diff_state \<Rightarrow> diff_state" where
  "copy_match old m st = \<lparr>df_output = df_output st @ take m (drop (df_old_pos st) old),
     df_old_pos = df_old_pos st + m, df_new_pos = df_new_pos st + m\<rparr>"

definition apply_opcode :: "bytes \<Rightarrow> nat \<Rightarrow> DiffOpcode \<Rightarrow> diff_state \<Rightarrow> string + diff_state" where
  "apply_opcode old target c st =
     (if unat (pos c) < df_new_pos st then Inl ''Diff position went backwards''
      else let match_len = unat (pos c) - df_new_pos st in
        if match_len > size_sub (length old) (df_old_pos st) \<or>
           match_len > size_sub target (length (df_output st))
        then Inl ''Diff out of bounds (match copy)''
        else let st1 = copy_match old match_len st in
          if op c = op_D \<or> op c = op_I
          then let count = length (payload c) in
            if count > size_sub target (length (df_output st1))
            then Inl ''Diff out of bounds (inline write)''
            else let st2 = st1\<lparr>df_output := df_output st1 @ payload c,
                               df_new_pos := df_new_pos st1 + count\<rparr>
              in if op c = op_D
                 then if count > size_sub (length old) (df_old_pos st2)
                      then Inl ''Diff out of bounds (D advance)''
                      else Inr (st2\<lparr>df_old_pos := df_old_pos st2 + count\<rparr>)
                 else Inr st2
          else if unat (delete_length c) > size_sub (length old) (df_old_pos st1)
               then Inl ''Diff out of bounds (X delete)''
               else Inr (st1\<lparr>df_old_pos := df_old_pos st1 + unat (delete_length c)\<rparr>))"

text \<open>The tail copy.\<close>

definition diff_tail :: "bytes \<Rightarrow> nat \<Rightarrow> diff_state \<Rightarrow> string + bytes" where
  "diff_tail old target st =
     (if length (df_output st) < target
      then let remaining_bytes = size_sub target (length (df_output st)) in
        if remaining_bytes > size_sub (length old) (df_old_pos st)
        then Inl ''Diff tail copy out of bounds''
        else Inr (df_output st @ take remaining_bytes (drop (df_old_pos st) old))
      else Inr (df_output st))"

fun apply_opcodes :: "bytes \<Rightarrow> nat \<Rightarrow> DiffOpcode list \<Rightarrow> diff_state \<Rightarrow> string + diff_state" where
  "apply_opcodes old target [] st = Inr st"
| "apply_opcodes old target (c # cs) st =
     (case apply_opcode old target c st of Inl e \<Rightarrow> Inl e | Inr st' \<Rightarrow> apply_opcodes old target cs st')"

lemma apply_opcodes_append:
  "apply_opcodes old target (cs @ ds) st =
     (case apply_opcodes old target cs st of Inl e \<Rightarrow> Inl e | Inr st' \<Rightarrow> apply_opcodes old target ds st')"
  by (induction cs arbitrary: st) (auto split: sum.splits)

section \<open>Bounds\<close>

text \<open>The positions the loop keeps: neither file is overrun, and the position in the new chunk is the
  number of bytes produced.\<close>

definition diff_inv :: "bytes \<Rightarrow> nat \<Rightarrow> diff_state \<Rightarrow> bool" where
  "diff_inv old target st \<longleftrightarrow> df_old_pos st \<le> length old \<and> length (df_output st) \<le> target \<and>
     df_new_pos st = length (df_output st)"

lemma diff_inv_start [simp]: "diff_inv old target diff_start"
  by (simp add: diff_inv_def diff_start_def)

lemma apply_opcode_inv:
  assumes "apply_opcode old target c st = Inr st'" and "diff_inv old target st"
  shows "diff_inv old target st'"
  using assms
  by (auto simp: apply_opcode_def diff_inv_def copy_match_def Let_def min_def not_less split: if_splits)

lemma apply_opcodes_inv:
  "apply_opcodes old target cs st = Inr st' \<Longrightarrow> diff_inv old target st \<Longrightarrow> diff_inv old target st'"
  by (induction cs arbitrary: st) (auto dest: apply_opcode_inv split: sum.splits)

lemma diff_tail_length:
  "diff_tail old target st = Inr out_bytes \<Longrightarrow> diff_inv old target st \<Longrightarrow> length out_bytes = target"
  by (auto simp: diff_tail_def diff_inv_def Let_def min_def split: if_splits)

section \<open>A correct run\<close>

text \<open>
  \<open>in_step old new x y st\<close>: what was produced so far is a prefix of \<open>new\<close>, and between the positions
  reached and \<open>(x, y)\<close> the two chunks agree, so that copying takes the state there.
\<close>

definition in_step :: "bytes \<Rightarrow> bytes \<Rightarrow> nat \<Rightarrow> nat \<Rightarrow> diff_state \<Rightarrow> bool" where
  "in_step old new x y st \<longleftrightarrow> x \<le> length old \<and> y \<le> length new \<and>
     df_old_pos st \<le> x \<and> df_new_pos st \<le> y \<and> x - df_old_pos st = y - df_new_pos st \<and>
     df_output st = take (df_new_pos st) new \<and>
     take (x - df_old_pos st) (drop (df_old_pos st) old) =
       take (y - df_new_pos st) (drop (df_new_pos st) new)"

lemma in_step_start: "in_step old new 0 0 diff_start"
  by (simp add: in_step_def diff_start_def)

lemma in_step_equal:
  assumes "in_step old new x y st" and "x < length old" and "y < length new" and "old ! x = new ! y"
  shows "in_step old new (Suc x) (Suc y) st"
proof -
  have x: "x = df_old_pos st + (x - df_old_pos st)" and y: "y = df_new_pos st + (x - df_old_pos st)"
    using assms(1) by (auto simp: in_step_def)
  have "take (Suc (x - df_old_pos st)) (drop (df_old_pos st) old) =
      take (x - df_old_pos st) (drop (df_old_pos st) old) @ [old ! x]"
    using assms(2) x by (subst take_Suc_conv_app_nth) auto
  moreover have "take (Suc (y - df_new_pos st)) (drop (df_new_pos st) new) =
      take (y - df_new_pos st) (drop (df_new_pos st) new) @ [new ! y]"
    using assms(1,3) y by (subst take_Suc_conv_app_nth) (auto simp: in_step_def)
  moreover have "Suc x - df_old_pos st = Suc (x - df_old_pos st)" "Suc y - df_new_pos st = Suc (y - df_new_pos st)"
    using assms(1) by (auto simp: in_step_def)
  ultimately show ?thesis using assms by (auto simp: in_step_def)
qed

lemma copy_match_in_step:
  assumes "in_step old new x y st"
  shows "copy_match old (y - df_new_pos st) st = \<lparr>df_output = take y new, df_old_pos = x, df_new_pos = y\<rparr>"
proof -
  have "take y new = take (df_new_pos st) new @ take (y - df_new_pos st) (drop (df_new_pos st) new)"
    using assms by (metis in_step_def le_add_diff_inverse take_add)
  moreover have "df_old_pos st + (y - df_new_pos st) = x" "df_new_pos st + (y - df_new_pos st) = y"
    "take (y - df_new_pos st) (drop (df_old_pos st) old) = take (y - df_new_pos st) (drop (df_new_pos st) new)"
    "df_output st = take (df_new_pos st) new"
    using assms by (auto simp: in_step_def)
  ultimately show ?thesis by (simp add: copy_match_def)
qed

text \<open>A replacement, an insertion and a deletion at the position reached.\<close>

lemma apply_D:
  assumes "in_step old new x y st" and "y + n \<le> length new" and "x + n \<le> length old"
    and "c = \<lparr>op = op_D, pos = of_nat y, delete_length = 0, payload = take n (drop y new)\<rparr>"
    and "length new < 2 ^ 32"
  shows "\<exists>st'. apply_opcode old (length new) c st = Inr st' \<and> in_step old new (x + n) (y + n) st'"
proof -
  have y: "unat (of_nat y :: u32) = y" using assms(2,5) by (intro unat_u32_of_nat) linarith
  have le: "df_new_pos st \<le> y" "y - df_new_pos st \<le> length old - df_old_pos st"
    "y - df_new_pos st \<le> length new - length (df_output st)" "df_old_pos st \<le> length old"
    "length (df_output st) \<le> length new"
    using assms(1) by (auto simp: in_step_def)
  have n: "length (take n (drop y new)) = n" "take y new @ take n (drop y new) = take (y + n) new"
    using assms(2) by (simp_all add: take_add)
  show ?thesis
    using le y n assms(2,3)
    by (auto simp: apply_opcode_def assms(4) Let_def copy_match_in_step [OF assms(1)] in_step_def)
qed

lemma apply_I:
  assumes "in_step old new x y st" and "y + n \<le> length new"
    and "c = \<lparr>op = op_I, pos = of_nat y, delete_length = 0, payload = take n (drop y new)\<rparr>"
    and "length new < 2 ^ 32"
  shows "\<exists>st'. apply_opcode old (length new) c st = Inr st' \<and> in_step old new x (y + n) st'"
proof -
  have y: "unat (of_nat y :: u32) = y" using assms(2,4) by (intro unat_u32_of_nat) linarith
  have le: "df_new_pos st \<le> y" "y - df_new_pos st \<le> length old - df_old_pos st"
    "y - df_new_pos st \<le> length new - length (df_output st)" "df_old_pos st \<le> length old"
    "length (df_output st) \<le> length new" "x \<le> length old"
    using assms(1) by (auto simp: in_step_def)
  have n: "length (take n (drop y new)) = n" "take y new @ take n (drop y new) = take (y + n) new"
    using assms(2) by (simp_all add: take_add)
  show ?thesis
    using le y n assms(2)
    by (auto simp: apply_opcode_def assms(3) Let_def copy_match_in_step [OF assms(1)] in_step_def)
qed

lemma apply_X:
  assumes "in_step old new x y st" and "x + n \<le> length old"
    and "c = \<lparr>op = op_X, pos = of_nat y, delete_length = of_nat n, payload = []\<rparr>"
    and "length new < 2 ^ 32" and "length old < 2 ^ 32"
  shows "\<exists>st'. apply_opcode old (length new) c st = Inr st' \<and> in_step old new (x + n) y st'"
proof -
  have yl: "y \<le> length new" using assms(1) by (simp add: in_step_def)
  have y: "unat (of_nat y :: u32) = y" "unat (of_nat n :: u32) = n"
    using yl assms(2,4,5) by (auto intro!: unat_u32_of_nat)
  have le: "df_new_pos st \<le> y" "y - df_new_pos st \<le> length old - df_old_pos st"
    "y - df_new_pos st \<le> length new - length (df_output st)" "df_old_pos st \<le> length old"
    "length (df_output st) \<le> length new" "x \<le> length old"
    using assms(1) by (auto simp: in_step_def)
  show ?thesis
    using le y yl assms(2)
    by (auto simp: apply_opcode_def assms(3) Let_def copy_match_in_step [OF assms(1)] in_step_def)
qed

text \<open>At the end of both chunks the tail copy completes the new one.\<close>

lemma diff_tail_in_step:
  assumes "in_step old new (length old) (length new) st"
  shows "diff_tail old (length new) st = Inr new"
proof -
  have "df_output st @ take (length new - length (df_output st)) (drop (df_old_pos st) old) = new"
    using assms by (auto simp: in_step_def min_def)
  moreover have "length new - length (df_output st) = length old - df_old_pos st"
    "df_old_pos st \<le> length old" "length (df_output st) \<le> length new"
    using assms by (auto simp: in_step_def)
  ultimately show ?thesis by (cases "length (df_output st) < length new") (auto simp: diff_tail_def Let_def)
qed

end
