(* ===== verification/Myers.thy ===== *)
theory Myers
  imports Diff_Ops "HOL-Library.Signed_Division"
begin

text \<open>
  The shortest-edit-script search of the generator (\<open>myersSES\<close> in \<^verbatim>\<open>src/src/Delta.hpp\<close>), with its
  two scratch arrays, and the proof that the script it returns turns the old chunk into the new one
  and that no script has fewer edits.  The C++ integers hold values of at most twice the size of a
  chunk (16384 bytes), far below \<open>2 ^ 31\<close>, so they are HOL integers.
\<close>

section \<open>The search\<close>

text \<open>\<open>while (x < N && y < M && a[x] == b[y]) { x++; y++; }\<close>; the result is the final \<open>x\<close>.\<close>

function snake :: "bytes \<Rightarrow> bytes \<Rightarrow> int \<Rightarrow> int \<Rightarrow> int" where
  "snake a b x y =
     (if x < int (length a) \<and> y < int (length b) \<and> a ! nat x = b ! nat y
      then snake a b (x + 1) (y + 1) else x)"
  by pat_completeness auto
termination by (relation "measure (\<lambda>(a, b, x, y). nat (int (length a) - x))") auto

declare snake.simps [simp del]

text \<open>One pass over the diagonals \<open>k\<close>, \<open>k + 2\<close>, \<dots>, \<open>d\<close> of level \<open>d\<close>; the flag tells whether the end of
  both inputs was reached.\<close>

definition from_above :: "int list \<Rightarrow> int \<Rightarrow> int \<Rightarrow> int \<Rightarrow> bool" where
  "from_above v off d k \<longleftrightarrow> k = - d \<or> (k \<noteq> d \<and> v ! nat (off + k - 1) < v ! nat (off + k + 1))"

function myers_row :: "bytes \<Rightarrow> bytes \<Rightarrow> int \<Rightarrow> int \<Rightarrow> int \<Rightarrow> int list \<Rightarrow> int list \<times> bool" where
  "myers_row a b off d k v =
     (if k \<le> d then
        let x0 = (if from_above v off d k then v ! nat (off + k + 1) else v ! nat (off + k - 1) + 1);
            x = snake a b x0 (x0 - k);
            y = x - k;
            v' = v[nat (off + k) := x]
        in if x \<ge> int (length a) \<and> y \<ge> int (length b) then (v', True)
           else myers_row a b off d (k + 2) v'
      else (v, False))"
  by pat_completeness auto
termination by (relation "measure (\<lambda>(a, b, off, d, k, v). nat (d + 1 - k))") auto

declare myers_row.simps [simp del]

text \<open>The checkpoint: the largest \<open>2 * x - k\<close> over all diagonals, and the test on it.\<close>

definition best_xy :: "int list \<Rightarrow> int \<Rightarrow> int \<Rightarrow> int" where
  "best_xy v off d = foldl (\<lambda>best k. max best (2 * v ! nat (off + k) - k)) 0 [- d..d]"

definition abandon :: "int list \<Rightarrow> int \<Rightarrow> int \<Rightarrow> bool" where
  "abandon v off d \<longleftrightarrow> d \<in> {256, 512, 1024} \<and> (best_xy v off d - d) sdiv 2 < d sdiv 2"

text \<open>The levels; the result is the level reached and the trace.\<close>

function myers_levels ::
  "bytes \<Rightarrow> bytes \<Rightarrow> nat \<Rightarrow> nat \<Rightarrow> int list \<Rightarrow> int list \<Rightarrow> (nat \<times> int list) option" where
  "myers_levels a b d_max d v trace =
     (if d \<le> d_max then
        (case myers_row a b (int d_max) (int d) (- int d) v of (v', found) \<Rightarrow>
           let trace' = trace @ take (2 * d + 1) (drop (d_max - d) v') in
           if abandon v' (int d_max) (int d) then None
           else if found then Some (d, trace')
           else myers_levels a b d_max (Suc d) v' trace')
      else None)"
  by pat_completeness auto
termination by (relation "measure (\<lambda>(a, b, d_max, d, v, trace). Suc d_max - d)") auto

declare myers_levels.simps [simp del]

text \<open>Backtracking: unwinding a snake down to \<open>(px, py)\<close>, then one edit per level.  The script is
  collected last entry first.\<close>

function unwind :: "int \<Rightarrow> int \<Rightarrow> int \<Rightarrow> int \<Rightarrow> int list \<Rightarrow> int \<times> int \<times> int list" where
  "unwind px py x y ses =
     (if x > px \<and> y > py then unwind px py (x - 1) (y - 1) (ses @ [0]) else (x, y, ses))"
  by pat_completeness auto
termination by (relation "measure (\<lambda>(px, py, x, y, ses). nat (x - px))") auto

declare unwind.simps [simp del]

fun backtrack :: "int list \<Rightarrow> nat \<Rightarrow> int \<Rightarrow> int \<Rightarrow> int list \<Rightarrow> int \<times> int \<times> int list" where
  "backtrack trace 0 x y ses = (x, y, ses)"
| "backtrack trace (Suc e) x y ses =
     (let d = int (Suc e);
          base = int e * int e + int e;
          k = x - y;
          above = from_above trace base d k;
          prev_k = (if above then k + 1 else k - 1);
          prev_x = trace ! nat (base + prev_k);
          prev_y = prev_x - prev_k;
          (x1, y1, ses1) = unwind prev_x prev_y x y ses
      in if above then backtrack trace e x1 (y1 - 1) (ses1 @ [1])
         else backtrack trace e (x1 - 1) y1 (ses1 @ [-1]))"

definition myersSES :: "bytes \<Rightarrow> bytes \<Rightarrow> nat \<Rightarrow> int list option" where
  "myersSES a b d_limit =
     (if a = [] \<and> b = [] then Some []
      else if a = [] then Some (replicate (length b) 1)
      else if b = [] then Some (replicate (length a) (-1))
      else let d_max = min (length a + length b) d_limit in
        case myers_levels a b d_max 0 (replicate (2 * d_max + 1) 0) [] of
          None \<Rightarrow> None
        | Some (final_d, trace) \<Rightarrow>
            let (x, y, ses) = backtrack trace final_d (int (length a)) (int (length b)) [];
                (_, _, ses') = unwind 0 0 x y ses
            in Some (rev ses'))"

section \<open>Edit scripts\<close>

text \<open>\<open>0\<close> keeps a byte both inputs have, \<open>-1\<close> deletes one of the first, \<open>1\<close> inserts one of the second.\<close>

fun script_ok :: "bytes \<Rightarrow> bytes \<Rightarrow> int list \<Rightarrow> bool" where
  "script_ok a b [] \<longleftrightarrow> a = [] \<and> b = []"
| "script_ok a b (s # ses) \<longleftrightarrow>
     (if s = 0 then a \<noteq> [] \<and> b \<noteq> [] \<and> hd a = hd b \<and> script_ok (tl a) (tl b) ses
      else if s = -1 then a \<noteq> [] \<and> script_ok (tl a) b ses
      else if s = 1 then b \<noteq> [] \<and> script_ok a (tl b) ses
      else False)"

definition edits :: "int list \<Rightarrow> nat" where
  "edits ses = length (filter (\<lambda>s. s \<noteq> 0) ses)"

lemma edits_simps [simp]: "edits [] = 0" "edits (s # ses) = (if s = 0 then edits ses else Suc (edits ses))"
  "edits (xs @ ys) = edits xs + edits ys" "edits (rev xs) = edits xs" "edits (replicate n 0) = 0"
  by (simp_all add: edits_def rev_filter [symmetric])

section \<open>Furthest-reaching points\<close>

text \<open>What the array holds: on level \<open>d\<close> and diagonal \<open>k\<close>, the largest \<open>x\<close> that \<open>d\<close> edits reach.\<close>

fun reach_x :: "bytes \<Rightarrow> bytes \<Rightarrow> nat \<Rightarrow> int \<Rightarrow> int" where
  "reach_x a b 0 k = snake a b 0 0"
| "reach_x a b (Suc d) k =
     (let x0 = (if k = - int (Suc d) \<or> (k \<noteq> int (Suc d) \<and> reach_x a b d (k - 1) < reach_x a b d (k + 1))
                then reach_x a b d (k + 1) else reach_x a b d (k - 1) + 1)
      in snake a b x0 (x0 - k))"

definition diagonal :: "nat \<Rightarrow> int \<Rightarrow> bool" where
  "diagonal d k \<longleftrightarrow> \<bar>k\<bar> \<le> int d \<and> even (int d - k)"

lemma diagonal_0 [simp]: "diagonal 0 k \<longleftrightarrow> k = 0"
  by (auto simp: diagonal_def)

lemma diagonal_Suc:
  "diagonal (Suc d) k \<Longrightarrow> k \<noteq> - int (Suc d) \<Longrightarrow> diagonal d (k - 1)"
  "diagonal (Suc d) k \<Longrightarrow> k \<noteq> int (Suc d) \<Longrightarrow> diagonal d (k + 1)"
  "diagonal d k \<Longrightarrow> diagonal (Suc d) (k + 1) \<and> diagonal (Suc d) (k - 1)"
  unfolding diagonal_def by presburger+

lemma snake_ge: "x \<le> snake a b x y"
proof (induction a b x y rule: snake.induct)
  case (1 a b x y)
  then show ?case by (subst snake.simps) auto
qed

lemma snake_props:
  assumes "snake a b x y = x'" 
  shows "x < int (length a) \<Longrightarrow> y < int (length b) \<Longrightarrow>
      x' \<le> int (length a) \<and> y + (x' - x) \<le> int (length b)"
    and "\<not> (x < int (length a) \<and> y < int (length b)) \<Longrightarrow> x' = x"
    and "\<not> (x' < int (length a) \<and> y + (x' - x) < int (length b) \<and> a ! nat x' = b ! nat (y + (x' - x)))"
    and "\<And>i. x \<le> i \<Longrightarrow> i < x' \<Longrightarrow> a ! nat i = b ! nat (y + (i - x))"
proof -
  have "(x < int (length a) \<longrightarrow> y < int (length b) \<longrightarrow>
      snake a b x y \<le> int (length a) \<and> y + (snake a b x y - x) \<le> int (length b)) \<and>
    (\<not> (x < int (length a) \<and> y < int (length b)) \<longrightarrow> snake a b x y = x) \<and>
    \<not> (snake a b x y < int (length a) \<and> y + (snake a b x y - x) < int (length b) \<and>
       a ! nat (snake a b x y) = b ! nat (y + (snake a b x y - x))) \<and>
    (\<forall>i. x \<le> i \<longrightarrow> i < snake a b x y \<longrightarrow> a ! nat i = b ! nat (y + (i - x)))"
  proof (induction a b x y rule: snake.induct)
    case (1 a b x y)
    show ?case
    proof (cases "x < int (length a) \<and> y < int (length b) \<and> a ! nat x = b ! nat y")
      case True
      then have e: "snake a b x y = snake a b (x + 1) (y + 1)" by (subst snake.simps) simp
      have s: "y + 1 + (z - (x + 1)) = y + (z - x)" for z :: int by simp
      note IH = "1.IH" [OF True, unfolded s]
      have "a ! nat i = b ! nat (y + (i - x))" if "x \<le> i" "i < snake a b x y" for i
        using IH that True unfolding e by (cases "i = x") auto
      moreover have "snake a b x y \<le> int (length a) \<and> y + (snake a b x y - x) \<le> int (length b)"
        using IH True unfolding e by (cases "x + 1 < int (length a) \<and> y + 1 < int (length b)") auto
      moreover have "\<not> (snake a b x y < int (length a) \<and> y + (snake a b x y - x) < int (length b) \<and>
       a ! nat (snake a b x y) = b ! nat (y + (snake a b x y - x)))"
        using IH unfolding e by blast
      ultimately show ?thesis using True by blast
    next
      case False
      then have e: "snake a b x y = x" by (subst snake.simps) (rule if_not_P)
      then show ?thesis using False by auto
    qed
  qed
  then show "x < int (length a) \<Longrightarrow> y < int (length b) \<Longrightarrow>
      x' \<le> int (length a) \<and> y + (x' - x) \<le> int (length b)"
    and "\<not> (x < int (length a) \<and> y < int (length b)) \<Longrightarrow> x' = x"
    and "\<not> (x' < int (length a) \<and> y + (x' - x) < int (length b) \<and> a ! nat x' = b ! nat (y + (x' - x)))"
    and "\<And>i. x \<le> i \<Longrightarrow> i < x' \<Longrightarrow> a ! nat i = b ! nat (y + (i - x))"
    using assms by blast+
qed

text \<open>The starting point of the snake on a level: the better of the two neighbours.\<close>

definition start_x :: "bytes \<Rightarrow> bytes \<Rightarrow> nat \<Rightarrow> int \<Rightarrow> int" where
  "start_x a b d k =
     (if k = - int (Suc d) \<or> (k \<noteq> int (Suc d) \<and> reach_x a b d (k - 1) < reach_x a b d (k + 1))
      then reach_x a b d (k + 1) else reach_x a b d (k - 1) + 1)"

lemma reach_x_Suc: "reach_x a b (Suc d) k = snake a b (start_x a b d k) (start_x a b d k - k)"
  by (simp add: start_x_def Let_def)

declare reach_x.simps(2) [simp del]

lemma start_le_reach: "start_x a b d k \<le> reach_x a b (Suc d) k"
  by (simp add: reach_x_Suc snake_ge)

lemma start_ge:
  "k \<noteq> - int (Suc d) \<Longrightarrow> reach_x a b d (k - 1) + 1 \<le> start_x a b d k"
  "k \<noteq> int (Suc d) \<Longrightarrow> reach_x a b d (k + 1) \<le> start_x a b d k"
  by (auto simp: start_x_def)

lemma reach_ge:
  "k \<noteq> - int (Suc d) \<Longrightarrow> reach_x a b d (k - 1) + 1 \<le> reach_x a b (Suc d) k"
  "k \<noteq> int (Suc d) \<Longrightarrow> reach_x a b d (k + 1) \<le> reach_x a b (Suc d) k"
  using start_ge start_le_reach by (meson order_trans)+

lemma reach_nonneg: "diagonal d k \<Longrightarrow> 0 \<le> reach_x a b d k \<and> k \<le> reach_x a b d k"
proof (induction d arbitrary: k)
  case 0
  then show ?case using snake_ge [of 0 a b 0] by simp
next
  case (Suc d)
  show ?case
  proof (cases "k = - int (Suc d)")
    case True
    then have "diagonal d (k + 1)" using diagonal_Suc(2) [OF Suc.prems] by simp
    from Suc.IH [OF this] reach_ge(2) [of k d a b] True show ?thesis by simp
  next
    case False
    from Suc.IH [OF diagonal_Suc(1) [OF Suc.prems False]] reach_ge(1) [OF False, of a b]
    show ?thesis by simp
  qed
qed

text \<open>A path only leaves the grid where a better one on the neighbouring diagonal already did.\<close>

text \<open>A run never leaves the grid, so a point beyond an edge is where its run started.\<close>

lemma snake_beyond:
  "int (length a) < snake a b x y \<Longrightarrow> snake a b x y = x"
  "int (length b) < snake a b x y - (x - y) \<Longrightarrow> snake a b x y = x"
  using snake_props(1) [OF refl, of x a y b] snake_props(2) [OF refl, of x a y b] by auto

lemma overshoot_y:
  assumes "diagonal d k" and "reach_x a b d k - k > int (length b)"
  shows "\<exists>e. d = Suc e \<and> k + 2 \<le> int d \<and> reach_x a b e (k + 1) \<ge> reach_x a b d k"
  using assms
proof (induction d arbitrary: k)
  case 0
  then show ?case using snake_beyond(2) [of b a 0 0] by simp
next
  case (Suc d)
  define x0 where "x0 = start_x a b d k"
  have r: "reach_x a b (Suc d) k = snake a b x0 (x0 - k)" by (simp add: reach_x_Suc x0_def)
  then have x: "reach_x a b (Suc d) k = x0" using snake_beyond(2) [of b a x0 "x0 - k"] Suc.prems(2) by simp
  have big: "x0 - k > int (length b)" using Suc.prems(2) x by simp
  have bound: "\<bar>k\<bar> \<le> int (Suc d)" "even (int (Suc d) - k)" using Suc.prems(1) by (auto simp: diagonal_def)
  show ?case
  proof (cases "k = int (Suc d)")
    case True
    then have "k \<noteq> - int (Suc d)" by simp
    then have dk: "diagonal d (k - 1)" using diagonal_Suc(1) Suc.prems(1) by blast
    have "x0 = reach_x a b d (k - 1) + 1" using True by (simp add: x0_def start_x_def)
    then have "reach_x a b d (k - 1) - (k - 1) > int (length b)" using big by simp
    from Suc.IH [OF dk this] True show ?thesis by auto
  next
    case False
    have le: "k + 2 \<le> int (Suc d)" using bound False by presburger
    have "reach_x a b d (k + 1) \<ge> x0"
    proof (cases "x0 = reach_x a b d (k + 1)")
      case eqn: False
      then have l: "x0 = reach_x a b d (k - 1) + 1" "k \<noteq> - int (Suc d)"
        by (auto simp: x0_def start_x_def split: if_splits)
      then have dk: "diagonal d (k - 1)" using diagonal_Suc(1) Suc.prems(1) by blast
      have "reach_x a b d (k - 1) - (k - 1) > int (length b)" using big l by simp
      from Suc.IH [OF dk this] obtain e where e: "d = Suc e" "k - 1 + 2 \<le> int d"
        "reach_x a b e k \<ge> reach_x a b d (k - 1)" by auto
      have "reach_x a b e k + 1 \<le> reach_x a b d (k + 1)"
        using reach_ge(1) [of "k + 1" e a b] l(2) e(1) by simp
      then show ?thesis using e(3) l(1) by linarith
    qed simp
    then show ?thesis using x le by auto
  qed
qed

lemma overshoot_x:
  assumes "diagonal d k" and "reach_x a b d k > int (length a)"
  shows "\<exists>e. d = Suc e \<and> 2 - int d \<le> k \<and> reach_x a b e (k - 1) \<ge> reach_x a b d k - 1"
  using assms
proof (induction d arbitrary: k)
  case 0
  then show ?case using snake_beyond(1) [of a b 0 0] by simp
next
  case (Suc d)
  define x0 where "x0 = start_x a b d k"
  have r: "reach_x a b (Suc d) k = snake a b x0 (x0 - k)" by (simp add: reach_x_Suc x0_def)
  then have x: "reach_x a b (Suc d) k = x0" using snake_beyond(1) [of a b x0 "x0 - k"] Suc.prems(2) by simp
  have bound: "\<bar>k\<bar> \<le> int (Suc d)" "even (int (Suc d) - k)" using Suc.prems(1) by (auto simp: diagonal_def)
  show ?case
  proof (cases "k = - int (Suc d)")
    case True
    then have "k \<noteq> int (Suc d)" by simp
    then have dk: "diagonal d (k + 1)" using diagonal_Suc(2) Suc.prems(1) by blast
    have "x0 = reach_x a b d (k + 1)" using True by (simp add: x0_def start_x_def)
    then have "reach_x a b d (k + 1) > int (length a)" using Suc.prems(2) x by simp
    from Suc.IH [OF dk this] True show ?thesis by auto
  next
    case False
    have le: "2 - int (Suc d) \<le> k" using bound False by presburger
    have "reach_x a b d (k - 1) \<ge> x0 - 1"
    proof (cases "x0 = reach_x a b d (k - 1) + 1")
      case eqn: False
      then have l: "x0 = reach_x a b d (k + 1)" "k \<noteq> int (Suc d)" using False
        by (auto simp: x0_def start_x_def split: if_splits)
      then have dk: "diagonal d (k + 1)" using diagonal_Suc(2) Suc.prems(1) by blast
      have "reach_x a b d (k + 1) > int (length a)" using Suc.prems(2) x l by simp
      from Suc.IH [OF dk this] obtain e where e: "d = Suc e" "2 - int d \<le> k + 1"
        "reach_x a b e k \<ge> reach_x a b d (k + 1) - 1" by auto
      have "reach_x a b e k \<le> reach_x a b d (k - 1)"
        using reach_ge(2) [of "k - 1" e a b] l(2) e(1) by simp
      then show ?thesis using e(3) l(1) by linarith
    qed simp
    then show ?thesis using x le by auto
  qed
qed

definition finished :: "bytes \<Rightarrow> bytes \<Rightarrow> int \<Rightarrow> int \<Rightarrow> bool" where
  "finished a b k x \<longleftrightarrow> x \<ge> int (length a) \<and> x - k \<ge> int (length b)"

text \<open>The first level on which the end is reached reaches it exactly.\<close>

lemma finished_exact:
  assumes "diagonal d k" and "finished a b k (reach_x a b d k)"
    and earlier: "\<And>e j. d = Suc e \<Longrightarrow> diagonal e j \<Longrightarrow> \<not> finished a b j (reach_x a b e j)"
  shows "reach_x a b d k = int (length a)" and "k = int (length a) - int (length b)"
proof -
  have "reach_x a b d k \<le> int (length a) \<and> reach_x a b d k - k \<le> int (length b)"
  proof (rule ccontr)
    assume "\<not> ?thesis"
    then consider (x) "reach_x a b d k > int (length a)" | (y) "reach_x a b d k - k > int (length b)"
      by linarith
    then show False
    proof cases
      case x
      from overshoot_x [OF assms(1) x] obtain e where e: "d = Suc e" "2 - int d \<le> k"
        "reach_x a b e (k - 1) \<ge> reach_x a b d k - 1" by blast
      then have "diagonal e (k - 1)" using diagonal_Suc(1) assms(1) by auto
      moreover have "finished a b (k - 1) (reach_x a b e (k - 1))"
        using assms(2) x e(3) by (simp add: finished_def)
      ultimately show False using earlier e(1) by blast
    next
      case y
      from overshoot_y [OF assms(1) y] obtain e where e: "d = Suc e" "k + 2 \<le> int d"
        "reach_x a b e (k + 1) \<ge> reach_x a b d k" by blast
      then have "diagonal e (k + 1)" using diagonal_Suc(2) assms(1) by auto
      moreover have "finished a b (k + 1) (reach_x a b e (k + 1))"
        using assms(2) y e(3) by (simp add: finished_def)
      ultimately show False using earlier e(1) by blast
    qed
  qed
  then show "reach_x a b d k = int (length a)" and "k = int (length a) - int (length b)"
    using assms(2) by (simp_all add: finished_def)
qed

section \<open>No script has fewer edits\<close>

inductive grid_path :: "bytes \<Rightarrow> bytes \<Rightarrow> nat \<Rightarrow> nat \<Rightarrow> nat \<Rightarrow> bool" for a b where
  origin: "grid_path a b 0 0 0"
| keep: "grid_path a b d x y \<Longrightarrow> x < length a \<Longrightarrow> y < length b \<Longrightarrow> a ! x = b ! y \<Longrightarrow>
    grid_path a b d (Suc x) (Suc y)"
| delete: "grid_path a b d x y \<Longrightarrow> x < length a \<Longrightarrow> grid_path a b (Suc d) (Suc x) y"
| insert: "grid_path a b d x y \<Longrightarrow> y < length b \<Longrightarrow> grid_path a b (Suc d) x (Suc y)"

lemma grid_path_diagonal: "grid_path a b d x y \<Longrightarrow> diagonal d (int x - int y)"
proof (induction rule: grid_path.induct)
  case (delete d x y)
  have "int (Suc x) - int y = int x - int y + 1" by simp
  then show ?case using delete diagonal_Suc(3) [of d "int x - int y"] by metis
next
  case (insert d x y)
  have "int x - int (Suc y) = int x - int y - 1" by simp
  then show ?case using insert diagonal_Suc(3) [of d "int x - int y"] by metis
qed simp_all

lemma reach_stuck:
  assumes "diagonal d k" and "reach_x a b d k = int x" and "k = int x - int y"
  shows "\<not> (x < length a \<and> y < length b \<and> a ! x = b ! y)"
proof (cases d)
  case 0
  then have "k = 0" "snake a b 0 0 = int x" using assms by simp_all
  then show ?thesis using snake_props(3) [of a b 0 0 "int x"] assms(3) by auto
next
  case (Suc e)
  then have r: "snake a b (start_x a b e k) (start_x a b e k - k) = int x"
    using assms(2) by (simp add: reach_x_Suc)
  have "start_x a b e k - k + (int x - start_x a b e k) = int y" using assms(3) by simp
  then show ?thesis using snake_props(3) [OF r] by simp
qed

text \<open>The array never falls behind a path with as many edits.\<close>

lemma grid_path_reach:
  "grid_path a b d x y \<Longrightarrow> int x \<le> reach_x a b d (int x - int y)"
proof (induction rule: grid_path.induct)
  case origin
  then show ?case using snake_ge [of 0 a b 0] by simp
next
  case (keep d x y)
  have "reach_x a b d (int x - int y) \<noteq> int x"
    using reach_stuck [OF grid_path_diagonal [OF keep.hyps(1)], of a b x y] keep.hyps(2-4) by auto
  with keep.IH show ?case by simp
next
  case (delete d x y)
  have "int (Suc x) - int y \<noteq> - int (Suc d)"
    using grid_path_diagonal [OF delete.hyps(1)] by (auto simp: diagonal_def)
  from reach_ge(1) [OF this, of a b] delete.IH show ?case by simp
next
  case (insert d x y)
  have "int x - int (Suc y) \<noteq> int (Suc d)"
    using grid_path_diagonal [OF insert.hyps(1)] by (auto simp: diagonal_def)
  from reach_ge(2) [OF this, of a b] insert.IH show ?case by simp
qed

lemma script_path:
  assumes "script_ok (drop x a) (drop y b) ses" and "grid_path a b d x y"
    and "x \<le> length a" and "y \<le> length b"
  shows "grid_path a b (d + edits ses) (length a) (length b)"
  using assms
proof (induction ses arbitrary: x y d)
  case Nil
  then show ?case by simp
next
  case (Cons s ses)
  consider (keep) "s = 0" "x < length a" "y < length b" "a ! x = b ! y"
      "script_ok (drop (Suc x) a) (drop (Suc y) b) ses"
    | (del) "s = -1" "x < length a" "script_ok (drop (Suc x) a) (drop y b) ses"
    | (ins) "s = 1" "y < length b" "script_ok (drop x a) (drop (Suc y) b) ses"
    using Cons.prems(1)
    by (auto simp: hd_drop_conv_nth drop_Suc tl_drop not_le [symmetric] split: if_splits)
  then show ?case
  proof cases
    case keep
    then show ?thesis using Cons.IH [of "Suc x" "Suc y" d] Cons.prems grid_path.keep by simp
  next
    case del
    then show ?thesis using Cons.IH [of "Suc x" y "Suc d"] Cons.prems grid_path.delete by simp
  next
    case ins
    then show ?thesis using Cons.IH [of x "Suc y" "Suc d"] Cons.prems grid_path.insert by simp
  qed
qed

text \<open>So a level no smaller than the number of edits of any script reaches the end.\<close>

lemma script_finished:
  assumes "script_ok a b ses"
  shows "diagonal (edits ses) (int (length a) - int (length b)) \<and>
    finished a b (int (length a) - int (length b)) (reach_x a b (edits ses) (int (length a) - int (length b)))"
proof -
  have p: "grid_path a b (edits ses) (length a) (length b)"
    using script_path [of 0 a 0 b ses 0] assms grid_path.origin by simp
  then show ?thesis
    using grid_path_diagonal [OF p] grid_path_reach [OF p] by (simp add: finished_def)
qed

section \<open>The arrays hold the furthest-reaching points\<close>

text \<open>The cells a level reads: those the level before it wrote, and before level 0 the cell next to
  the middle, which is still 0.\<close>

definition prev_cells :: "bytes \<Rightarrow> bytes \<Rightarrow> nat \<Rightarrow> int \<Rightarrow> int list \<Rightarrow> bool" where
  "prev_cells a b d off v \<longleftrightarrow>
     (case d of 0 \<Rightarrow> v ! nat (off + 1) = 0
      | Suc e \<Rightarrow> \<forall>j. diagonal e j \<longrightarrow> v ! nat (off + j) = reach_x a b e j)"

definition level_cells :: "bytes \<Rightarrow> bytes \<Rightarrow> nat \<Rightarrow> int \<Rightarrow> int list \<Rightarrow> bool" where
  "level_cells a b d base v \<longleftrightarrow> (\<forall>j. diagonal d j \<longrightarrow> v ! nat (base + j) = reach_x a b d j)"

definition unfinished :: "bytes \<Rightarrow> bytes \<Rightarrow> nat \<Rightarrow> bool" where
  "unfinished a b d \<longleftrightarrow> (\<forall>j. diagonal d j \<longrightarrow> \<not> finished a b j (reach_x a b d j))"

lemma prev_cells_Suc: "prev_cells a b (Suc e) off v \<longleftrightarrow> level_cells a b e off v"
  by (simp add: prev_cells_def level_cells_def)

text \<open>The decision the code makes from its cells is the one between the two neighbours.\<close>

lemma from_above_start:
  assumes "level_cells a b e off v" and "diagonal (Suc e) k"
  shows "(if from_above v off (int (Suc e)) k then v ! nat (off + k + 1) else v ! nat (off + k - 1) + 1) =
      start_x a b e k"
    and "from_above v off (int (Suc e)) k \<longleftrightarrow> k = - int (Suc e) \<or>
      (k \<noteq> int (Suc e) \<and> reach_x a b e (k - 1) < reach_x a b e (k + 1))"
proof -
  have l: "v ! nat (off + k - 1) = reach_x a b e (k - 1)" if "k \<noteq> - int (Suc e)"
    using assms diagonal_Suc(1) [OF assms(2) that] unfolding level_cells_def by (metis add_diff_eq)
  have r: "v ! nat (off + k + 1) = reach_x a b e (k + 1)" if "k \<noteq> int (Suc e)"
    using assms diagonal_Suc(2) [OF assms(2) that] unfolding level_cells_def by (metis add.assoc)
  have k: "k = - int (Suc e) \<Longrightarrow> k \<noteq> int (Suc e)" by simp
  show f: "from_above v off (int (Suc e)) k \<longleftrightarrow> k = - int (Suc e) \<or>
      (k \<noteq> int (Suc e) \<and> reach_x a b e (k - 1) < reach_x a b e (k + 1))"
    unfolding from_above_def using l r by (metis (no_types))
  show "(if from_above v off (int (Suc e)) k then v ! nat (off + k + 1) else v ! nat (off + k - 1) + 1) =
      start_x a b e k"
    unfolding f start_x_def
  proof (rule if_cong [OF refl])
    assume "k = - int (Suc e) \<or> (k \<noteq> int (Suc e) \<and> reach_x a b e (k - 1) < reach_x a b e (k + 1))"
    then show "v ! nat (off + k + 1) = reach_x a b e (k + 1)" using r k by blast
  next
    assume "\<not> (k = - int (Suc e) \<or> (k \<noteq> int (Suc e) \<and> reach_x a b e (k - 1) < reach_x a b e (k + 1)))"
    then have "k \<noteq> - int (Suc e)" by blast
    then show "v ! nat (off + k - 1) + 1 = reach_x a b e (k - 1) + 1" using l by simp
  qed
qed

lemma row_cell:
  assumes "prev_cells a b d off v" and "diagonal d k"
  shows "(let x0 = (if from_above v off (int d) k then v ! nat (off + k + 1) else v ! nat (off + k - 1) + 1)
          in snake a b x0 (x0 - k)) = reach_x a b d k"
proof (cases d)
  case 0
  then show ?thesis using assms by (simp add: prev_cells_def from_above_def)
next
  case (Suc e)
  then have lc: "level_cells a b e off v" using assms(1) prev_cells_Suc by blast
  show ?thesis
    using from_above_start(1) [OF lc assms(2) [unfolded Suc]] unfolding Suc Let_def reach_x_Suc by simp
qed

lemma prev_cells_update:
  assumes "prev_cells a b d off v" and "diagonal d k" and "int d \<le> off"
  shows "prev_cells a b d off (v[nat (off + k) := x])"
proof -
  have ne: "nat (off + j) \<noteq> nat (off + k)" if "odd (j - k)" "- int d \<le> j" for j
  proof
    assume "nat (off + j) = nat (off + k)"
    moreover have "0 \<le> off + j" "0 \<le> off + k" using that assms(2,3) by (auto simp: diagonal_def)
    ultimately have "j = k" by simp
    then show False using that(1) by simp
  qed
  show ?thesis
  proof (cases d)
    case 0
    then show ?thesis using assms(1) ne [of 1] assms(2)
      by (simp add: prev_cells_def nth_list_update_neq)
  next
    case (Suc e)
    have "nat (off + j) \<noteq> nat (off + k)" if "diagonal e j" for j
    proof (rule ne)
      show "odd (j - k)" using that assms(2) Suc unfolding diagonal_def by presburger
      show "- int d \<le> j" using that Suc by (auto simp: diagonal_def)
    qed
    then show ?thesis using assms(1) unfolding Suc prev_cells_def
      by (simp only: nat.case) (metis nth_list_update_neq)
  qed
qed

lemma myers_row_correct:
  assumes "myers_row a b off (int d) k v = (v', found)" and "off = int m" and "d \<le> m"
    and "length v = 2 * m + 1" and "prev_cells a b d off v" and "- int d \<le> k" and "even (int d - k)"
    and "\<And>j. diagonal d j \<Longrightarrow> j < k \<Longrightarrow> v ! nat (off + j) = reach_x a b d j \<and>
      \<not> finished a b j (reach_x a b d j)"
  shows "length v' = 2 * m + 1 \<and> prev_cells a b d off v' \<and>
    (\<not> found \<longrightarrow> level_cells a b d off v' \<and> unfinished a b d) \<and>
    (found \<longrightarrow> (\<exists>j. diagonal d j \<and> finished a b j (reach_x a b d j)))"
  using assms
proof (induction "nat (int d + 1 - k)" arbitrary: k v rule: less_induct)
  case less
  show ?case
  proof (cases "k \<le> int d")
    case False
    then have e: "v' = v" "\<not> found" using less.prems(1) by (subst (asm) myers_row.simps; simp)+
    have "j < k" if "diagonal d j" for j using that False by (auto simp: diagonal_def)
    then show ?thesis using e less.prems unfolding level_cells_def unfinished_def by blast
  next
    case True
    then have dk: "diagonal d k" using less.prems(6,7) by (auto simp: diagonal_def)
    define x where "x = reach_x a b d k"
    define v1 where "v1 = v[nat (off + k) := x]"
    have step: "myers_row a b off (int d) k v =
        (if finished a b k x then (v1, True) else myers_row a b off (int d) (k + 2) v1)"
      using True row_cell [OF less.prems(5) dk]
      by (subst myers_row.simps) (simp add: Let_def v1_def x_def finished_def)
    have len: "length v1 = 2 * m + 1" using less.prems(4) by (simp add: v1_def)
    have pc: "prev_cells a b d off v1"
      unfolding v1_def using less.prems(2,3) by (intro prev_cells_update [OF less.prems(5) dk]) simp
    show ?thesis
    proof (cases "finished a b k x")
      case True
      then show ?thesis using step less.prems(1) len pc dk by (auto simp: x_def)
    next
      case nf: False
      then have rec: "myers_row a b off (int d) (k + 2) v1 = (v', found)" using step less.prems(1) by simp
      have cells: "v1 ! nat (off + j) = reach_x a b d j \<and> \<not> finished a b j (reach_x a b d j)"
        if "diagonal d j" "j < k + 2" for j
      proof (cases "j = k")
        case True
        have "nat (off + k) < length v" using True dk less.prems(2-4) by (auto simp: diagonal_def)
        then show ?thesis using True nf by (simp add: v1_def x_def)
      next
        case False
        then have "j < k" using that less.prems(7) unfolding diagonal_def by presburger
        moreover have "nat (off + k) \<noteq> nat (off + j)"
          using False that(1) dk less.prems(2,3) by (auto simp: diagonal_def)
        ultimately show ?thesis using less.prems(8) [OF that(1)] by (simp add: v1_def)
      qed
      have "nat (int d + 1 - (k + 2)) < nat (int d + 1 - k)" using True by simp
      then show ?thesis
        using less.hyps [OF _ rec less.prems(2,3) len pc _ _ cells] less.prems(6,7) by simp
    qed
  qed
qed

definition trace_ok :: "bytes \<Rightarrow> bytes \<Rightarrow> nat \<Rightarrow> int list \<Rightarrow> bool" where
  "trace_ok a b d trace \<longleftrightarrow> d * d \<le> length trace \<and>
     (\<forall>e < d. level_cells a b e (int e * int e + int e) trace)"

lemma square_mono: "e < d \<Longrightarrow> e * e + 2 * e + 1 \<le> d * (d :: nat)"
proof -
  assume "e < d"
  then have "Suc e * Suc e \<le> d * d" by (intro mult_le_mono) simp_all
  then show ?thesis by simp
qed

lemma trace_ok_append:
  assumes "trace_ok a b d trace"
  shows "trace_ok a b d (trace @ xs)"
  unfolding trace_ok_def
proof (intro conjI allI impI)
  show "d * d \<le> length (trace @ xs)" using assms by (simp add: trace_ok_def)
  fix e assume e: "e < d"
  have "nat (int e * int e + int e + j) < length trace" if "diagonal e j" for j
  proof -
    have "int e * int e + int e + j < int (d * d)"
      using that square_mono [OF e] by (auto simp: diagonal_def of_nat_mult [symmetric] simp del: of_nat_mult)
    moreover have "int (d * d) \<le> int (length trace)"
      using assms unfolding trace_ok_def by (simp only: of_nat_le_iff)
    moreover have "0 \<le> int e * int e + int e + j" 
    proof -
      have "0 \<le> int e * int e" by simp
      moreover have "- int e \<le> j" using that by (auto simp: diagonal_def)
      ultimately show ?thesis by linarith
    qed
    ultimately show ?thesis by (simp only: nat_less_iff)
  qed
  then show "level_cells a b e (int e * int e + int e) (trace @ xs)"
    using assms e by (simp add: trace_ok_def level_cells_def nth_append)
qed

lemma trace_ok_Suc:
  assumes "trace_ok a b d trace" and "length trace = d * d" and "level_cells a b d (int m) v"
    and "d \<le> m" and "length v = 2 * m + 1"
  shows "trace_ok a b (Suc d) (trace @ take (2 * d + 1) (drop (m - d) v))"
    and "length (trace @ take (2 * d + 1) (drop (m - d) v)) = Suc d * Suc d"
proof -
  define row where "row = take (2 * d + 1) (drop (m - d) v)"
  have lr: "length row = 2 * d + 1" using assms(4,5) by (simp add: row_def)
  show len: "length (trace @ take (2 * d + 1) (drop (m - d) v)) = Suc d * Suc d"
    using lr assms(2) by (simp add: row_def)
  have "level_cells a b d (int d * int d + int d) (trace @ row)"
    unfolding level_cells_def
  proof (intro allI impI)
    fix j assume j: "diagonal d j"
    have nn: "nat (int d * int d + int d + j) = d * d + nat (int d + j)"
      using j by (auto simp: diagonal_def nat_add_distrib nat_mult_distrib add.assoc)
    have lt: "nat (int d + j) < 2 * d + 1" using j by (auto simp: diagonal_def)
    have "(trace @ row) ! nat (int d * int d + int d + j) = row ! nat (int d + j)"
      unfolding nn using assms(2) by (simp add: nth_append)
    also have "\<dots> = v ! (m - d + nat (int d + j))"
      unfolding row_def using lt assms(4,5) by simp
    also have "m - d + nat (int d + j) = nat (int m + j)"
      using assms(4) j by (auto simp: diagonal_def)
    finally show "(trace @ row) ! nat (int d * int d + int d + j) = reach_x a b d j"
      using assms(3) j by (simp add: level_cells_def)
  qed
  moreover have "trace_ok a b d (trace @ row)" by (rule trace_ok_append [OF assms(1)])
  ultimately show "trace_ok a b (Suc d) (trace @ take (2 * d + 1) (drop (m - d) v))"
    unfolding trace_ok_def row_def [symmetric] using len lr assms(2)
    by (auto simp: less_Suc_eq)
qed

lemma myers_levels_correct:
  assumes "myers_levels a b m d v trace = Some (fd, tr)" and "length v = 2 * m + 1"
    and "prev_cells a b d (int m) v" and "trace_ok a b d trace" and "length trace = d * d"
    and "\<And>e. e < d \<Longrightarrow> unfinished a b e"
  shows "fd \<le> m \<and> trace_ok a b fd tr \<and> (\<forall>e < fd. unfinished a b e) \<and>
    (\<exists>j. diagonal fd j \<and> finished a b j (reach_x a b fd j))"
  using assms
proof (induction a b m d v trace rule: myers_levels.induct)
  case (1 a b m d v trace)
  have le: "d \<le> m" using "1.prems"(1) by (subst (asm) myers_levels.simps) (auto split: if_splits)
  obtain v' found where row: "myers_row a b (int m) (int d) (- int d) v = (v', found)" by fastforce
  have rc: "length v' = 2 * m + 1 \<and> prev_cells a b d (int m) v' \<and>
    (\<not> found \<longrightarrow> level_cells a b d (int m) v' \<and> unfinished a b d) \<and>
    (found \<longrightarrow> (\<exists>j. diagonal d j \<and> finished a b j (reach_x a b d j)))"
    by (rule myers_row_correct [OF row refl le "1.prems"(2,3)]) (auto simp: diagonal_def)
  define trace' where "trace' = trace @ take (2 * d + 1) (drop (m - d) v')"
  have na: "\<not> abandon v' (int m) (int d)"
    using "1.prems"(1) le row by (subst (asm) myers_levels.simps) (auto split: if_splits)
  show ?case
  proof (cases found)
    case True
    then have "fd = d" "tr = trace'"
      using "1.prems"(1) le row na by (subst (asm) myers_levels.simps; simp add: trace'_def)+
    then show ?thesis using True rc le "1.prems"(4,6) trace_ok_append by (auto simp: trace'_def)
  next
    case False
    then have rec: "myers_levels a b m (Suc d) v' trace' = Some (fd, tr)"
      using "1.prems"(1) le row na by (subst (asm) myers_levels.simps) (simp add: trace'_def)
    have lc: "level_cells a b d (int m) v'" and un: "unfinished a b d" using rc False by simp_all
    note tk = trace_ok_Suc [OF "1.prems"(4,5) lc le conjunct1 [OF rc]]
    show ?thesis
    proof (rule "1.IH" [OF le row [symmetric] trace'_def na False rec conjunct1 [OF rc] _ tk [folded trace'_def]])
      show "prev_cells a b (Suc d) (int m) v'" using lc by (simp add: prev_cells_Suc)
      show "unfinished a b e" if "e < Suc d" for e using that un "1.prems"(6) by (auto simp: less_Suc_eq)
    qed
  qed
qed

section \<open>Backtracking\<close>

lemma unwind_steps:
  assumes "x - px \<le> y - py \<and> n = nat (x - px) \<or> y - py \<le> x - px \<and> n = nat (y - py)"
  shows "unwind px py x y ses = (x - int n, y - int n, ses @ replicate n 0)"
  using assms
proof (induction n arbitrary: x y ses)
  case 0
  then show ?case by (subst unwind.simps) auto
next
  case (Suc n)
  then have "x > px" "y > py" by auto
  moreover have "unwind px py (x - 1) (y - 1) (ses @ [0]) =
      (x - 1 - int n, y - 1 - int n, (ses @ [0]) @ replicate n 0)"
    using Suc.prems by (intro Suc.IH) auto
  ultimately show ?case by (subst unwind.simps) (simp add: replicate_append_same)
qed

lemma drop_nat_Cons: "0 \<le> x \<Longrightarrow> x < int (length a) \<Longrightarrow> drop (nat x) a = a ! nat x # drop (nat (x + 1)) a"
  by (simp add: nat_add_distrib Cons_nth_drop_Suc [symmetric])

text \<open>Prepending a run of equal bytes.\<close>

lemma script_keep_run:
  assumes "script_ok (drop (nat (x + int n)) a) (drop (nat (y + int n)) b) ses"
    and "0 \<le> x" and "0 \<le> y" and "x + int n \<le> int (length a)" and "y + int n \<le> int (length b)"
    and "\<And>i. x \<le> i \<Longrightarrow> i < x + int n \<Longrightarrow> a ! nat i = b ! nat (y + (i - x))"
  shows "script_ok (drop (nat x) a) (drop (nat y) b) (replicate n 0 @ ses)"
  using assms
proof (induction n arbitrary: x y)
  case (Suc n)
  have "script_ok (drop (nat (x + 1)) a) (drop (nat (y + 1)) b) (replicate n 0 @ ses)"
  proof (rule Suc.IH)
    show "a ! nat i = b ! nat (y + 1 + (i - (x + 1)))" if "x + 1 \<le> i" "i < x + 1 + int n" for i
      using Suc.prems(6) [of i] that by simp
  qed (use Suc.prems in \<open>simp_all add: algebra_simps\<close>)
  then show ?case
    using Suc.prems(2-5) Suc.prems(6) [of x] drop_nat_Cons [of x a] drop_nat_Cons [of y b] by simp
qed simp

text \<open>From a point of level \<open>d\<close> the trace leads back to the origin along \<open>d\<close> edits.\<close>

lemma script_run:
  assumes "snake a b x0 y0 = x0 + int n" and "0 \<le> x0" and "0 \<le> y0"
    and "x0 + int n \<le> int (length a)" and "y0 + int n \<le> int (length b)"
    and "script_ok (drop (nat (x0 + int n)) a) (drop (nat (y0 + int n)) b) r"
  shows "script_ok (drop (nat x0) a) (drop (nat y0) b) (replicate n 0 @ r)"
proof (rule script_keep_run [OF assms(6,2,3,4,5)])
  show "a ! nat i = b ! nat (y0 + (i - x0))" if "x0 \<le> i" "i < x0 + int n" for i
    using snake_props(4) [OF assms(1) that(1)] that(2) by simp
qed

text \<open>An edit in front of a script: an insertion when the path came from above, a deletion otherwise.\<close>

lemma script_edit:
  assumes "script_ok (drop (nat x0) a) (drop (nat y0) b) r" and "0 \<le> px" and "0 \<le> py"
    and "x0 = (if up then px else px + 1)" and "y0 = (if up then py + 1 else py)"
    and "x0 \<le> int (length a)" and "y0 \<le> int (length b)"
  shows "script_ok (drop (nat px) a) (drop (nat py) b) ((if up then 1 else -1) # r)"
proof (cases up)
  case True
  then have "drop (nat py) b = b ! nat py # drop (nat y0) b" using drop_nat_Cons [OF assms(3), of b] True assms(5,7) by simp
  then show ?thesis using True assms(1,4) by (simp del: drop_eq_Nil)
next
  case False
  then have "drop (nat px) a = a ! nat px # drop (nat x0) a" using drop_nat_Cons [OF assms(2), of a] False assms(4,6) by simp
  then show ?thesis using False assms(1,5) by (simp del: drop_eq_Nil)
qed

lemma backtrack_start:
  assumes "x = snake a b 0 0" and "x \<le> int (length a)" and "x \<le> int (length b)"
    and "script_ok (drop (nat x) a) (drop (nat x) b) (rev ses)"
  shows "\<exists>ses1. unwind 0 0 x x ses = (0, 0, ses1) \<and> script_ok a b (rev ses1) \<and> edits ses1 = edits ses"
proof -
  define n where "n = nat x"
  have n: "x = int n" using snake_ge [of 0 a b 0] assms(1) by (simp add: n_def)
  have u: "unwind 0 0 x x ses = (0, 0, ses @ replicate n 0)"
    using unwind_steps [of x 0 x 0 n ses] n by simp
  have "script_ok a b (replicate n 0 @ rev ses)"
    using script_run [of a b 0 0 n "rev ses"] assms(1) [symmetric] assms(2-4) unfolding n by simp
  then show ?thesis using u by (intro exI [of _ "ses @ replicate n 0"]) (simp add: edits_def)
qed

lemma backtrack_correct:
  assumes "trace_ok a b d trace" and "diagonal d (x - y)" and "x = reach_x a b d (x - y)"
    and "x \<le> int (length a)" and "y \<le> int (length b)"
    and "script_ok (drop (nat x) a) (drop (nat y) b) (rev ses)"
  shows "\<exists>x0 y0 ses0 ses1. backtrack trace d x y ses = (x0, y0, ses0) \<and>
    unwind 0 0 x0 y0 ses0 = (0, 0, ses1) \<and> script_ok a b (rev ses1) \<and> edits ses1 = edits ses + d"
  using assms
proof (induction d arbitrary: x y ses)
  case 0
  then have "x = y" "x = snake a b 0 0" by auto
  then show ?case using backtrack_start [of x a b ses] 0 by auto
next
  case (Suc e)
  define k where "k = x - y"
  define base where "base = int e * int e + int e"
  have dk: "diagonal (Suc e) k" and x: "x = reach_x a b (Suc e) k" using Suc.prems(2,3) by (simp_all add: k_def)
  have lc: "level_cells a b e base trace" and tr: "trace_ok a b e trace"
    using Suc.prems(1) square_mono [of e "Suc e"] by (auto simp: trace_ok_def base_def)
  define above where "above = from_above trace base (int (Suc e)) k"
  have fa: "above \<longleftrightarrow> k = - int (Suc e) \<or> (k \<noteq> int (Suc e) \<and> reach_x a b e (k - 1) < reach_x a b e (k + 1))"
    unfolding above_def by (rule from_above_start(2) [OF lc dk])
  define pk where "pk = (if above then k + 1 else k - 1)"
  define px where "px = trace ! nat (base + pk)"
  define py where "py = px - pk"
  have dpk: "diagonal e pk"
    using fa diagonal_Suc(1,2) [OF dk] by (auto simp: pk_def)
  have pxr: "px = reach_x a b e pk" using lc dpk by (simp add: px_def level_cells_def)
  have pn: "0 \<le> px" "0 \<le> py" using reach_nonneg [OF dpk, of a b] by (simp_all add: pxr py_def)
  define x0 where "x0 = (if above then px else px + 1)"
  define y0 where "y0 = x0 - k"
  have y0: "y0 = (if above then py + 1 else py)" by (simp add: y0_def x0_def py_def pk_def)
  have "start_x a b e k = x0" using fa by (simp add: start_x_def x0_def pxr pk_def)
  then have sn: "snake a b x0 y0 = x" using x by (simp add: reach_x_Suc y0_def)
  have ge: "x0 \<le> x" using snake_ge [of x0 a b y0] sn by simp
  define n where "n = nat (x - x0)"
  have n: "x = x0 + int n" "y = y0 + int n" using ge by (simp_all add: n_def y0_def k_def)
  have uw: "unwind px py x y ses = (x0, y0, ses @ replicate n 0)"
    using unwind_steps [of x px y py n ses] n unfolding y0 x0_def by (auto split: if_splits)
  have g0: "0 \<le> x0" "0 \<le> y0" using pn by (simp_all add: x0_def y0)
  have run: "script_ok (drop (nat x0) a) (drop (nat y0) b) (replicate n 0 @ rev ses)"
    using script_run [OF sn [unfolded n(1)] g0] Suc.prems(4-6) n by simp
  define s where "s = (if above then 1 else -1 :: int)"
  define ses' where "ses' = ses @ replicate n 0 @ [s]"
  have bt: "backtrack trace (Suc e) x y ses = backtrack trace e px py ses'"
    unfolding backtrack.simps Let_def base_def [symmetric] k_def [symmetric] above_def [symmetric]
      pk_def [symmetric] px_def [symmetric] py_def [symmetric] uw
    by (simp add: ses'_def s_def x0_def y0)
  have "x0 \<le> int (length a)" "y0 \<le> int (length b)" using n Suc.prems(4,5) by simp_all
  then have "script_ok (drop (nat px) a) (drop (nat py) b) (rev ses')"
    using script_edit [OF run pn x0_def y0] by (simp add: ses'_def s_def)
  moreover have "px \<le> int (length a)" "py \<le> int (length b)"
    using n Suc.prems(4,5) by (auto simp: x0_def y0 split: if_splits)
  moreover have "px - py = pk" by (simp add: py_def)
  ultimately obtain xa ya sa sb where "backtrack trace e px py ses' = (xa, ya, sa)"
      "unwind 0 0 xa ya sa = (0, 0, sb)" "script_ok a b (rev sb)" "edits sb = edits ses' + e"
    using Suc.IH [OF tr, of px py ses'] dpk pxr by auto
  moreover have "edits ses' = edits ses + 1"
    by (simp add: ses'_def s_def edits_def)
  ultimately show ?case using bt by auto
qed

section \<open>The result\<close>

lemma script_inserts: "script_ok [] b (replicate (length b) 1)"
  by (induction b) auto

lemma script_deletes: "script_ok a [] (replicate (length a) (-1))"
  by (induction a) auto

lemma script_lengths:
  "script_ok a b ses \<Longrightarrow> length a \<le> length b + edits ses \<and> length b \<le> length a + edits ses"
proof (induction ses arbitrary: a b)
  case (Cons s ses)
  consider (keep) "s = 0" "a \<noteq> []" "b \<noteq> []" "script_ok (tl a) (tl b) ses"
    | (del) "s = -1" "a \<noteq> []" "script_ok (tl a) b ses"
    | (ins) "s = 1" "b \<noteq> []" "script_ok a (tl b) ses"
    using Cons.prems by (auto split: if_splits)
  then show ?case
  proof cases
    case keep
    then show ?thesis using Cons.IH [of "tl a" "tl b"] by (cases a; cases b) auto
  next
    case del
    then show ?thesis using Cons.IH [of "tl a" b] by (cases a) auto
  next
    case ins
    then show ?thesis using Cons.IH [of a "tl b"] by (cases b) auto
  qed
qed simp

lemma myersSES_levels:
  assumes "myersSES a b lim = Some ses" and "a \<noteq> []" and "b \<noteq> []" and "1 \<le> lim"
  obtains d where "script_ok a b ses" and "edits ses = d" and "\<forall>e < d. unfinished a b e"
proof -
  define m where "m = min (length a + length b) lim"
  have m1: "1 \<le> m" using assms(2,4) by (cases a) (auto simp: m_def)
  obtain fd tr where lv: "myers_levels a b m 0 (replicate (2 * m + 1) 0) [] = Some (fd, tr)"
    and res: "(case backtrack tr fd (int (length a)) (int (length b)) [] of
      (x, y, s) \<Rightarrow> case unwind 0 0 x y s of (_, _, s') \<Rightarrow> rev s') = ses"
    using assms(1-3) by (auto simp: myersSES_def Let_def m_def split: option.splits prod.splits)
  have "prev_cells a b 0 (int m) (replicate (2 * m + 1) 0)"
    using m1 by (simp add: prev_cells_def nat_add_distrib del: replicate.simps)
  from myers_levels_correct [OF lv _ this]
  have fin: "trace_ok a b fd tr" "\<forall>e < fd. unfinished a b e"
    and "\<exists>j. diagonal fd j \<and> finished a b j (reach_x a b fd j)"
    by (simp_all add: trace_ok_def)
  then obtain j where j: "diagonal fd j" "finished a b j (reach_x a b fd j)" by blast
  have ex: "reach_x a b fd j = int (length a)" "j = int (length a) - int (length b)"
    using finished_exact [OF j] fin(2) by (auto simp: unfinished_def)
  obtain x0 y0 s0 s1 where "backtrack tr fd (int (length a)) (int (length b)) [] = (x0, y0, s0)"
    "unwind 0 0 x0 y0 s0 = (0, 0, s1)" "script_ok a b (rev s1)" "edits s1 = edits [] + fd"
    using backtrack_correct [OF fin(1), of "int (length a)" "int (length b)" "[]"] j(1) ex by auto
  then show thesis using that [of fd] res fin(2) by auto
qed

lemma myersSES_correct:
  assumes "myersSES a b lim = Some ses" and "1 \<le> lim"
  shows "script_ok a b ses" and "script_ok a b s' \<Longrightarrow> edits ses \<le> edits s'"
proof -
  consider (both) "a = []" "b = []" "ses = []" | (ins) "a = []" "b \<noteq> []" "ses = replicate (length b) 1"
    | (del) "a \<noteq> []" "b = []" "ses = replicate (length a) (-1)" | (search) "a \<noteq> []" "b \<noteq> []"
    using assms(1) by (auto simp: myersSES_def split: if_splits)
  then have "script_ok a b ses \<and> (script_ok a b s' \<longrightarrow> edits ses \<le> edits s')"
  proof cases
    case search
    obtain d where d: "script_ok a b ses" "edits ses = d" "\<forall>e < d. unfinished a b e"
      using myersSES_levels [OF assms(1) search assms(2)] .
    moreover have "\<not> edits s' < d" if "script_ok a b s'"
      using d(3) script_finished [OF that] by (auto simp: unfinished_def)
    ultimately show ?thesis by auto
  next
    case ins
    then show ?thesis using script_inserts [of b] script_lengths [of "[]" b s'] by (auto simp: edits_def)
  next
    case del
    then show ?thesis using script_deletes [of a] script_lengths [of a "[]" s'] by (auto simp: edits_def)
  qed simp
  then show "script_ok a b ses" and "script_ok a b s' \<Longrightarrow> edits ses \<le> edits s'" by blast+
qed

text \<open>The search gives up only past the first checkpoint or the limit.\<close>

lemma myers_levels_found:
  assumes "length v = 2 * m + 1" and "prev_cells a b d (int m) v" and "d \<le> e" and "e \<le> m"
    and "e < 256" and "\<not> unfinished a b e"
  shows "\<exists>r. myers_levels a b m d v trace = Some r"
  using assms
proof (induction a b m d v trace rule: myers_levels.induct)
  case (1 a b m d v trace)
  have le: "d \<le> m" using "1.prems"(3,4) by simp
  obtain v' found where row: "myers_row a b (int m) (int d) (- int d) v = (v', found)" by fastforce
  have rc: "length v' = 2 * m + 1 \<and> prev_cells a b d (int m) v' \<and>
    (\<not> found \<longrightarrow> level_cells a b d (int m) v' \<and> unfinished a b d) \<and>
    (found \<longrightarrow> (\<exists>j. diagonal d j \<and> finished a b j (reach_x a b d j)))"
    by (rule myers_row_correct [OF row refl le "1.prems"(1,2)]) (auto simp: diagonal_def)
  define trace' where "trace' = trace @ take (2 * d + 1) (drop (m - d) v')"
  have na: "\<not> abandon v' (int m) (int d)" using "1.prems"(3,5) by (auto simp: abandon_def)
  show ?case
  proof (cases found)
    case True
    then show ?thesis using le row na by (subst myers_levels.simps) simp
  next
    case False
    then have un: "unfinished a b d" and lc: "level_cells a b d (int m) v'" using rc by simp_all
    then have "d \<noteq> e" using "1.prems"(6) by auto
    then have "\<exists>r. myers_levels a b m (Suc d) v' trace' = Some r"
      using "1.prems" lc
      by (intro "1.IH" [OF le row [symmetric] trace'_def na False conjunct1 [OF rc]])
        (simp_all add: prev_cells_Suc)
    then show ?thesis using False le row na by (subst myers_levels.simps) (simp add: trace'_def)
  qed
qed

lemma myersSES_found:
  assumes "script_ok a b s" and "edits s < 256" and "edits s \<le> lim" and "1 \<le> lim"
  shows "\<exists>ses. myersSES a b lim = Some ses"
proof (cases "a = [] \<or> b = []")
  case False
  define m where "m = min (length a + length b) lim"
  have m1: "1 \<le> m" using assms(4) False by (cases a) (auto simp: m_def)
  have un: "\<not> unfinished a b (edits s)"
    using script_finished [OF assms(1)] by (auto simp: unfinished_def)
  have em: "edits s \<le> length a + length b"
  proof -
    have "script_ok a' b' s' \<Longrightarrow> edits s' \<le> length a' + length b'" for a' b' s'
    proof (induction s' arbitrary: a' b')
      case (Cons x s')
      consider (keep) "x = 0" "a' \<noteq> []" "b' \<noteq> []" "script_ok (tl a') (tl b') s'"
        | (del) "x = -1" "a' \<noteq> []" "script_ok (tl a') b' s'"
        | (ins) "x = 1" "b' \<noteq> []" "script_ok a' (tl b') s'"
        using Cons.prems by (auto split: if_splits)
      then show ?case
      proof cases
        case keep
        then show ?thesis using Cons.IH [of "tl a'" "tl b'"] by simp
      next
        case del
        then show ?thesis using Cons.IH [of "tl a'" b'] by (cases a') auto
      next
        case ins
        then show ?thesis using Cons.IH [of a' "tl b'"] by (cases b') auto
      qed
    qed simp
    then show ?thesis using assms(1) .
  qed
  have "prev_cells a b 0 (int m) (replicate (2 * m + 1) 0)"
    using m1 by (simp add: prev_cells_def nat_add_distrib del: replicate.simps)
  moreover have "edits s \<le> m" using assms(3) em by (simp add: m_def)
  moreover have "length (replicate (2 * m + 1) (0 :: int)) = 2 * m + 1" by simp
  ultimately obtain r where "myers_levels a b m 0 (replicate (2 * m + 1) 0) [] = Some r"
    using myers_levels_found [of "replicate (2 * m + 1) 0" m a b 0 "edits s" "[]"] un assms(2) by blast
  then show ?thesis using False by (cases r) (simp add: myersSES_def Let_def m_def split: prod.splits)
qed (auto simp: myersSES_def)

section \<open>Properties of the search\<close>

text \<open>C15 A script the search returns transforms the first chunk into the second, and no script that does
  has fewer edits, whatever the early-abandon test does.\<close>

theorem myers_shortest_script:
  assumes "myersSES a b lim = Some ses" and "1 \<le> lim"
  shows "script_ok a b ses \<and> (\<forall>s. script_ok a b s \<longrightarrow> edits ses \<le> edits s)"
  using myersSES_correct [OF assms] by blast

theorem myers_shortest_script_witness:
  "script_ok [1, 2, 3] [1, 4, 3, 5] [0, -1, 1, 0, 1] \<and>
   edits [0, -1, 1, 0, 1] \<le> edits [-1, 1, -1, 1, -1, 1, 1]"
proof -
  have "myersSES [1, 2, 3] [1, 4, 3, 5] 10 = Some [0, -1, 1, 0, 1]" by code_simp
  note m = myers_shortest_script [OF this]
  have "script_ok [1, 2, 3] [1, 4, 3, 5] [-1, 1, -1, 1, -1, 1, 1]" by simp
  with m show ?thesis by simp
qed

text \<open>C29 The search does not miss: chunks that fewer than 256 edits relate (and no more than the limit) are
  always answered with a script, so the greedy fallback is taken only for more distant chunks.\<close>

theorem myers_finds_near_scripts:
  assumes "script_ok a b s" and "edits s < 256" and "edits s \<le> lim" and "1 \<le> lim"
  shows "\<exists>ses. myersSES a b lim = Some ses"
  using myersSES_found [OF assms] .

theorem myers_finds_near_scripts_witness: "\<exists>ses. myersSES [1, 2] [2, 3] 2 = Some ses"
  by (rule myers_finds_near_scripts [of "[1, 2]" "[2, 3]" "[-1, 0, 1]"]) (simp_all add: edits_def)

end
