(* ===== verification/Delta_Diff.thy ===== *)
theory Delta_Diff
  imports Myers
begin

text \<open>
  Diffs between an old and a new chunk: the two ways the generator builds them (\<open>createDiff\<close> and the
  functions it calls in \<^verbatim>\<open>src/src/Delta.hpp\<close>), and the proof that the applier's opcode loop turns the
  old chunk into the new one with either.
\<close>

section \<open>Emission\<close>

function emitInlineBytes :: "bytes \<Rightarrow> byte \<Rightarrow> nat \<Rightarrow> bytes \<Rightarrow> nat \<Rightarrow> bytes" where
  "emitInlineBytes diff opc p bs off =
     (if off < length bs then
        let count = min 255 (length bs - off) in
        emitInlineBytes
          (push_u32_be (diff @ [opc]) (of_nat (p + off)) @ [of_nat count] @ take count (drop off bs))
          opc p bs (off + count)
      else diff)"
  by pat_completeness auto
termination by (relation "measure (\<lambda>(diff, opc, p, bs, off). length bs - off)") auto

declare emitInlineBytes.simps [simp del]

definition emitBlock :: "bytes \<Rightarrow> nat \<Rightarrow> nat \<Rightarrow> bytes \<Rightarrow> bytes" where
  "emitBlock diff p deletes inserts =
     (if deletes > 0 \<and> deletes = length inserts
      then emitInlineBytes diff op_D p inserts 0
      else let diff1 = (if deletes > 0
                        then push_u32_be (push_u32_be (diff @ [op_X]) (of_nat p)) (of_nat deletes)
                        else diff)
           in if inserts \<noteq> [] then emitInlineBytes diff1 op_I p inserts 0 else diff1)"

text \<open>The inner loop over a block of edits: deletions counted, inserted bytes collected, and the rest
  of the script with the new position.\<close>

fun take_block :: "bytes \<Rightarrow> int list \<Rightarrow> nat \<Rightarrow> nat \<Rightarrow> bytes \<Rightarrow> nat \<times> bytes \<times> int list \<times> nat" where
  "take_block new [] y deletes inserts = (deletes, inserts, [], y)"
| "take_block new (s # ses) y deletes inserts =
     (if s = 0 then (deletes, inserts, s # ses, y)
      else if s = -1 then take_block new ses y (deletes + 1) inserts
      else take_block new ses (y + 1) deletes (inserts @ [new ! y]))"

lemma take_block_shorter:
  "take_block new ses y d i = (d', i', rest, y') \<Longrightarrow> length rest \<le> length ses"
  by (induction new ses y d i rule: take_block.induct) (auto split: if_splits)

function emit_ses :: "bytes \<Rightarrow> int list \<Rightarrow> nat \<Rightarrow> bytes \<Rightarrow> bytes" where
  "emit_ses new [] y diff = diff"
| "emit_ses new (s # ses) y diff =
     (if s = 0 then emit_ses new ses (y + 1) diff
      else case take_block new (s # ses) y 0 [] of (deletes, inserts, rest, y') \<Rightarrow>
        emit_ses new rest y' (emitBlock diff y deletes inserts))"
  by pat_completeness auto
termination
  by (relation "measure (\<lambda>(new, ses, y, diff). length ses)")
    (auto split: if_splits dest!: take_block_shorter [OF sym])

definition emitOpcodesFromSES :: "bytes \<Rightarrow> int list \<Rightarrow> bytes" where
  "emitOpcodesFromSES new ses = emit_ses new ses 0 []"

section \<open>The greedy fallback\<close>

function skip_equal :: "bytes \<Rightarrow> bytes \<Rightarrow> nat \<Rightarrow> nat \<Rightarrow> nat \<times> nat" where
  "skip_equal old new i j =
     (if i < length old \<and> j < length new \<and> old ! i = new ! j
      then skip_equal old new (i + 1) (j + 1) else (i, j))"
  by pat_completeness auto
termination by (relation "measure (\<lambda>(old, new, i, j). length old - i)") auto

declare skip_equal.simps [simp del]

function take_unequal :: "bytes \<Rightarrow> bytes \<Rightarrow> nat \<Rightarrow> nat \<Rightarrow> bytes \<Rightarrow> nat \<times> nat \<times> bytes" where
  "take_unequal old new i j bs =
     (if i < length old \<and> j < length new \<and> old ! i \<noteq> new ! j \<and> length bs < 255
      then take_unequal old new (i + 1) (j + 1) (bs @ [new ! j]) else (i, j, bs))"
  by pat_completeness auto
termination by (relation "measure (\<lambda>(old, new, i, j, bs). length old - i)") auto

declare take_unequal.simps [simp del]

lemma skip_equal_le: "skip_equal old new i j = (i', j') \<Longrightarrow> i \<le> i' \<and> (i < length old \<and> j < length new \<and> old ! i = new ! j \<longrightarrow> i < i')"
proof (induction old new i j rule: skip_equal.induct)
  case (1 old new i j)
  then show ?case by (subst (asm) (2) skip_equal.simps) (fastforce split: if_splits)
qed

lemma take_unequal_le: "take_unequal old new i j bs = (i', j', bs') \<Longrightarrow>
    i \<le> i' \<and> (i < length old \<and> j < length new \<and> old ! i \<noteq> new ! j \<and> length bs < 255 \<longrightarrow> i < i')"
proof (induction old new i j bs rule: take_unequal.induct)
  case (1 old new i j bs)
  then show ?case by (subst (asm) (2) take_unequal.simps) (fastforce split: if_splits)
qed

lemma greedy_progress:
  assumes "skip_equal old new i j = (i1, j1)" and "take_unequal old new i1 j1 [] = (i2, j2, bs)"
    and "i < length old" and "j < length new"
  shows "i < i2"
proof (cases "old ! i = new ! j")
  case True
  then show ?thesis using skip_equal_le [OF assms(1)] take_unequal_le [OF assms(2)] assms(3,4) by simp
next
  case False
  then have "(i1, j1) = (i, j)" using assms(1) by (subst (asm) skip_equal.simps) simp
  then show ?thesis using take_unequal_le [OF assms(2)] assms(3,4) False by simp
qed

function greedy_loop :: "bytes \<Rightarrow> bytes \<Rightarrow> nat \<Rightarrow> nat \<Rightarrow> bytes \<Rightarrow> nat \<times> nat \<times> bytes" where
  "greedy_loop old new i j diff =
     (if i < length old \<and> j < length new then
        (case skip_equal old new i j of (i1, j1) \<Rightarrow>
         case take_unequal old new i1 j1 [] of (i2, j2, bs) \<Rightarrow>
           greedy_loop old new i2 j2
             (if bs \<noteq> [] then push_u32_be (diff @ [op_D]) (of_nat i1) @ [of_nat (length bs)] @ bs
              else diff))
      else (i, j, diff))"
  by pat_completeness auto
termination
  by (relation "measure (\<lambda>(old, new, i, j, diff). length old - i)")
    (auto intro!: diff_less_mono2 dest: greedy_progress [OF sym sym])

declare greedy_loop.simps [simp del]

function greedy_tail :: "bytes \<Rightarrow> nat \<Rightarrow> bytes \<Rightarrow> bytes" where
  "greedy_tail new j diff =
     (if j < length new then
        let count = min 255 (length new - j) in
        greedy_tail new (j + count)
          (push_u32_be (diff @ [op_I]) (of_nat j) @ [of_nat count] @ take count (drop j new))
      else diff)"
  by pat_completeness auto
termination by (relation "measure (\<lambda>(new, j, diff). length new - j)") auto

declare greedy_tail.simps [simp del]

definition createGreedyDiff :: "bytes \<Rightarrow> bytes \<Rightarrow> bytes" where
  "createGreedyDiff old new =
     (case greedy_loop old new 0 0 [] of (i, j, diff) \<Rightarrow>
        let diff1 = (if i < length old
                     then push_u32_be (push_u32_be (diff @ [op_X]) (of_nat i)) (of_nat (length old - i))
                     else diff)
        in greedy_tail new j diff1)"

definition D_LIMIT :: nat where
  "D_LIMIT = 2048"

definition createDiff :: "bytes \<Rightarrow> bytes \<Rightarrow> bytes" where
  "createDiff old new =
     (case myersSES old new D_LIMIT of
        Some ses \<Rightarrow> emitOpcodesFromSES new ses
      | None \<Rightarrow> createGreedyDiff old new)"

section \<open>What an emission is worth\<close>

definition encode_opcodes :: "DiffOpcode list \<Rightarrow> bytes" where
  "encode_opcodes cs = concat (map encode_opcode cs)"

lemma encode_opcodes_append [simp]: "encode_opcodes (cs @ ds) = encode_opcodes cs @ encode_opcodes ds"
  by (simp add: encode_opcodes_def)

lemma encode_opcodes_Nil_iff [simp]: "encode_opcodes cs = [] \<longleftrightarrow> cs = []"
  by (cases cs) (simp_all add: encode_opcodes_def encode_opcode_def)

text \<open>From \<open>diff\<close> to \<open>diff'\<close> valid opcodes were appended that take the applier from position
  \<open>(x, y)\<close> to \<open>(x', y')\<close>.\<close>

definition emits :: "bytes \<Rightarrow> bytes \<Rightarrow> bytes \<Rightarrow> bytes \<Rightarrow> nat \<times> nat \<Rightarrow> nat \<times> nat \<Rightarrow> bool" where
  "emits old new diff diff' p q \<longleftrightarrow>
     (\<exists>cs. diff' = diff @ encode_opcodes cs \<and> (\<forall>c \<in> set cs. valid_opcode c) \<and>
        (\<forall>st. in_step old new (fst p) (snd p) st \<longrightarrow>
           (\<exists>st'. apply_opcodes old (length new) cs st = Inr st' \<and> in_step old new (fst q) (snd q) st')))"

lemma emits_trans:
  assumes "emits old new d1 d2 p q" and "emits old new d2 d3 q r"
  shows "emits old new d1 d3 p r"
proof -
  obtain cs ds where cs: "d2 = d1 @ encode_opcodes cs" "\<forall>c \<in> set cs. valid_opcode c"
      "\<And>st. in_step old new (fst p) (snd p) st \<Longrightarrow>
           \<exists>st'. apply_opcodes old (length new) cs st = Inr st' \<and> in_step old new (fst q) (snd q) st'"
    and ds: "d3 = d2 @ encode_opcodes ds" "\<forall>c \<in> set ds. valid_opcode c"
      "\<And>st. in_step old new (fst q) (snd q) st \<Longrightarrow>
           \<exists>st'. apply_opcodes old (length new) ds st = Inr st' \<and> in_step old new (fst r) (snd r) st'"
    using assms unfolding emits_def by blast
  have "\<exists>st'. apply_opcodes old (length new) (cs @ ds) st = Inr st' \<and> in_step old new (fst r) (snd r) st'"
    if "in_step old new (fst p) (snd p) st" for st
    using cs(3) [OF that] ds(3) by (auto simp: apply_opcodes_append)
  then show ?thesis
    unfolding emits_def using cs(1,2) ds(1,2) by (intro exI [of _ "cs @ ds"]) auto
qed

lemma emits_refl: "emits old new d d p p"
  unfolding emits_def by (intro exI [of _ "[]"]) (simp add: encode_opcodes_def)

lemma emits_equal:
  assumes "x < length old" and "y < length new" and "old ! x = new ! y"
  shows "emits old new d d (x, y) (Suc x, Suc y)"
  unfolding emits_def using in_step_equal assms
  by (intro exI [of _ "[]"]) (simp add: encode_opcodes_def)

lemma emits_one:
  assumes "valid_opcode c" and "d' = d @ encode_opcode c"
    and "\<And>st. in_step old new x y st \<Longrightarrow>
      \<exists>st'. apply_opcode old (length new) c st = Inr st' \<and> in_step old new x' y' st'"
  shows "emits old new d d' (x, y) (x', y')"
  unfolding emits_def using assms
  by (intro exI [of _ "[c]"]) (fastforce simp: encode_opcodes_def)

lemma push_u32_be_out: "push_u32_be bs v = bs @ push_u32_be [] v"
  by (simp add: push_u32_be_def)

lemma emits_D:
  assumes "y + n \<le> length new" and "x + n \<le> length old" and "n \<le> 255" and "length new < 2 ^ 32"
    and "bs = take n (drop y new)" and "count = of_nat n"
  shows "emits old new d (push_u32_be (d @ [op_D]) (of_nat y) @ [count] @ bs) (x, y) (x + n, y + n)"
proof (rule emits_one)
  define c where "c = \<lparr>op = op_D, pos = of_nat y :: u32, delete_length = 0, payload = bs\<rparr>"
  have len: "length bs = n" using assms(1) assms(5) by simp
  show "valid_opcode c" using len assms(3) by (simp add: c_def valid_opcode_def is_diff_opcode_def)
  show "push_u32_be (d @ [op_D]) (of_nat y) @ [count] @ bs = d @ encode_opcode c"
    by (simp add: c_def encode_opcode_def len assms(6) push_u32_be_out [of "d @ [op_D]"])
  show "\<exists>st'. apply_opcode old (length new) c st = Inr st' \<and> in_step old new (x + n) (y + n) st'"
    if "in_step old new x y st" for st
    using apply_D that assms by (simp add: c_def)
qed

lemma emits_I:
  assumes "y + n \<le> length new" and "n \<le> 255" and "length new < 2 ^ 32"
    and "bs = take n (drop y new)" and "count = of_nat n"
  shows "emits old new d (push_u32_be (d @ [op_I]) (of_nat y) @ [count] @ bs) (x, y) (x, y + n)"
proof (rule emits_one)
  define c where "c = \<lparr>op = op_I, pos = of_nat y :: u32, delete_length = 0, payload = bs\<rparr>"
  have len: "length bs = n" using assms(1) assms(4) by simp
  show "valid_opcode c" using len assms(2) by (simp add: c_def valid_opcode_def is_diff_opcode_def)
  show "push_u32_be (d @ [op_I]) (of_nat y) @ [count] @ bs = d @ encode_opcode c"
    by (simp add: c_def encode_opcode_def len assms(5) push_u32_be_out [of "d @ [op_I]"])
  show "\<exists>st'. apply_opcode old (length new) c st = Inr st' \<and> in_step old new x (y + n) st'"
    if "in_step old new x y st" for st
    using apply_I that assms by (simp add: c_def)
qed

lemma emits_X:
  assumes "x + n \<le> length old" and "length new < 2 ^ 32" and "length old < 2 ^ 32"
  shows "emits old new d (push_u32_be (push_u32_be (d @ [op_X]) (of_nat y)) (of_nat n)) (x, y) (x + n, y)"
  by (rule emits_one [of "\<lparr>op = op_X, pos = of_nat y, delete_length = of_nat n, payload = []\<rparr>"])
    (use assms apply_X in \<open>auto simp: valid_opcode_def is_diff_opcode_def encode_opcode_def push_u32_be_def\<close>)

section \<open>Blocks of edits\<close>

lemma inline_emits:
  assumes "y + n \<le> length new" and "length new < 2 ^ 32" and "bs = take n (drop y new)" and "off \<le> n"
    and "opc = op_D \<and> x + n \<le> length old \<and> g = 1 \<or> opc = op_I \<and> g = 0"
  shows "emits old new diff (emitInlineBytes diff opc y bs off) (x + g * off, y + off) (x + g * n, y + n)"
  using assms(4)
proof (induction "n - off" arbitrary: off diff rule: less_induct)
  case less
  have lb: "length bs = n" using assms(1,3) by simp
  show ?case
  proof (cases "off < n")
    case False
    then show ?thesis using less.prems lb emits_refl by (subst emitInlineBytes.simps) simp
  next
    case True
    define c where "c = min 255 (n - off)"
    define diff' where "diff' = push_u32_be (diff @ [opc]) (of_nat (y + off)) @ [of_nat c] @ take c (drop off bs)"
    have c: "0 < c" "off + c \<le> n" "c \<le> 255" using True by (auto simp: c_def)
    have part: "take c (drop off bs) = take c (drop (y + off) new)"
      using c by (simp add: assms(3) drop_take add.commute)
    have one: "emits old new diff diff' (x + g * off, y + off) (x + g * (off + c), y + (off + c))"
      using assms(5)
    proof
      assume D: "opc = op_D \<and> x + n \<le> length old \<and> g = 1"
      then show ?thesis unfolding diff'_def
        using emits_D [of "y + off" c new "x + off" old _ _ diff] part c assms(1,2) by (simp add: add.assoc)
    next
      assume I: "opc = op_I \<and> g = 0"
      then show ?thesis unfolding diff'_def
        using emits_I [of "y + off" c new _ _ old diff x] part c assms(1,2) by (simp add: add.assoc)
    qed
    have "emitInlineBytes diff opc y bs off = emitInlineBytes diff' opc y bs (off + c)"
      using True lb by (subst emitInlineBytes.simps) (simp add: Let_def c_def diff'_def)
    moreover have "n - (off + c) < n - off" using c True by simp
    ultimately show ?thesis
      using emits_trans [OF one less.hyps [of "off + c" diff']] c by simp
  qed
qed

lemma emitBlock_emits:
  assumes "x + del \<le> length old" and "y + length ins \<le> length new"
    and "length new < 2 ^ 32" and "length old < 2 ^ 32" and "ins = take (length ins) (drop y new)"
  shows "emits old new diff (emitBlock diff y del ins) (x, y) (x + del, y + length ins)"
proof (cases "del > 0 \<and> del = length ins")
  case True
  have "emits old new diff (emitInlineBytes diff op_D y ins 0) (x, y) (x + length ins, y + length ins)"
    using inline_emits [of y "length ins" new ins 0 op_D x old 1 diff] assms True by simp
  moreover have "emitBlock diff y del ins = emitInlineBytes diff op_D y ins 0"
    unfolding emitBlock_def by (rule if_P [OF True])
  ultimately show ?thesis using True by simp
next
  case False
  define d1 where "d1 = (if del > 0 then push_u32_be (push_u32_be (diff @ [op_X]) (of_nat y)) (of_nat del) else diff)"
  have 1: "emits old new diff d1 (x, y) (x + del, y)"
    unfolding d1_def using emits_X [OF assms(1,3,4)] emits_refl by simp
  have 2: "emits old new d1 (if ins \<noteq> [] then emitInlineBytes d1 op_I y ins 0 else d1)
      (x + del, y) (x + del, y + length ins)"
    using inline_emits [of y "length ins" new ins 0 op_I "x + del" old 0 d1] assms emits_refl by simp
  have 3: "emitBlock diff y del ins = (if ins \<noteq> [] then emitInlineBytes d1 op_I y ins 0 else d1)"
    unfolding emitBlock_def d1_def Let_def using False by (simp only: if_False)
  show ?thesis unfolding 3 by (rule emits_trans [OF 1 2])
qed

lemma hd_tl_drop:
  shows "drop x xs \<noteq> [] \<longleftrightarrow> x < length xs" and "drop x xs \<noteq> [] \<Longrightarrow> hd (drop x xs) = xs ! x"
    and "tl (drop x xs) = drop (Suc x) xs"
proof -
  show "drop x xs \<noteq> [] \<longleftrightarrow> x < length xs" by (simp add: not_le)
  then show "drop x xs \<noteq> [] \<Longrightarrow> hd (drop x xs) = xs ! x" by (simp add: hd_drop_conv_nth)
  show "tl (drop x xs) = drop (Suc x) xs" by (simp only: drop_Suc tl_drop)
qed

lemma script_head:
  assumes "script_ok (drop x old) (drop y new) (s # ses)"
  shows "s = 0 \<Longrightarrow> x < length old \<and> y < length new \<and> old ! x = new ! y \<and>
      script_ok (drop (Suc x) old) (drop (Suc y) new) ses"
    and "s \<noteq> 0 \<Longrightarrow> s = -1 \<Longrightarrow> x < length old \<and> script_ok (drop (Suc x) old) (drop y new) ses"
    and "s \<noteq> 0 \<Longrightarrow> s \<noteq> -1 \<Longrightarrow> y < length new \<and> script_ok (drop x old) (drop (Suc y) new) ses"
proof -
  note sc = assms [unfolded script_ok.simps hd_tl_drop(3)]
  show "x < length old \<and> y < length new \<and> old ! x = new ! y \<and>
      script_ok (drop (Suc x) old) (drop (Suc y) new) ses" if "s = 0"
    using sc that hd_tl_drop(1,2) [of x old] hd_tl_drop(1,2) [of y new] by (simp only: if_True simp_thms)
  show "x < length old \<and> script_ok (drop (Suc x) old) (drop y new) ses" if "s \<noteq> 0" "s = -1"
    using sc that hd_tl_drop(1) [of x old] by (simp only: if_True if_False)
  show "y < length new \<and> script_ok (drop x old) (drop (Suc y) new) ses" if "s \<noteq> 0" "s \<noteq> -1"
    using sc that hd_tl_drop(1) [of y new] by (simp only: if_False split: if_splits)
qed

lemma take_block_script:
  assumes "take_block new ses y del ins = (del', ins', rest, y')"
    and "script_ok (drop x old) (drop y new) ses" and "x \<le> length old" and "y \<le> length new"
  shows "del \<le> del' \<and> y \<le> y' \<and> x + (del' - del) \<le> length old \<and> y' \<le> length new \<and>
    ins' = ins @ take (y' - y) (drop y new) \<and>
    script_ok (drop (x + (del' - del)) old) (drop y' new) rest"
  using assms
proof (induction new ses y del ins arbitrary: x rule: take_block.induct)
  case (2 new s ses y del ins)
  show ?case
  proof (cases "s = 0")
    case True
    then show ?thesis using "2.prems" by simp
  next
    case s0: False
    show ?thesis
    proof (cases "s = -1")
      case True
      have h: "x < length old" "script_ok (drop (Suc x) old) (drop y new) ses"
        using script_head(2) [OF "2.prems"(2) s0 True] by simp_all
      have "take_block new ses y (del + 1) ins = (del', ins', rest, y')" using "2.prems"(1) True by simp
      then have "del + 1 \<le> del' \<and> y \<le> y' \<and> Suc x + (del' - (del + 1)) \<le> length old \<and> y' \<le> length new \<and>
        ins' = ins @ take (y' - y) (drop y new) \<and>
        script_ok (drop (Suc x + (del' - (del + 1))) old) (drop y' new) rest"
        by (rule "2.IH"(1) [OF s0 True _ h(2)]) (use h(1) "2.prems"(4) in simp_all)
      then have r: "del + 1 \<le> del'" "y \<le> y'" "Suc x + (del' - (del + 1)) \<le> length old" "y' \<le> length new"
        "ins' = ins @ take (y' - y) (drop y new)"
        "script_ok (drop (Suc x + (del' - (del + 1))) old) (drop y' new) rest" by blast+
      have e: "Suc x + (del' - (del + 1)) = x + (del' - del)" using r(1) by simp
      show ?thesis using r(1,2,4,5) r(3,6) [unfolded e] by simp
    next
      case False
      have h: "y < length new" "script_ok (drop x old) (drop (Suc y) new) ses"
        using script_head(3) [OF "2.prems"(2) s0 False] by simp_all
      have "take_block new ses (y + 1) del (ins @ [new ! y]) = (del', ins', rest, y')"
        using "2.prems"(1) s0 False by simp
      then have r: "del \<le> del' \<and> y + 1 \<le> y' \<and> x + (del' - del) \<le> length old \<and> y' \<le> length new \<and>
        ins' = (ins @ [new ! y]) @ take (y' - (y + 1)) (drop (y + 1) new) \<and>
        script_ok (drop (x + (del' - del)) old) (drop y' new) rest"
        by (rule "2.IH"(2) [OF s0 False]) (use h "2.prems"(3) in simp_all)
      then have "y' - y = Suc (y' - (y + 1))" by linarith
      then have "take (y' - y) (drop y new) = new ! y # take (y' - (y + 1)) (drop (y + 1) new)"
        using nth_drop_Cons [OF h(1)] by simp
      then show ?thesis using r by (simp del: diff_diff_left Nat.add_diff_assoc Nat.diff_add_assoc)
    qed
  qed
qed simp

lemma emit_ses_emits:
  assumes "script_ok (drop x old) (drop y new) ses" and "x \<le> length old" and "y \<le> length new"
    and "length new < 2 ^ 32" and "length old < 2 ^ 32"
  shows "emits old new diff (emit_ses new ses y diff) (x, y) (length old, length new)"
  using assms(1-3)
proof (induction "length ses" arbitrary: ses x y diff rule: less_induct)
  case less
  show ?case
  proof (cases ses)
    case Nil
    then show ?thesis using less.prems emits_refl by simp
  next
    case (Cons s ss)
    show ?thesis
    proof (cases "s = 0")
      case True
      have h: "x < length old" "y < length new" "old ! x = new ! y"
          "script_ok (drop (Suc x) old) (drop (Suc y) new) ss"
        using script_head(1) [OF less.prems(1) [unfolded Cons] True] by simp_all
      have "emits old new diff (emit_ses new ss (Suc y) diff) (Suc x, Suc y) (length old, length new)"
        using h by (intro less.hyps) (simp_all add: Cons)
      with emits_trans [OF emits_equal [OF h(1-3)]] show ?thesis by (simp add: Cons True)
    next
      case False
      obtain del ins rest y' where tb: "take_block new (s # ss) y 0 [] = (del, ins, rest, y')"
        by (metis prod_cases4)
      note ts = take_block_script [OF tb less.prems(1) [unfolded Cons] less.prems(2,3), simplified]
      have "length rest \<le> length ss"
        using tb False by (auto split: if_splits dest: take_block_shorter)
      then have IH: "emits old new d (emit_ses new rest y' d) (x + del, y') (length old, length new)" for d
        using ts by (intro less.hyps) (simp_all add: Cons)
      have "y' - y \<le> length (drop y new)" using ts by (simp add: diff_le_mono)
      then have "length (take (y' - y) (drop y new)) = y' - y" by (simp only: length_take min_absorb2)
      then have li: "length ins = y' - y" using ts by metis
      then have "y' = y + length ins" using ts by simp
      then have "emits old new diff (emitBlock diff y del ins) (x, y) (x + del, y')"
        using emitBlock_emits [of x del old y ins new diff] ts li assms(4,5) by simp
      from emits_trans [OF this IH] show ?thesis using False tb by (simp add: Cons del: take_block.simps)
    qed
  qed
qed

section \<open>The greedy diff\<close>

lemma skip_equal_emits:
  assumes "skip_equal old new i j = (i', j')"
  shows "emits old new d d (i, j) (i', j')"
  using assms
proof (induction old new i j rule: skip_equal.induct)
  case (1 old new i j)
  show ?case
  proof (cases "i < length old \<and> j < length new \<and> old ! i = new ! j")
    case True
    then have "skip_equal old new (i + 1) (j + 1) = (i', j')" using "1.prems" by (subst (asm) skip_equal.simps) simp
    from emits_trans [OF emits_equal "1.IH" [OF True this, simplified]] True show ?thesis by blast
  next
    case False
    then show ?thesis using "1.prems" emits_refl by (subst (asm) skip_equal.simps) auto
  qed
qed

lemma take_unequal_bytes:
  assumes "take_unequal old new i j bs = (i', j', bs')" and "i \<le> length old" and "j \<le> length new" and "length bs \<le> 255"
  shows "\<exists>n. i' = i + n \<and> j' = j + n \<and> bs' = bs @ take n (drop j new) \<and> i' \<le> length old \<and> j' \<le> length new \<and>
    length bs' \<le> 255"
  using assms
proof (induction old new i j bs rule: take_unequal.induct)
  case (1 old new i j bs)
  show ?case
  proof (cases "i < length old \<and> j < length new \<and> old ! i \<noteq> new ! j \<and> length bs < 255")
    case True
    then have "take_unequal old new (i + 1) (j + 1) (bs @ [new ! j]) = (i', j', bs')"
      using "1.prems"(1) by (subst (asm) take_unequal.simps) simp
    from "1.IH" [OF True this] True obtain n where n: "i' = i + 1 + n" "j' = j + 1 + n"
      "bs' = (bs @ [new ! j]) @ take n (drop (j + 1) new)" "i' \<le> length old" "j' \<le> length new" "length bs' \<le> 255"
      by auto
    then show ?thesis using True nth_drop_Cons [of j new] by (intro exI [of _ "Suc n"]) simp
  next
    case False
    then show ?thesis using "1.prems" by (intro exI [of _ 0]) (subst (asm) take_unequal.simps, auto)
  qed
qed

lemma skip_equal_bounds:
  "skip_equal old new i j = (i', j') \<Longrightarrow> i \<le> length old \<Longrightarrow> j \<le> length new \<Longrightarrow> i = j \<Longrightarrow>
    i' \<le> length old \<and> j' \<le> length new \<and> i' = j'"
proof (induction old new i j rule: skip_equal.induct)
  case (1 old new i j)
  then show ?case by (subst (asm) (2) skip_equal.simps) (fastforce split: if_splits)
qed

lemma greedy_loop_emits:
  assumes "greedy_loop old new i j diff = (i', j', diff')" and "i \<le> length old" and "j \<le> length new" and "i = j"
    and "length new < 2 ^ 32"
  shows "emits old new diff diff' (i, j) (i', j') \<and> i' \<le> length old \<and> j' \<le> length new \<and> i' = j' \<and>
    (i' = length old \<or> j' = length new)"
  using assms(1-4)
proof (induction "length old - i" arbitrary: i j diff rule: less_induct)
  case less
  show ?case
  proof (cases "i < length old \<and> j < length new")
    case False
    then show ?thesis using less.prems emits_refl by (subst (asm) greedy_loop.simps) auto
  next
    case True
    obtain i1 j1 where s: "skip_equal old new i j = (i1, j1)" by fastforce
    obtain i2 j2 bs where t: "take_unequal old new i1 j1 [] = (i2, j2, bs)" by (metis prod_cases3)
    define d1 where "d1 = (if bs \<noteq> [] then push_u32_be (diff @ [op_D]) (of_nat i1) @ [of_nat (length bs)] @ bs else diff)"
    have rec: "greedy_loop old new i2 j2 d1 = (i', j', diff')"
      using less.prems(1) True s t by (subst (asm) greedy_loop.simps) (simp add: d1_def)
    have b1: "i1 \<le> length old" "j1 \<le> length new" "i1 = j1"
      using skip_equal_bounds [OF s] less.prems by simp_all
    obtain n where n: "i2 = i1 + n" "j2 = j1 + n" "bs = take n (drop j1 new)" "i2 \<le> length old"
        "j2 \<le> length new" "length bs \<le> 255"
      using take_unequal_bytes [OF t b1(1,2)] by auto
    then have ln: "length bs = n" by simp
    have "emits old new diff d1 (i1, j1) (i2, j2)"
    proof (cases "bs = []")
      case True
      then have "n = 0" using ln by simp
      then show ?thesis using True n(1,2) emits_refl by (simp add: d1_def)
    next
      case False
      have "emits old new diff (push_u32_be (diff @ [op_D]) (of_nat j1) @ [of_nat n] @ bs) (i1, j1) (i1 + n, j1 + n)"
        by (rule emits_D) (use n ln b1 assms(5) in simp_all)
      then show ?thesis using False n ln b1(3) by (simp add: d1_def)
    qed
    then have "emits old new diff d1 (i, j) (i2, j2)" using emits_trans [OF skip_equal_emits [OF s]] by blast
    moreover have "i < i2" using greedy_progress [OF s t] True by simp
    then have "length old - i2 < length old - i" using True by linarith
    ultimately show ?thesis using less.hyps [OF _ rec n(4,5)] n b1(3) emits_trans by blast
  qed
qed

lemma greedy_tail_emits:
  assumes "length new < 2 ^ 32" and "j \<le> length new"
  shows "emits old new diff (greedy_tail new j diff) (x, j) (x, length new)"
  using assms(2)
proof (induction "length new - j" arbitrary: j diff rule: less_induct)
  case less
  show ?case
  proof (cases "j < length new")
    case False
    then show ?thesis using less.prems emits_refl by (subst greedy_tail.simps) simp
  next
    case True
    define c where "c = min 255 (length new - j)"
    define d1 where "d1 = push_u32_be (diff @ [op_I]) (of_nat j) @ [of_nat c] @ take c (drop j new)"
    have c: "0 < c" "j + c \<le> length new" "c \<le> 255" using True by (auto simp: c_def)
    have 1: "emits old new diff d1 (x, j) (x, j + c)"
      unfolding d1_def by (rule emits_I) (use c assms in simp_all)
    have 2: "emits old new d1 (greedy_tail new (j + c) d1) (x, j + c) (x, length new)"
      using c True by (intro less.hyps) simp_all
    have 3: "greedy_tail new j diff = greedy_tail new (j + c) d1"
      using True by (subst greedy_tail.simps) (simp add: Let_def c_def d1_def)
    show ?thesis unfolding 3 by (rule emits_trans [OF 1 2])
  qed
qed

lemma createGreedyDiff_emits:
  assumes "length new < 2 ^ 32" and "length old < 2 ^ 32"
  shows "emits old new [] (createGreedyDiff old new) (0, 0) (length old, length new)"
proof -
  obtain i j diff where g: "greedy_loop old new 0 0 [] = (i, j, diff)" by (metis prod_cases3)
  have gl: "emits old new [] diff (0, 0) (i, j)" "i \<le> length old" "j \<le> length new" "i = j"
    using greedy_loop_emits [OF g _ _ _ assms(1)] by blast+
  define d1 where "d1 = (if i < length old
      then push_u32_be (push_u32_be (diff @ [op_X]) (of_nat i)) (of_nat (length old - i)) else diff)"
  note ij = gl(4)
  have "emits old new diff d1 (i, j) (length old, j)"
  proof (cases "i < length old")
    case True
    then show ?thesis using emits_X [of i "length old - i" old new diff j] assms ij by (simp add: d1_def)
  next
    case False
    then show ?thesis using gl(2) emits_refl by (simp add: d1_def)
  qed
  from emits_trans [OF gl(1) this] greedy_tail_emits [OF assms(1) gl(3), of old d1 "length old"]
  have "emits old new [] (greedy_tail new j d1) (0, 0) (length old, length new)" by (rule emits_trans)
  then show ?thesis using g by (simp add: createGreedyDiff_def d1_def)
qed

section \<open>Both diffs are correct\<close>

lemma createDiff_emits:
  assumes "length new < 2 ^ 32" and "length old < 2 ^ 32"
  shows "emits old new [] (createDiff old new) (0, 0) (length old, length new)"
proof (cases "myersSES old new D_LIMIT")
  case None
  then show ?thesis using createGreedyDiff_emits [OF assms] by (simp add: createDiff_def)
next
  case (Some ses)
  have "script_ok old new ses"
    using myersSES_correct(1) [OF Some] by (simp add: D_LIMIT_def)
  then show ?thesis
    using emit_ses_emits [of 0 old 0 new ses "[]"] assms Some by (simp add: createDiff_def emitOpcodesFromSES_def)
qed

lemma emits_applies:
  assumes "emits old new [] diff (0, 0) (length old, length new)"
  obtains cs st where "diff = encode_opcodes cs" and "\<forall>c \<in> set cs. valid_opcode c"
    and "apply_opcodes old (length new) cs diff_start = Inr st" and "diff_tail old (length new) st = Inr new"
  using assms in_step_start [of old new] diff_tail_in_step unfolding emits_def by fastforce

end
