(* ===== verification/Hash_Concepts.thy ===== *)
theory Hash_Concepts
  imports Delta_Format
begin

text \<open>
  The two hash concepts of \<^verbatim>\<open>src/src/HashConcepts.hpp\<close>.  A template argument that satisfies a
  concept becomes a record of the operations the concept names.  An operation that may throw
  returns a sum, the message of the exception on the left.  The rolling hash has a locale, which
  the theory \<open>RK_Finger\<close> interprets; the strong hash is third-party code behind a wrapper, so what
  it promises is a named hypothesis, \<open>strong_hash_sound\<close>.
\<close>

section \<open>Exceptions\<close>

definition bind_sum :: "'e + 'a \<Rightarrow> ('a \<Rightarrow> 'e + 'b) \<Rightarrow> 'e + 'b" where
  "bind_sum m f = (case m of Inl e \<Rightarrow> Inl e | Inr x \<Rightarrow> f x)"

lemma bind_sum_simps [simp]: "bind_sum (Inl e) f = Inl e" "bind_sum (Inr x) f = f x"
  by (simp_all add: bind_sum_def)

lemma bind_sum_Inr: "bind_sum m f = Inr y \<longleftrightarrow> (\<exists>x. m = Inr x \<and> f x = Inr y)"
  by (cases m) simp_all

text \<open>
  An operation of the pipeline ends with a result, with a failure it returns, or with an exception
  from the hash backend; in each case the objects it worked on are left in some state, which the
  destructors then see.  \<open>proceed\<close> runs the next step if there is a result.
\<close>

datatype failure = Thrown string | Failed DeltaError

definition proceed ::
  "(failure, 'a, 's) outcome \<Rightarrow> ('a \<Rightarrow> 's \<Rightarrow> (failure, 'b, 's) outcome) \<Rightarrow> (failure, 'b, 's) outcome" where
  "proceed r k = (case r of (Inl e, s) \<Rightarrow> (Inl e, s) | (Inr x, s) \<Rightarrow> k x s)"

lemma proceed_simps [simp]:
  "proceed (Inl e, s) k = (Inl e, s)" "proceed (Inr x, s) k = k x s"
  by (simp_all add: proceed_def)

lemma proceed_Inr: "proceed r k = (Inr y, s) \<longleftrightarrow> (\<exists>x t. r = (Inr x, t) \<and> k x t = (Inr y, s))"
  by (auto simp: proceed_def split: prod.splits sum.splits)

section \<open>Strong hashes\<close>

record 'u strong_hash =
  sh_new :: "string + 'u"
  sh_size :: nat
  sh_init :: "'u \<Rightarrow> string + 'u"
  sh_update :: "bytes \<Rightarrow> 'u \<Rightarrow> string + 'u"
  sh_finalize :: "bytes \<Rightarrow> 'u \<Rightarrow> string + (bytes \<times> 'u)"
  sh_hash :: "bytes \<Rightarrow> bytes \<Rightarrow> 'u \<Rightarrow> string + (bytes \<times> 'u)"

text \<open>The default one-shot form: the output buffer after the call, and the hash object.\<close>

definition hash_oneshot ::
  "nat \<Rightarrow> ('u \<Rightarrow> string + 'u) \<Rightarrow> (bytes \<Rightarrow> 'u \<Rightarrow> string + 'u) \<Rightarrow>
   (bytes \<Rightarrow> 'u \<Rightarrow> string + (bytes \<times> 'u)) \<Rightarrow> bytes \<Rightarrow> bytes \<Rightarrow> 'u \<Rightarrow> string + (bytes \<times> 'u)" where
  "hash_oneshot digest_size init update finalize out input u =
     (if length out < digest_size then Inr (out, u)
      else bind_sum (init u) (\<lambda>u1. bind_sum (update input u1) (\<lambda>u2. finalize out u2)))"

text \<open>
  What the pipeline relies on.  \<open>D\<close> is the digest as a function of the whole message, \<open>msg\<close> the
  message a hash object has been fed since its last initialisation.  The operations may throw;
  \<open>strong_hash_sound\<close> says what they did when they return, \<open>strong_hash_total\<close> that they return on a live object, an object that is not moved from.
\<close>

definition strong_hash_sound :: "'u strong_hash \<Rightarrow> (bytes \<Rightarrow> bytes) \<Rightarrow> ('u \<Rightarrow> bytes option) \<Rightarrow> bool" where
  "strong_hash_sound U D msg \<longleftrightarrow>
     (\<forall>m. length (D m) = sh_size U) \<and>
     (\<forall>u u'. sh_init U u = Inr u' \<longrightarrow> msg u' = Some []) \<and>
     (\<forall>u m d u'. msg u = Some m \<longrightarrow> sh_update U d u = Inr u' \<longrightarrow> msg u' = Some (m @ d)) \<and>
     (\<forall>u m dst dst' u'. msg u = Some m \<longrightarrow> sh_size U \<le> length dst \<longrightarrow>
        sh_finalize U dst u = Inr (dst', u') \<longrightarrow> dst' = D m @ drop (sh_size U) dst) \<and>
     (\<forall>u d dst dst' u'. sh_size U \<le> length dst \<longrightarrow>
        sh_hash U dst d u = Inr (dst', u') \<longrightarrow> dst' = D d @ drop (sh_size U) dst)"

definition strong_hash_total ::
  "'u strong_hash \<Rightarrow> ('u \<Rightarrow> bytes option) \<Rightarrow> ('u \<Rightarrow> bool) \<Rightarrow> bool" where
  "strong_hash_total U msg live \<longleftrightarrow>
     (\<exists>u. sh_new U = Inr u \<and> live u) \<and>
     (\<forall>u. live u \<longrightarrow> (\<exists>u'. sh_init U u = Inr u' \<and> live u')) \<and>
     (\<forall>u m d. live u \<longrightarrow> msg u = Some m \<longrightarrow> (\<exists>u'. sh_update U d u = Inr u' \<and> live u')) \<and>
     (\<forall>u m dst. live u \<longrightarrow> msg u = Some m \<longrightarrow> (\<exists>r u'. sh_finalize U dst u = Inr (r, u') \<and> live u')) \<and>
     (\<forall>u d dst. live u \<longrightarrow> (\<exists>r u'. sh_hash U dst d u = Inr (r, u') \<and> live u'))"

definition digest_buffer :: "'u strong_hash \<Rightarrow> bytes" where
  "digest_buffer U = replicate (sh_size U) 0"

lemma strong_hash_soundD:
  assumes "strong_hash_sound U D msg"
  shows "length (D m) = sh_size U"
    and "sh_init U u = Inr u' \<Longrightarrow> msg u' = Some []"
    and "msg u = Some m \<Longrightarrow> sh_update U d u = Inr u' \<Longrightarrow> msg u' = Some (m @ d)"
    and "msg u = Some m \<Longrightarrow> sh_finalize U (digest_buffer U) u = Inr (dst, u') \<Longrightarrow> dst = D m"
    and "sh_hash U (digest_buffer U) d u = Inr (dst, u') \<Longrightarrow> dst = D d"
proof -
  note ok = assms [unfolded strong_hash_sound_def]
  have buf: "sh_size U \<le> length (digest_buffer U)" "drop (sh_size U) (digest_buffer U) = []"
    by (simp_all add: digest_buffer_def)
  show "length (D m) = sh_size U" and "sh_init U u = Inr u' \<Longrightarrow> msg u' = Some []"
    and "msg u = Some m \<Longrightarrow> sh_update U d u = Inr u' \<Longrightarrow> msg u' = Some (m @ d)"
    using ok by blast+
  show "dst = D m" if "msg u = Some m" "sh_finalize U (digest_buffer U) u = Inr (dst, u')"
    using ok that buf by (metis append_Nil2)
  show "dst = D d" if "sh_hash U (digest_buffer U) d u = Inr (dst, u')"
    using ok that buf by (metis append_Nil2)
qed

lemma strong_hash_totalD:
  assumes "strong_hash_total U msg live"
  shows "\<exists>u. sh_new U = Inr u \<and> live u" and "live u \<Longrightarrow> \<exists>u'. sh_init U u = Inr u' \<and> live u'"
    and "live u \<Longrightarrow> msg u = Some m \<Longrightarrow> \<exists>u'. sh_update U d u = Inr u' \<and> live u'"
    and "live u \<Longrightarrow> msg u = Some m \<Longrightarrow> \<exists>dst' u'. sh_finalize U dst u = Inr (dst', u') \<and> live u'"
    and "live u \<Longrightarrow> \<exists>dst' u'. sh_hash U dst d u = Inr (dst', u') \<and> live u'"
  using assms unfolding strong_hash_total_def by blast+

section \<open>Rolling hashes\<close>

record 't rolling_hash =
  rh_new :: 't
  rh_initialize :: "bytes \<Rightarrow> 't \<Rightarrow> bool \<times> 't"
  rh_next :: "byte \<Rightarrow> 't \<Rightarrow> u64 \<times> 't"
  rh_current :: "'t \<Rightarrow> u64"
  rh_window :: "'t \<Rightarrow> nat"
  rh_alphabet :: "'t \<Rightarrow> nat"

text \<open>Feeding a list of bytes, one \<open>compute_next\<close> each.\<close>

fun roll :: "'t rolling_hash \<Rightarrow> bytes \<Rightarrow> 't \<Rightarrow> 't" where
  "roll T [] t = t"
| "roll T (b # bs) t = roll T bs (snd (rh_next T b t))"

text \<open>The last \<open>w\<close> bytes of a list.\<close>

definition last_bytes :: "nat \<Rightarrow> bytes \<Rightarrow> bytes" where
  "last_bytes w bs = drop (length bs - w) bs"

lemma last_bytes_snoc: "length bs = w \<Longrightarrow> 0 < w \<Longrightarrow> last_bytes w (bs @ [b]) = tl bs @ [b]"
  by (cases bs) (auto simp: last_bytes_def)

text \<open>
  The contract: a fingerprint is a function \<open>hv\<close> of the bytes in its window; \<open>initialize\<close> fills the
  window, \<open>compute_next\<close> drops the oldest byte and appends the new one.  \<open>sound t\<close> says the object
  is usable, \<open>holds t ws\<close> that its window is full and contains \<open>ws\<close>, oldest byte first.
\<close>

locale rolling_fingerprint =
  fixes T :: "'t rolling_hash"
    and w :: nat
    and hv :: "bytes \<Rightarrow> u64"
    and sound :: "'t \<Rightarrow> bool"
    and holds :: "'t \<Rightarrow> bytes \<Rightarrow> bool"
  assumes window_pos: "0 < w"
    and new_sound: "sound (rh_new T)"
    and window_size: "sound t \<Longrightarrow> rh_window T t = w"
    and initialize: "sound t \<Longrightarrow> rh_initialize T bs t = (full, t') \<Longrightarrow>
      sound t' \<and> (full \<longleftrightarrow> w \<le> length bs) \<and> (full \<longrightarrow> holds t' (take w bs)) \<and>
      rh_current T t' = hv (take w bs)"
    and next_holds: "holds t ws \<Longrightarrow> rh_next T b t = (v, t') \<Longrightarrow>
      holds t' (tl ws @ [b]) \<and> v = rh_current T t'"
    and holds_current: "holds t ws \<Longrightarrow> sound t \<and> length ws = w \<and> rh_current T t = hv ws"
begin

lemma holds_roll: "holds t ws \<Longrightarrow> holds (roll T bs t) (last_bytes w (ws @ bs))"
proof (induction bs arbitrary: t ws)
  case Nil
  then show ?case using holds_current by (simp add: last_bytes_def)
next
  case (Cons b bs)
  have len: "length ws = w" using holds_current [OF Cons.prems] by simp
  have "holds (snd (rh_next T b t)) (tl ws @ [b])"
    using next_holds [OF Cons.prems, of b] by (metis prod.collapse)
  from Cons.IH [OF this] have "holds (roll T (b # bs) t) (last_bytes w ((tl ws @ [b]) @ bs))" by simp
  moreover have "last_bytes w ((tl ws @ [b]) @ bs) = last_bytes w (ws @ b # bs)"
    using len window_pos by (cases ws) (simp_all add: last_bytes_def Suc_diff_le)
  ultimately show ?case by simp
qed

text \<open>After any number of steps the fingerprint depends on the last \<open>w\<close> bytes only.\<close>

lemma roll_current:
  assumes "sound t" and "rh_initialize T bs t = (True, t')"
  shows "rh_current T (roll T xs t') = hv (last_bytes w (take w bs @ xs))"
  using initialize [OF assms] holds_roll holds_current by blast

lemma roll_local:
  assumes "sound t1" and "rh_initialize T bs1 t1 = (True, u1)"
    and "sound t2" and "rh_initialize T bs2 t2 = (True, u2)"
    and "last_bytes w (take w bs1 @ xs1) = last_bytes w (take w bs2 @ xs2)"
  shows "rh_current T (roll T xs1 u1) = rh_current T (roll T xs2 u2)"
  using assms roll_current by metis

end

end
