(* ===== verification/RK_Finger.thy ===== *)
theory RK_Finger
  imports Hash_Concepts
begin

text \<open>
  The Rabin-Karp rolling fingerprint (\<^verbatim>\<open>src/src/RK_finger.hpp\<close>).  All arithmetic is on 64-bit
  words, wrapping as the code's does; the lemmas show that no parameters the constructor accepts
  make it wrap, that both reduction paths compute the remainder, and that rolling keeps the
  fingerprint equal to the polynomial of the bytes in the window.
\<close>

section \<open>The bit operations of the standard library\<close>

fun popcount :: "nat \<Rightarrow> nat" where
  "popcount n = (if n = 0 then 0 else n mod 2 + popcount (n div 2))"

fun bit_length :: "nat \<Rightarrow> nat" where
  "bit_length n = (if n = 0 then 0 else Suc (bit_length (n div 2)))"

declare popcount.simps [simp del] bit_length.simps [simp del]

definition has_single_bit :: "u64 \<Rightarrow> bool" where
  "has_single_bit x \<longleftrightarrow> popcount (unat x) = 1"

definition bit_width :: "u64 \<Rightarrow> nat" where
  "bit_width x = bit_length (unat x)"

definition UINT64_MAX :: u64 where
  "UINT64_MAX = - 1"

section \<open>State and operations\<close>

record RKFinger =
  alphabet_size :: u32
  window_size :: u32
  modulus :: u64
  fingerprint :: u64
  rk_h :: u64
  mersenne_shift :: nat
  window :: bytes
  window_head :: nat

definition ALPHABET_DEF_SIZE :: u32 where "ALPHABET_DEF_SIZE = 256"
definition WINDOW_DEF_SIZE :: u32 where "WINDOW_DEF_SIZE = 48"
definition MODULUS_DEF_SIZE :: u64 where "MODULUS_DEF_SIZE = push_bit 31 1 - 1"

definition rk_alpha :: "RKFinger \<Rightarrow> u64" where
  "rk_alpha r = ucast (alphabet_size r)"

definition reduce :: "RKFinger \<Rightarrow> u64 \<Rightarrow> u64" where
  "reduce r value =
     (if mersenne_shift r = 0 then value mod modulus r
      else let folded = (value AND modulus r) + drop_bit (mersenne_shift r) value
           in if folded \<ge> modulus r then folded - modulus r else folded)"

definition configure_fast_reduction :: "RKFinger \<Rightarrow> RKFinger" where
  "configure_fast_reduction r =
     (let r0 = r\<lparr>mersenne_shift := 0\<rparr>; M = modulus r; a = rk_alpha r in
      if \<not> has_single_bit (M + 1) then r0
      else let k = bit_width M in
        if a = 0 then r0
        else if M > (UINT64_MAX - 255) div (2 * max a 255) then r0
        else let max_input = max (2 * a * M + 255) (255 * (M - 1)) in
          if drop_bit k max_input < M then r0\<lparr>mersenne_shift := k\<rparr> else r0)"

definition init_state :: "RKFinger \<Rightarrow> RKFinger" where
  "init_state r =
     (let r1 = configure_fast_reduction
                 (r\<lparr>window := replicate (unat (window_size r)) 0, window_head := 0, fingerprint := 0\<rparr>)
      in r1\<lparr>rk_h := ((\<lambda>h. reduce r1 (h * rk_alpha r1)) ^^ (unat (window_size r) - 1)) 1\<rparr>)"

definition blank_finger :: "u32 \<Rightarrow> u32 \<Rightarrow> u64 \<Rightarrow> RKFinger" where
  "blank_finger a w m = \<lparr>alphabet_size = a, window_size = w, modulus = m, fingerprint = 0,
     rk_h = 0, mersenne_shift = 0, window = [], window_head = 0\<rparr>"

definition rk_default :: RKFinger where
  "rk_default = init_state (blank_finger ALPHABET_DEF_SIZE WINDOW_DEF_SIZE MODULUS_DEF_SIZE)"

text \<open>The constructor: the message of the exception, or the fingerprint.\<close>

definition make_finger :: "u32 \<Rightarrow> u32 \<Rightarrow> u64 \<Rightarrow> string + RKFinger" where
  "make_finger a w m =
     (if w = 0 then Inl ''RKFinger: window_size must be > 0''
      else if m = 0 then Inl ''RKFinger: modulus must be > 0''
      else if a = 0 then Inl ''RKFinger: alphabet_size must be > 0''
      else if m > (UINT64_MAX - 255) div (2 * max (ucast a) 255)
      then Inl ''RKFinger: parameters overflow 64-bit intermediate arithmetic''
      else Inr (init_state (blank_finger a w m)))"

definition rk_initialize :: "bytes \<Rightarrow> RKFinger \<Rightarrow> bool \<times> RKFinger" where
  "rk_initialize initial r =
     (let w = unat (window_size r); n = (if length initial < w then length initial else w);
          fp = foldl (\<lambda>fp b. reduce r (rk_alpha r * fp + ucast b)) 0 (take n initial)
      in (length initial \<ge> w,
          r\<lparr>window := take n initial @ replicate (w - n) 0, window_head := 0, fingerprint := fp\<rparr>))"

definition rk_compute_next :: "byte \<Rightarrow> RKFinger \<Rightarrow> u64 \<times> RKFinger" where
  "rk_compute_next b r =
     (let evicted = window r ! window_head r;
          fp = reduce r (rk_alpha r * ((fingerprint r + modulus r) - reduce r (ucast evicted * rk_h r))
                         + ucast b);
          head' = window_head r + 1
      in (fp, r\<lparr>fingerprint := fp, window := (window r)[window_head r := b],
                window_head := (if head' = unat (window_size r) then 0 else head')\<rparr>))"

section \<open>Parameters\<close>

lemma unat_mask_word: "k < LENGTH('a) \<Longrightarrow> unat (mask k :: 'a::len word) = 2 ^ k - 1"
proof -
  assume k: "k < LENGTH('a)"
  have "unat (mask k :: 'a word) = take_bit k (unat (- 1 :: 'a word))"
    by (simp only: take_bit_minus_one_eq_mask [symmetric] unsigned_take_bit_eq)
  also have "\<dots> = mask (min k LENGTH('a))"
    by (simp only: unsigned_minus_1_eq_mask take_bit_of_mask)
  finally show ?thesis using k by (simp add: min_def mask_eq_exp_minus_1)
qed

lemma u64_mult: "unat a * unat b < 2 ^ 64 \<Longrightarrow> unat ((a :: u64) * b) = unat a * unat b"
  by (simp add: unat_word_ariths)

lemma u64_add: "unat a + unat b < 2 ^ 64 \<Longrightarrow> unat ((a :: u64) + b) = unat a + unat b"
  by (simp add: unat_word_ariths)

lemma unat_rk_alpha [simp]: "unat (rk_alpha r) = unat (alphabet_size r)"
  by (simp add: rk_alpha_def)

definition params_ok :: "RKFinger \<Rightarrow> bool" where
  "params_ok r \<longleftrightarrow> window_size r \<noteq> 0 \<and> modulus r \<noteq> 0 \<and> alphabet_size r \<noteq> 0 \<and>
     modulus r \<le> (UINT64_MAX - 255) div (2 * max (rk_alpha r) 255)"

text \<open>The largest value any call hands to \<open>reduce\<close>, as a number.\<close>

definition max_reduce_input :: "RKFinger \<Rightarrow> nat" where
  "max_reduce_input r =
     max (2 * unat (alphabet_size r) * unat (modulus r) + 255) (255 * (unat (modulus r) - 1))"

lemma params_bound:
  assumes "params_ok r"
  shows "2 * max (unat (alphabet_size r)) 255 * unat (modulus r) + 255 < 2 ^ 64"
    and "0 < unat (modulus r)" and "0 < unat (alphabet_size r)" and "0 < unat (window_size r)"
    and "max_reduce_input r < 2 ^ 64"
proof -
  define a where "a = max (unat (alphabet_size r)) 255"
  have a: "a < 2 ^ 32" using unat_lt_pow [of "alphabet_size r"] by (simp add: a_def)
  have "unat (2 * max (rk_alpha r) 255) = 2 * a"
    using a by (simp add: a_def rk_alpha_def unat_word_ariths max_def word_le_nat_alt split: if_splits)
  moreover have "unat (UINT64_MAX - 255) = 2 ^ 64 - 1 - 255"
    by (simp add: UINT64_MAX_def)
  ultimately have "unat (modulus r) \<le> (2 ^ 64 - 1 - 255) div (2 * a)"
    using assms by (simp add: params_ok_def word_le_nat_alt unat_div)
  then have "unat (modulus r) * (2 * a) \<le> 2 ^ 64 - 1 - 255"
    by (simp add: a_def less_eq_div_iff_mult_less_eq)
  then show *: "2 * max (unat (alphabet_size r)) 255 * unat (modulus r) + 255 < 2 ^ 64"
    by (simp add: a_def mult.commute mult.left_commute)
  show "0 < unat (modulus r)" "0 < unat (alphabet_size r)" "0 < unat (window_size r)"
    using assms by (auto simp: params_ok_def unat_gt_0)
  have "2 * unat (alphabet_size r) * unat (modulus r) \<le> 2 * max (unat (alphabet_size r)) 255 * unat (modulus r)"
    by (intro mult_le_mono) simp_all
  moreover have "255 * (unat (modulus r) - 1) \<le> 2 * max (unat (alphabet_size r)) 255 * unat (modulus r)"
    by (intro mult_le_mono) simp_all
  ultimately show "max_reduce_input r < 2 ^ 64"
    using * unfolding max_reduce_input_def max_less_iff_conj by linarith
qed

lemma popcount_zero: "popcount n = 0 \<Longrightarrow> n = 0"
proof (induction n rule: popcount.induct)
  case (1 n)
  show ?case
  proof (rule ccontr)
    assume n: "n \<noteq> 0"
    then have "n mod 2 = 0" "popcount (n div 2) = 0"
      using "1.prems" by (simp_all add: popcount.simps [of n])
    moreover then have "n div 2 = 0" using "1.IH" n by blast
    ultimately show False using n by presburger
  qed
qed

lemma popcount_one: "popcount n = 1 \<Longrightarrow> \<exists>k. n = 2 ^ k"
proof (induction n rule: popcount.induct)
  case (1 n)
  have n0: "n \<noteq> 0" using "1.prems" by (intro notI) (simp add: popcount.simps [of 0])
  then have pc: "n mod 2 + popcount (n div 2) = 1" using "1.prems" by (simp add: popcount.simps [of n])
  show ?case
  proof (cases "even n")
    case True
    then have "popcount (n div 2) = 1" using pc by (simp add: even_iff_mod_2_eq_zero)
    then obtain k where "n div 2 = 2 ^ k" using "1.IH" n0 by blast
    then have "n = 2 ^ Suc k" using True by auto
    then show ?thesis by blast
  next
    case False
    then have "popcount (n div 2) = 0" using pc by (simp add: odd_iff_mod_2_eq_one)
    then have "n div 2 = 0" by (rule popcount_zero)
    then have "n = 2 ^ 0" using n0 by (simp add: div_eq_0_iff)
    then show ?thesis by blast
  qed
qed

lemma bit_length_mersenne: "bit_length (2 ^ k - 1) = k"
proof (induction k)
  case (Suc k)
  have "(2 ^ Suc k - 1) div 2 = (2::nat) ^ k - 1" by simp
  moreover have "(1::nat) < 2 ^ Suc k" by (rule one_less_power) simp_all
  then have "(2::nat) ^ Suc k - 1 \<noteq> 0" by simp
  ultimately show ?case using Suc by (subst bit_length.simps) simp
qed (simp add: bit_length.simps)

section \<open>Reduction\<close>

text \<open>What \<open>configure_fast_reduction\<close> guarantees about the shift it leaves behind.\<close>

definition shift_ok :: "RKFinger \<Rightarrow> bool" where
  "shift_ok r \<longleftrightarrow> mersenne_shift r = 0 \<or>
     (unat (modulus r) = 2 ^ mersenne_shift r - 1 \<and> mersenne_shift r < 64 \<and>
      max_reduce_input r div 2 ^ mersenne_shift r < unat (modulus r))"

lemma configure_fields [simp]:
  "alphabet_size (configure_fast_reduction r) = alphabet_size r"
  "window_size (configure_fast_reduction r) = window_size r"
  "modulus (configure_fast_reduction r) = modulus r"
  "fingerprint (configure_fast_reduction r) = fingerprint r"
  "window (configure_fast_reduction r) = window r"
  "window_head (configure_fast_reduction r) = window_head r"
  by (auto simp: configure_fast_reduction_def Let_def)

lemma unat_max_word: "unat (max a b) = max (unat a) (unat b)"
  by (auto simp: max_def word_le_nat_alt)

lemma single_bit_successor:
  assumes "has_single_bit (M + 1)" and "M \<noteq> 0"
  obtains k where "unat M = 2 ^ k - 1" and "bit_width M = k" and "0 < k" and "k < 64"
proof -
  obtain k where k: "unat (M + 1) = 2 ^ k"
    using assms(1) popcount_one by (auto simp: has_single_bit_def)
  then have "M + 1 \<noteq> 0" by (metis power_not_zero unat_0 zero_neq_numeral)
  then have M: "unat M = 2 ^ k - 1" using k by (simp add: unatSuc add.commute)
  have "2 ^ k < (2::nat) ^ 64" using k unat_lt_pow [of "M + 1"] by simp
  then have "k < 64" by (rule power_less_imp_less_exp [rotated]) simp
  moreover have "0 < k" using M assms(2) by (cases k) (auto simp: unat_eq_zero)
  ultimately show ?thesis using M bit_length_mersenne [of k] by (intro that) (simp_all add: bit_width_def)
qed

lemma max_input_word:
  assumes "params_ok r"
  shows "unat (max (2 * rk_alpha r * modulus r + 255) (255 * (modulus r - 1))) = max_reduce_input r"
proof -
  note b = params_bound [OF assms]
  have le: "2 * unat (alphabet_size r) * unat (modulus r) + 255 < 2 ^ 64"
    and le2: "255 * (unat (modulus r) - 1) < 2 ^ 64"
    using b(5) by (auto simp: max_reduce_input_def)
  have "2 * unat (alphabet_size r) \<le> 2 * unat (alphabet_size r) * unat (modulus r)" using b(2) by simp
  with le have "2 * unat (alphabet_size r) < 2 ^ 64" by linarith
  then have "unat (2 * rk_alpha r) = 2 * unat (alphabet_size r)"
    by (subst u64_mult) simp_all
  with le have "unat (2 * rk_alpha r * modulus r) = 2 * unat (alphabet_size r) * unat (modulus r)"
    using u64_mult [of "2 * rk_alpha r" "modulus r"] by (metis add_lessD1)
  with le have "unat (2 * rk_alpha r * modulus r + 255) = 2 * unat (alphabet_size r) * unat (modulus r) + 255"
    using u64_add [of "2 * rk_alpha r * modulus r" 255] by simp
  moreover have "unat (modulus r - 1) = unat (modulus r) - 1"
    using b(2) by (simp add: unat_sub word_le_nat_alt)
  then have "unat (255 * (modulus r - 1)) = 255 * (unat (modulus r) - 1)"
    using le2 by (subst u64_mult) simp_all
  ultimately show ?thesis by (simp only: unat_max_word max_reduce_input_def)
qed

lemma configure_shift_ok:
  assumes "params_ok r"
  shows "shift_ok (configure_fast_reduction r)"
proof (cases "mersenne_shift (configure_fast_reduction r) = 0")
  case False
  then have sb: "has_single_bit (modulus r + 1)"
    and k: "mersenne_shift (configure_fast_reduction r) = bit_width (modulus r)"
    and lt: "drop_bit (bit_width (modulus r))
      (max (2 * rk_alpha r * modulus r + 255) (255 * (modulus r - 1))) < modulus r"
    by (auto simp: configure_fast_reduction_def Let_def split: if_splits)
  have M0: "modulus r \<noteq> 0" using assms by (simp add: params_ok_def)
  obtain j where j: "unat (modulus r) = 2 ^ j - 1" "bit_width (modulus r) = j" "j < 64"
    using single_bit_successor [OF sb M0] by blast
  have "max_reduce_input r div 2 ^ j < unat (modulus r)"
    using lt unfolding word_less_nat_alt unat_drop_bit_div max_input_word [OF assms] j(2) .
  then show ?thesis using j k by (simp add: shift_ok_def max_reduce_input_def)
qed (simp add: shift_ok_def)

text \<open>Both paths of \<open>reduce\<close> compute the remainder, for every input within the bound.\<close>

lemma reduce_mod:
  assumes "shift_ok r" and "modulus r \<noteq> 0" and "unat v \<le> max_reduce_input r"
  shows "reduce r v = v mod modulus r"
proof (cases "mersenne_shift r = 0")
  case False
  define k M where "k = mersenne_shift r" and "M = unat (modulus r)"
  have M: "M = 2 ^ k - 1" and k: "k < 64" and b: "max_reduce_input r div 2 ^ k < M"
    using assms(1) False by (auto simp: shift_ok_def k_def M_def)
  have pw: "(2::nat) ^ k = M + 1" using M by simp
  have q: "unat v div 2 ^ k < M"
    using b div_le_mono [OF assms(3), of "2 ^ k"] by linarith
  have maskM: "modulus r = mask k"
    using M k by (simp add: M_def word_unat_eq_iff unat_mask_word)
  have M0: "0 < M" using assms(2) by (simp add: M_def unat_gt_0)
  define f where "f = (v AND modulus r) + drop_bit k v"
  have parts: "unat (v AND modulus r) = unat v mod (M + 1)" "unat (drop_bit k v) = unat v div (M + 1)"
    by (simp_all add: maskM unat_mask_and unat_drop_bit_div pw)
  have lim: "unat v mod (M + 1) + unat v div (M + 1) < 2 * M"
  proof -
    have "unat v mod (M + 1) < M + 1" by (rule mod_less_divisor) simp
    with q show ?thesis unfolding pw by linarith
  qed
  have "2 * M < 2 ^ 64"
  proof -
    have "(2::nat) ^ k \<le> 2 ^ 63" using k by (intro power_increasing) auto
    with M show ?thesis by simp
  qed
  with lim have f: "unat f = unat v mod (M + 1) + unat v div (M + 1)"
    using parts by (simp add: f_def unat_word_ariths)
  have "unat v = (M + 1) * (unat v div (M + 1)) + unat v mod (M + 1)"
    by (simp only: mult_div_mod_eq)
  also have "\<dots> = unat f + M * (unat v div (M + 1))"
    unfolding f add_mult_distrib by simp
  finally have cong: "unat v mod M = unat f mod M" by (metis mod_mult_self2)
  have "unat (reduce r v) = unat f mod M"
  proof (cases "f \<ge> modulus r")
    case True
    then have "unat (f - modulus r) = unat f - M" by (simp add: unat_sub M_def)
    moreover have "M \<le> unat f" "unat f - M < M"
      using True lim f M0 by (simp_all add: word_le_nat_alt M_def [symmetric])
    then have "unat f mod M = unat f - M" by (simp add: le_mod_geq)
    ultimately show ?thesis using True False
      by (simp add: reduce_def Let_def f_def k_def)
  next
    case less: False
    then have "unat f mod M = unat f" by (simp add: word_le_nat_alt M_def)
    then show ?thesis using less False by (simp add: reduce_def Let_def f_def k_def)
  qed
  then show ?thesis using cong by (simp add: word_unat_eq_iff unat_mod M_def)
qed (simp add: reduce_def)

section \<open>The window and its polynomial\<close>

text \<open>The value the fingerprint stands for, as a number: the bytes as digits in base \<open>a\<close>.\<close>

definition rk_poly :: "nat \<Rightarrow> bytes \<Rightarrow> nat" where
  "rk_poly a bs = foldl (\<lambda>acc b. a * acc + unat b) 0 bs"

lemma rk_poly_simps [simp]:
  "rk_poly a [] = 0"
  "rk_poly a (bs @ [b]) = a * rk_poly a bs + unat b"
  by (simp_all add: rk_poly_def)

lemma rk_poly_Cons: "rk_poly a (e # bs) = unat e * a ^ length bs + rk_poly a bs"
proof (induction bs rule: rev_induct)
  case (snoc b bs)
  have "rk_poly a (e # bs @ [b]) = a * rk_poly a (e # bs) + unat b"
    using rk_poly_simps(2) [of a "e # bs" b] by simp
  also have "\<dots> = unat e * a ^ length (bs @ [b]) + rk_poly a (bs @ [b])"
    by (simp add: snoc algebra_simps)
  finally show ?case .
qed (simp add: rk_poly_def)

text \<open>The bytes of the ring buffer from oldest to newest.\<close>

definition ring :: "RKFinger \<Rightarrow> bytes" where
  "ring r = drop (window_head r) (window r) @ take (window_head r) (window r)"

definition rk_sound :: "RKFinger \<Rightarrow> bool" where
  "rk_sound r \<longleftrightarrow> params_ok r \<and> shift_ok r \<and>
     length (window r) = unat (window_size r) \<and> window_head r < unat (window_size r) \<and>
     unat (fingerprint r) < unat (modulus r) \<and>
     unat (rk_h r) mod unat (modulus r) =
       unat (alphabet_size r) ^ (unat (window_size r) - 1) mod unat (modulus r) \<and>
     255 * unat (rk_h r) \<le> max_reduce_input r"

definition rk_holds :: "RKFinger \<Rightarrow> bytes \<Rightarrow> bool" where
  "rk_holds r ws \<longleftrightarrow> rk_sound r \<and> ring r = ws \<and>
     unat (fingerprint r) = rk_poly (unat (alphabet_size r)) ws mod unat (modulus r)"

lemma unat_reduce:
  assumes "shift_ok r" and "params_ok r" and "unat v \<le> max_reduce_input r"
  shows "unat (reduce r v) = unat v mod unat (modulus r)" and "unat (reduce r v) < unat (modulus r)"
proof -
  have "modulus r \<noteq> 0" using assms(2) by (simp add: params_ok_def)
  then have "reduce r v = v mod modulus r" using assms by (intro reduce_mod)
  then show "unat (reduce r v) = unat v mod unat (modulus r)" by (simp add: unat_mod)
  then show "unat (reduce r v) < unat (modulus r)" using params_bound(2) [OF assms(2)] by simp
qed

text \<open>One step of the Horner scheme stays within the words.\<close>

lemma horner_step:
  assumes "shift_ok r" and "params_ok r" and "unat fp \<le> 2 * unat (modulus r)"
  shows "unat (reduce r (rk_alpha r * fp + ucast (b :: byte))) =
           (unat (alphabet_size r) * unat fp + unat b) mod unat (modulus r)"
    and "unat (reduce r (rk_alpha r * fp + ucast b)) < unat (modulus r)"
proof -
  note pb = params_bound [OF assms(2)]
  have "unat (alphabet_size r) * unat fp \<le> unat (alphabet_size r) * (2 * unat (modulus r))"
    using assms(3) by (rule mult_le_mono2)
  then have le: "unat (alphabet_size r) * unat fp + unat b \<le> max_reduce_input r"
    using byte_le_255 [of b] unfolding max_reduce_input_def
    by (intro max.coboundedI1) (simp only: mult.assoc mult.left_commute add_mono)
  with pb(5) have lt: "unat (alphabet_size r) * unat fp + unat b < 2 ^ 64" by linarith
  then have "unat (rk_alpha r * fp) = unat (alphabet_size r) * unat fp"
    by (subst u64_mult) simp_all
  then have v: "unat (rk_alpha r * fp + ucast b) = unat (alphabet_size r) * unat fp + unat b"
    using lt by (subst u64_add) simp_all
  show "unat (reduce r (rk_alpha r * fp + ucast b)) =
           (unat (alphabet_size r) * unat fp + unat b) mod unat (modulus r)"
    and "unat (reduce r (rk_alpha r * fp + ucast b)) < unat (modulus r)"
    using unat_reduce [OF assms(1,2), of "rk_alpha r * fp + ucast b"] le by (simp_all add: v)
qed

section \<open>Construction and initialisation\<close>

lemma power_loop:
  assumes "shift_ok r" and "params_ok r"
  shows "255 * unat (((\<lambda>h. reduce r (h * rk_alpha r)) ^^ n) 1) \<le> max_reduce_input r \<and>
    unat (((\<lambda>h. reduce r (h * rk_alpha r)) ^^ n) 1) mod unat (modulus r) =
      unat (alphabet_size r) ^ n mod unat (modulus r) \<and>
    (unat (((\<lambda>h. reduce r (h * rk_alpha r)) ^^ n) 1) \<le> unat (modulus r))"
proof (induction n)
  case 0
  then show ?case using params_bound [OF assms(2)] by (simp add: max_reduce_input_def)
next
  case (Suc n)
  define h where "h = ((\<lambda>h. reduce r (h * rk_alpha r)) ^^ n) 1"
  have h: "unat h \<le> unat (modulus r)" and hm: "unat h mod unat (modulus r) =
      unat (alphabet_size r) ^ n mod unat (modulus r)"
    using Suc by (simp_all add: h_def)
  have "reduce r (h * rk_alpha r) = reduce r (rk_alpha r * h + ucast (0 :: byte))"
    by (simp add: mult.commute)
  then have st: "unat (reduce r (h * rk_alpha r)) = (unat (alphabet_size r) * unat h) mod unat (modulus r)"
    "unat (reduce r (h * rk_alpha r)) < unat (modulus r)"
    using horner_step [OF assms, of h 0] h by simp_all
  have "255 * unat (reduce r (h * rk_alpha r)) \<le> max_reduce_input r"
    using st(2) by (simp add: max_reduce_input_def)
  moreover have "unat (reduce r (h * rk_alpha r)) mod unat (modulus r) =
      unat (alphabet_size r) ^ Suc n mod unat (modulus r)"
    using st(1) hm by simp (metis mod_mult_right_eq)
  ultimately show ?case using st(2) by (simp add: h_def)
qed

lemma shift_ok_cong:
  "mersenne_shift r' = mersenne_shift r \<Longrightarrow> modulus r' = modulus r \<Longrightarrow>
   alphabet_size r' = alphabet_size r \<Longrightarrow> shift_ok r' = shift_ok r"
  by (simp add: shift_ok_def max_reduce_input_def)

lemma params_ok_cong:
  "window_size r' = window_size r \<Longrightarrow> modulus r' = modulus r \<Longrightarrow>
   alphabet_size r' = alphabet_size r \<Longrightarrow> params_ok r' = params_ok r"
  by (simp add: params_ok_def rk_alpha_def)

lemma reduce_cong:
  "mersenne_shift r' = mersenne_shift r \<Longrightarrow> modulus r' = modulus r \<Longrightarrow> reduce r' v = reduce r v"
  by (simp add: reduce_def Let_def)

lemma init_state_sound:
  assumes "params_ok r"
  shows "rk_sound (init_state r)" and "ring (init_state r) = replicate (unat (window_size r)) 0"
    and "alphabet_size (init_state r) = alphabet_size r" and "window_size (init_state r) = window_size r"
    and "modulus (init_state r) = modulus r"
proof -
  define r0 where "r0 = r\<lparr>window := replicate (unat (window_size r)) 0, window_head := 0, fingerprint := 0\<rparr>"
  define r1 where "r1 = configure_fast_reduction r0"
  have p0: "params_ok r0" using assms by (subst params_ok_cong [of r0 r]) (simp_all add: r0_def)
  have p1: "params_ok r1" using p0 by (subst params_ok_cong [of r1 r0]) (simp_all add: r1_def)
  have s1: "shift_ok r1" unfolding r1_def by (rule configure_shift_ok [OF p0])
  have eq: "init_state r = r1\<lparr>rk_h := ((\<lambda>h. reduce r1 (h * rk_alpha r1)) ^^ (unat (window_size r) - 1)) 1\<rparr>"
    by (simp add: init_state_def Let_def r1_def r0_def)
  note f = r1_def r0_def
  show "alphabet_size (init_state r) = alphabet_size r" "window_size (init_state r) = window_size r"
    "modulus (init_state r) = modulus r"
    by (simp_all add: eq f)
  show "ring (init_state r) = replicate (unat (window_size r)) 0"
    by (simp add: eq ring_def f)
  define h where "h = ((\<lambda>h. reduce r1 (h * rk_alpha r1)) ^^ (unat (window_size r) - 1)) 1"
  have pl: "255 * unat h \<le> max_reduce_input r1"
      "unat h mod unat (modulus r1) = unat (alphabet_size r1) ^ (unat (window_size r) - 1) mod unat (modulus r1)"
    using power_loop [OF s1 p1, of "unat (window_size r) - 1"] unfolding h_def by simp_all
  define r2 where "r2 = r1\<lparr>rk_h := h\<rparr>"
  have g: "window_size r1 = window_size r" "window r1 = replicate (unat (window_size r)) 0"
    "window_head r1 = 0" "fingerprint r1 = 0"
    by (simp_all add: f)
  have "params_ok r2" using p1 by (subst params_ok_cong [of r2 r1]) (simp_all add: r2_def)
  moreover have "shift_ok r2" using s1 by (subst shift_ok_cong [of r2 r1]) (simp_all add: r2_def)
  moreover have "max_reduce_input r2 = max_reduce_input r1" by (simp add: r2_def max_reduce_input_def)
  ultimately have "rk_sound r2"
    using pl params_bound(2,4) [OF p1] g unfolding rk_sound_def by (simp add: r2_def)
  then show "rk_sound (init_state r)" by (simp add: eq r2_def h_def)
qed

text \<open>The loop of \<open>initialize\<close> is the Horner scheme.\<close>

lemma initialize_loop:
  assumes "shift_ok r" and "params_ok r" and "unat fp < unat (modulus r)"
    and "unat fp = acc mod unat (modulus r)"
  shows "unat (foldl (\<lambda>fp b. reduce r (rk_alpha r * fp + ucast b)) fp bs) =
      foldl (\<lambda>acc b. unat (alphabet_size r) * acc + unat b) acc (bs :: bytes) mod unat (modulus r)"
  using assms(3,4)
proof (induction bs arbitrary: fp acc)
  case (Cons b bs)
  have le: "unat fp \<le> 2 * unat (modulus r)" using Cons.prems(1) by simp
  note hs = horner_step [OF assms(1,2) le, of b]
  have "(unat (alphabet_size r) * unat fp + unat b) mod unat (modulus r) =
      (unat (alphabet_size r) * acc + unat b) mod unat (modulus r)"
    unfolding Cons.prems(2) by (metis mod_add_left_eq mod_mult_right_eq)
  with hs(1) have "unat (reduce r (rk_alpha r * fp + ucast b)) =
      (unat (alphabet_size r) * acc + unat b) mod unat (modulus r)" by simp
  from Cons.IH [OF hs(2) this] show ?case by simp
qed simp

lemma rk_initialize_fields:
  assumes "rk_initialize bs r = (full, r')"
  shows "alphabet_size r' = alphabet_size r" and "window_size r' = window_size r"
    and "modulus r' = modulus r" and "mersenne_shift r' = mersenne_shift r" and "rk_h r' = rk_h r"
    and "window_head r' = 0"
    and "window r' = take (unat (window_size r)) bs @ replicate (unat (window_size r) - length bs) 0"
    and "full \<longleftrightarrow> unat (window_size r) \<le> length bs"
  using assms by (auto simp: rk_initialize_def Let_def)

lemma rk_sound_cong:
  assumes "rk_sound r" and "alphabet_size r' = alphabet_size r" and "window_size r' = window_size r"
    and "modulus r' = modulus r" and "mersenne_shift r' = mersenne_shift r" and "rk_h r' = rk_h r"
    and "length (window r') = unat (window_size r)" and "window_head r' < unat (window_size r)"
    and "unat (fingerprint r') < unat (modulus r)"
  shows "rk_sound r'"
proof -
  have "params_ok r'" using assms by (subst params_ok_cong [of r' r]) (simp_all add: rk_sound_def)
  moreover have "shift_ok r'" using assms by (subst shift_ok_cong [of r' r]) (simp_all add: rk_sound_def)
  moreover have "max_reduce_input r' = max_reduce_input r" using assms by (simp add: max_reduce_input_def)
  ultimately show ?thesis using assms unfolding rk_sound_def by simp
qed

lemma rk_initialize_correct:
  assumes "rk_initialize bs r = (full, r')" and "rk_sound r"
  shows "rk_sound r'"
    and "unat (fingerprint r') =
      rk_poly (unat (alphabet_size r)) (take (unat (window_size r)) bs) mod unat (modulus r)"
    and "full \<Longrightarrow> ring r' = take (unat (window_size r)) bs"
proof -
  define w where "w = unat (window_size r)"
  note f = rk_initialize_fields [OF assms(1), folded w_def]
  have sp: "shift_ok r" "params_ok r" using assms(2) by (simp_all add: rk_sound_def)
  note pb = params_bound [OF sp(2), folded w_def]
  have "(if length bs < w then length bs else w) = min (length bs) w" by simp
  then have "fingerprint r' = foldl (\<lambda>fp b. reduce r (rk_alpha r * fp + ucast b)) 0 (take (min (length bs) w) bs)"
    using assms(1) by (auto simp: rk_initialize_def Let_def w_def)
  moreover have "take (min (length bs) w) bs = take w bs" by (simp add: min_def)
  ultimately have fp: "unat (fingerprint r') = rk_poly (unat (alphabet_size r)) (take w bs) mod unat (modulus r)"
    using initialize_loop [OF sp, of 0 0 "take w bs"] pb(2) by (simp add: rk_poly_def)
  show "rk_sound r'"
    using f fp pb by (intro rk_sound_cong [OF assms(2)]) (auto simp: w_def)
  show "unat (fingerprint r') =
      rk_poly (unat (alphabet_size r)) (take (unat (window_size r)) bs) mod unat (modulus r)"
    using fp by (simp add: w_def)
  show "ring r' = take (unat (window_size r)) bs" if full
    using f that by (simp add: ring_def w_def)
qed

section \<open>Rolling\<close>

text \<open>Replacing the oldest byte of the ring and advancing the head drops it and appends.\<close>

lemma ring_advance:
  assumes "k < length xs"
  shows "drop (if Suc k = length xs then 0 else Suc k) (xs[k := b]) @
         take (if Suc k = length xs then 0 else Suc k) (xs[k := b]) =
         tl (drop k xs @ take k xs) @ [b]"
proof -
  have xs: "xs = take k xs @ xs ! k # drop (Suc k) xs" using assms by (simp add: id_take_nth_drop)
  have len: "length (take k xs) = k" using assms by simp
  have u: "xs[k := b] = take k xs @ b # drop (Suc k) xs" using assms by (rule upd_conv_take_nth_drop)
  have d: "drop k xs = xs ! k # drop (Suc k) xs" using assms by (simp add: Cons_nth_drop_Suc)
  show ?thesis
  proof (cases "Suc k = length xs")
    case True
    then show ?thesis unfolding u d by simp
  next
    case False
    have "drop (Suc k) (xs[k := b]) = drop (Suc k) xs" unfolding u using len by simp
    moreover have "take (Suc k) (xs[k := b]) = take k xs @ [b]" unfolding u using len by simp
    ultimately show ?thesis using False unfolding d by simp
  qed
qed

lemma ring_hd: "window_head r < length (window r) \<Longrightarrow>
    ring r = window r ! window_head r # tl (ring r) \<and> length (ring r) = length (window r)"
  by (simp add: ring_def nth_drop_Cons)

text \<open>The arithmetic of one step: subtracting the leading digit modulo \<open>M\<close> without going negative.\<close>

lemma mod_add_cancel: "((x::nat) + c) mod M = (y + c) mod M \<Longrightarrow> x mod M = y mod M"
  by (auto simp: nat_mod_eq_iff)

lemma roll_arith:
  fixes a e h P t f M b :: nat
  assumes "f = (e * h + P) mod M" and "t = e * h' mod M" and "h' mod M = h mod M" and "0 < M"
  shows "(a * ((f + M) - t) + b) mod M = (a * P + b) mod M"
proof -
  have t: "t = e * h mod M" using assms(2,3) by (metis mod_mult_right_eq)
  have "t < M" using t assms(4) by simp
  then have "(f + M) - t + t = f + M" by simp
  then have "((f + M) - t + t) mod M = (e * h + P) mod M" using assms(1) by simp
  then have "((f + M) - t + e * h) mod M = (P + e * h) mod M"
    unfolding t by (simp add: mod_simps add.commute)
  then have "((f + M) - t) mod M = P mod M"
    by (rule mod_add_cancel)
  then show ?thesis by (metis mod_add_left_eq mod_mult_right_eq)
qed

lemma compute_next_word:
  assumes "rk_sound r"
  shows "unat ((fingerprint r + modulus r) - reduce r (ucast (e :: byte) * rk_h r)) =
      unat (fingerprint r) + unat (modulus r) - unat e * unat (rk_h r) mod unat (modulus r)"
proof -
  have sp: "shift_ok r" "params_ok r" and fp: "unat (fingerprint r) < unat (modulus r)"
    and h: "255 * unat (rk_h r) \<le> max_reduce_input r"
    using assms by (simp_all add: rk_sound_def)
  note pb = params_bound [OF sp(2)]
  have le: "unat e * unat (rk_h r) \<le> max_reduce_input r"
    using h mult_le_mono1 [OF byte_le_255 [of e], of "unat (rk_h r)"] by linarith
  then have eh: "unat (ucast e * rk_h r :: u64) = unat e * unat (rk_h r)"
    using pb(5) by (subst u64_mult) simp_all
  note rd = unat_reduce [OF sp, of "ucast e * rk_h r", unfolded eh, OF le]
  have "1 \<le> 2 * max (unat (alphabet_size r)) 255" by simp
  then have "2 * unat (modulus r) \<le> 2 * max (unat (alphabet_size r)) 255 * unat (modulus r)"
    by (intro mult_le_mono1) simp
  then have "unat (fingerprint r) + unat (modulus r) < 2 ^ 64" using pb(1) fp by linarith
  then have s: "unat (fingerprint r + modulus r) = unat (fingerprint r) + unat (modulus r)"
    by (rule u64_add)
  have "reduce r (ucast e * rk_h r) \<le> fingerprint r + modulus r"
    unfolding word_le_nat_alt s using rd(2) by linarith
  then show ?thesis by (simp add: unat_sub s rd(1))
qed

lemma rk_compute_next_sound:
  assumes "rk_compute_next b r = (v, r')" and "rk_sound r"
  shows "rk_sound r'" and "v = fingerprint r'" and "alphabet_size r' = alphabet_size r" and "window_size r' = window_size r"
    and "modulus r' = modulus r"
    and "r' = r\<lparr>fingerprint := v, window := (window r)[window_head r := b],
      window_head := (if Suc (window_head r) = length (window r) then 0 else Suc (window_head r))\<rparr>"
    and "unat v = (unat (alphabet_size r) * (unat (fingerprint r) + unat (modulus r) -
      unat (window r ! window_head r) * unat (rk_h r) mod unat (modulus r)) + unat b) mod unat (modulus r)"
proof -
  have sp: "shift_ok r" "params_ok r" and len: "length (window r) = unat (window_size r)"
    and hd: "window_head r < unat (window_size r)" and fM: "unat (fingerprint r) < unat (modulus r)"
    using assms(2) by (simp_all add: rk_sound_def)
  define q where "q = (fingerprint r + modulus r) - reduce r (ucast (window r ! window_head r) * rk_h r)"
  have v: "v = reduce r (rk_alpha r * q + ucast b)"
    using assms(1) by (simp add: rk_compute_next_def Let_def q_def)
  show r': "r' = r\<lparr>fingerprint := v, window := (window r)[window_head r := b],
      window_head := (if Suc (window_head r) = length (window r) then 0 else Suc (window_head r))\<rparr>"
    using assms(1) len by (auto simp: rk_compute_next_def Let_def)
  have q: "unat q = unat (fingerprint r) + unat (modulus r) -
      unat (window r ! window_head r) * unat (rk_h r) mod unat (modulus r)"
    unfolding q_def by (rule compute_next_word [OF assms(2)])
  then have "unat q \<le> 2 * unat (modulus r)" using fM by simp
  note hs = horner_step [OF sp this, of b]
  show "unat v = (unat (alphabet_size r) * (unat (fingerprint r) + unat (modulus r) -
      unat (window r ! window_head r) * unat (rk_h r) mod unat (modulus r)) + unat b) mod unat (modulus r)"
    using hs(1) by (simp add: v q)
  show "rk_sound r'" using hs(2) len hd by (intro rk_sound_cong [OF assms(2)]) (auto simp: r' v)
  show "v = fingerprint r'" "alphabet_size r' = alphabet_size r" "window_size r' = window_size r" "modulus r' = modulus r"
    by (simp_all add: r')
qed

lemma rk_compute_next_correct:
  assumes "rk_compute_next b r = (v, r')" and "rk_holds r ws"
  shows "rk_holds r' (tl ws @ [b])" and "v = fingerprint r'"
    and "alphabet_size r' = alphabet_size r" and "window_size r' = window_size r"
    and "modulus r' = modulus r"
proof -
  have snd: "rk_sound r" and ws: "ring r = ws"
    and fp: "unat (fingerprint r) = rk_poly (unat (alphabet_size r)) ws mod unat (modulus r)"
    using assms(2) by (simp_all add: rk_holds_def)
  note cn = rk_compute_next_sound [OF assms(1) snd]
  have sp: "params_ok r" and len: "length (window r) = unat (window_size r)"
    and hd: "window_head r < unat (window_size r)"
    and hm: "unat (rk_h r) mod unat (modulus r) =
       unat (alphabet_size r) ^ (unat (window_size r) - 1) mod unat (modulus r)"
    using snd by (simp_all add: rk_sound_def)
  note pb = params_bound [OF sp]
  define a M P where "a = unat (alphabet_size r)" and "M = unat (modulus r)"
    and "P = rk_poly a (tl ws)"
  have wse: "ws = window r ! window_head r # tl ws" "length ws = unat (window_size r)"
    using ring_hd [of r] ws len hd by simp_all
  then have "length (tl ws) = unat (window_size r) - 1" by simp
  then have lead: "unat (fingerprint r) = (unat (window r ! window_head r) * a ^ (unat (window_size r) - 1) + P) mod M"
    using fp wse(1) by (metis rk_poly_Cons a_def M_def P_def)
  have "unat v = (a * P + unat b) mod M"
    using cn(7) [folded M_def a_def] roll_arith [OF lead refl hm [folded M_def a_def] pb(2) [folded M_def]] by (rule trans)
  then have fin: "unat v = rk_poly a (tl ws @ [b]) mod M" by (simp add: P_def)
  have "ring r' = tl ws @ [b]"
    using ring_advance [of "window_head r" "window r" b] len hd
    unfolding cn(6) ws [symmetric] ring_def by simp
  then show "rk_holds r' (tl ws @ [b])"
    using fin cn(1-5) by (simp add: rk_holds_def a_def M_def)
  show "v = fingerprint r'" "alphabet_size r' = alphabet_size r" "window_size r' = window_size r"
    "modulus r' = modulus r" by (rule cn)+
qed

section \<open>The fingerprint as a rolling hash\<close>

definition rk_alg :: "RKFinger \<Rightarrow> RKFinger rolling_hash" where
  "rk_alg r0 = \<lparr>rh_new = r0, rh_initialize = rk_initialize, rh_next = rk_compute_next,
     rh_current = fingerprint, rh_window = (\<lambda>r. unat (window_size r)),
     rh_alphabet = (\<lambda>r. unat (alphabet_size r))\<rparr>"

definition rk_value :: "RKFinger \<Rightarrow> bytes \<Rightarrow> u64" where
  "rk_value r ws = of_nat (rk_poly (unat (alphabet_size r)) ws mod unat (modulus r))"

definition same_params :: "RKFinger \<Rightarrow> RKFinger \<Rightarrow> bool" where
  "same_params r0 r \<longleftrightarrow> alphabet_size r = alphabet_size r0 \<and> window_size r = window_size r0 \<and>
     modulus r = modulus r0"

lemma unat_rk_value:
  assumes "0 < unat (modulus r)"
  shows "unat (rk_value r ws) = rk_poly (unat (alphabet_size r)) ws mod unat (modulus r)"
proof -
  have "rk_poly (unat (alphabet_size r)) ws mod unat (modulus r) < unat (modulus r)"
    using assms by simp
  also have "\<dots> < 2 ^ 64" using unat_lt_pow [of "modulus r"] by simp
  finally show ?thesis unfolding rk_value_def by (rule unat_u64_of_nat)
qed

lemma rk_contract:
  assumes "rk_sound r0"
  shows "rolling_fingerprint (rk_alg r0) (unat (window_size r0)) (rk_value r0)
    (\<lambda>r. rk_sound r \<and> same_params r0 r) (\<lambda>r ws. rk_holds r ws \<and> same_params r0 r)"
proof
  have pb: "0 < unat (window_size r0)" "0 < unat (modulus r0)"
    using assms params_bound by (auto simp: rk_sound_def)
  show "0 < unat (window_size r0)" by (rule pb)
  show "rk_sound (rh_new (rk_alg r0)) \<and> same_params r0 (rh_new (rk_alg r0))"
    using assms by (simp add: rk_alg_def same_params_def)
  fix r show "rk_sound r \<and> same_params r0 r \<Longrightarrow> rh_window (rk_alg r0) r = unat (window_size r0)"
    by (simp add: rk_alg_def same_params_def)
next
  fix r bs full r'
  assume r: "rk_sound r \<and> same_params r0 r" and i: "rh_initialize (rk_alg r0) bs r = (full, r')"
  have i: "rk_initialize bs r = (full, r')" using i by (simp add: rk_alg_def)
  note f = rk_initialize_fields [OF i] and c = rk_initialize_correct [OF i conjunct1 [OF r]]
  have M: "0 < unat (modulus r0)" using assms params_bound(2) by (simp add: rk_sound_def)
  have "fingerprint r' = rk_value r0 (take (unat (window_size r0)) bs)"
    using c(2) r unat_rk_value [OF M] by (simp add: same_params_def word_unat_eq_iff)
  then show "(rk_sound r' \<and> same_params r0 r') \<and> full = (unat (window_size r0) \<le> length bs) \<and>
      (full \<longrightarrow> rk_holds r' (take (unat (window_size r0)) bs) \<and> same_params r0 r') \<and>
      rh_current (rk_alg r0) r' = rk_value r0 (take (unat (window_size r0)) bs)"
    using f c r by (auto simp: same_params_def rk_alg_def rk_holds_def)
next
  fix r ws b v r'
  assume r: "rk_holds r ws \<and> same_params r0 r" and n: "rh_next (rk_alg r0) b r = (v, r')"
  have n: "rk_compute_next b r = (v, r')" using n by (simp add: rk_alg_def)
  show "(rk_holds r' (tl ws @ [b]) \<and> same_params r0 r') \<and> v = rh_current (rk_alg r0) r'"
    using rk_compute_next_correct [OF n conjunct1 [OF r]] r by (simp add: same_params_def rk_alg_def)
next
  fix r ws assume r: "rk_holds r ws \<and> same_params r0 r"
  have M: "0 < unat (modulus r0)" using assms params_bound(2) by (simp add: rk_sound_def)
  have "length ws = unat (window_size r)"
    using r by (auto simp: rk_holds_def ring_def rk_sound_def)
  moreover have "fingerprint r = rk_value r0 ws"
    using r unat_rk_value [OF M] by (simp add: same_params_def word_unat_eq_iff rk_holds_def)
  ultimately show "(rk_sound r \<and> same_params r0 r) \<and> length ws = unat (window_size r0) \<and>
      rh_current (rk_alg r0) r = rk_value r0 ws"
    using r by (simp add: rk_holds_def same_params_def rk_alg_def)
qed

lemma rk_default_params: "params_ok (blank_finger ALPHABET_DEF_SIZE WINDOW_DEF_SIZE MODULUS_DEF_SIZE)"
  by (simp add: params_ok_def blank_finger_def ALPHABET_DEF_SIZE_def WINDOW_DEF_SIZE_def
      MODULUS_DEF_SIZE_def UINT64_MAX_def rk_alpha_def)

lemma rk_default_sound: "rk_sound rk_default"
  unfolding rk_default_def by (rule init_state_sound(1) [OF rk_default_params])

lemma rk_default_fields:
  "alphabet_size rk_default = 256" "window_size rk_default = 48" "unat (modulus rk_default) = 2147483647"
  using init_state_sound(3-5) [OF rk_default_params]
  by (simp_all add: rk_default_def blank_finger_def ALPHABET_DEF_SIZE_def WINDOW_DEF_SIZE_def
      MODULUS_DEF_SIZE_def)

interpretation rk: rolling_fingerprint "rk_alg rk_default" "unat (window_size rk_default)"
  "rk_value rk_default" "\<lambda>r. rk_sound r \<and> same_params rk_default r"
  "\<lambda>r ws. rk_holds r ws \<and> same_params rk_default r"
  by (rule rk_contract [OF rk_default_sound])

lemma make_finger_sound:
  assumes "make_finger a w m = Inr r"
  shows "rk_sound r" and "alphabet_size r = a" and "window_size r = w" and "modulus r = m"
proof -
  have "params_ok (blank_finger a w m)" and r: "r = init_state (blank_finger a w m)"
    using assms by (auto simp: make_finger_def params_ok_def blank_finger_def rk_alpha_def split: if_splits)
  from init_state_sound [OF this(1)] show "rk_sound r" and "alphabet_size r = a"
    and "window_size r = w" and "modulus r = m"
    by (simp_all add: r blank_finger_def)
qed

section \<open>Properties of the fingerprint\<close>

lemma make_finger_default: "make_finger ALPHABET_DEF_SIZE WINDOW_DEF_SIZE MODULUS_DEF_SIZE = Inr rk_default"
  by (simp add: make_finger_def rk_default_def ALPHABET_DEF_SIZE_def WINDOW_DEF_SIZE_def MODULUS_DEF_SIZE_def
      UINT64_MAX_def)

text \<open>For every parameter set the constructor accepts, and every value any call can hand to it, \<open>reduce\<close>
  computes the remainder: the fold for Mersenne moduli is exact wherever it is selected.\<close>

lemma reduce_is_mod:
  assumes "make_finger a w m = Inr r" and "unat v \<le> max_reduce_input r"
  shows "unat (reduce r v) = unat v mod unat m"
  using unat_reduce [of r v] make_finger_sound [OF assms(1)] assms(2) by (simp add: rk_sound_def)

text \<open>C17 Rolling is the same as hashing the window afresh: whatever parameters the constructor accepted, after
  a full \<open>initialize\<close> and any number of \<open>compute_next\<close> steps the fingerprint is the polynomial of the
  last \<open>window_size\<close> bytes modulo the modulus, so no intermediate product or difference wraps.\<close>

theorem rolling_is_polynomial:
  assumes "make_finger a w m = Inr r0" and "rk_initialize bs r0 = (True, r)"
  shows "unat (fingerprint (roll (rk_alg r0) xs r)) =
    rk_poly (unat a) (last_bytes (unat w) (take (unat w) bs @ xs)) mod unat m"
proof -
  note r0 = make_finger_sound [OF assms(1)]
  have M: "0 < unat (modulus r0)" using r0(1) params_bound(2) by (simp add: rk_sound_def)
  have "rh_current (rk_alg r0) (roll (rk_alg r0) xs r) =
      rk_value r0 (last_bytes (unat (window_size r0)) (take (unat (window_size r0)) bs @ xs))"
    using r0(1) assms(2)
    by (intro rolling_fingerprint.roll_current [OF rk_contract [OF r0(1)], of r0])
      (simp_all add: same_params_def rk_alg_def)
  then show ?thesis using unat_rk_value [OF M] by (simp add: rk_alg_def r0(2-4))
qed

theorem rolling_is_polynomial_witness:
  "\<exists>r. rk_initialize (replicate 48 1) rk_default = (True, r) \<and>
    unat (fingerprint (roll (rk_alg rk_default) [7, 8, 9] r)) =
      rk_poly 256 (replicate 45 1 @ [7, 8, 9]) mod 2147483647"
proof -
  obtain ok r where i: "rk_initialize (replicate 48 1) rk_default = (ok, r)" by fastforce
  then have "ok" by (simp add: rk_initialize_def Let_def rk_default_fields)
  with i rolling_is_polynomial [OF make_finger_default, of "replicate 48 1" r "[7, 8, 9]"] show ?thesis
    by (simp add: ALPHABET_DEF_SIZE_def WINDOW_DEF_SIZE_def MODULUS_DEF_SIZE_def last_bytes_def drop_replicate)
qed

text \<open>The calls a client can make, in any order: a seeding may also be with too few bytes.\<close>

datatype rk_call = Seed bytes | Roll_byte byte

fun rk_apply_call :: "rk_call \<Rightarrow> RKFinger \<Rightarrow> RKFinger" where
  "rk_apply_call (Seed bs) r = snd (rk_initialize bs r)"
| "rk_apply_call (Roll_byte b) r = snd (rk_compute_next b r)"

lemma rk_calls_sound:
  assumes "rk_sound r"
  shows "rk_sound (fold rk_apply_call cs r) \<and> same_params r (fold rk_apply_call cs r)"
  using assms
proof (induction cs arbitrary: r)
  case (Cons c cs)
  define r1 where "r1 = rk_apply_call c r"
  have "rk_sound r1 \<and> same_params r r1"
  proof (cases c)
    case (Seed bs)
    obtain ok r2 where i: "rk_initialize bs r = (ok, r2)" by fastforce
    then show ?thesis using rk_initialize_correct(1) [OF i Cons.prems] rk_initialize_fields(1-3) [OF i] Seed
      by (simp add: r1_def same_params_def)
  next
    case (Roll_byte b)
    obtain v r2 where n: "rk_compute_next b r = (v, r2)" by fastforce
    then show ?thesis using rk_compute_next_sound(1,3-5) [OF n Cons.prems] Roll_byte
      by (simp add: r1_def same_params_def)
  qed
  with Cons.IH [of r1] show ?case by (auto simp: r1_def same_params_def)
qed (simp add: same_params_def)

text \<open>C18 The state of a fingerprint stays well formed through any sequence of calls, seedings with too few
  bytes included: the window has its full length, the head of the ring points into it, the fingerprint
  is reduced and the parameters are those of the constructor.\<close>

theorem finger_state_wellformed:
  assumes "make_finger a w m = Inr r0" and "r = fold rk_apply_call calls r0"
  shows "length (window r) = unat w \<and> window_head r < unat w \<and> fingerprint r < m \<and>
    alphabet_size r = a \<and> window_size r = w \<and> modulus r = m"
proof -
  note r0 = make_finger_sound [OF assms(1)]
  have "rk_sound r" "same_params r0 r" unfolding assms(2) using rk_calls_sound [OF r0(1)] by blast+
  then show ?thesis using r0(2-4) by (simp add: rk_sound_def same_params_def word_less_nat_alt)
qed

theorem finger_state_wellformed_witness:
  "length (window (fold rk_apply_call [Seed [1, 2], Roll_byte 3] rk_default)) = 48"
  using finger_state_wellformed [OF make_finger_default refl, of "[Seed [1, 2], Roll_byte 3]"]
  by (simp add: WINDOW_DEF_SIZE_def)

end
