(* ===== verification/Blake2b.thy ===== *)
theory Blake2b
  imports Hash_Concepts
begin

text \<open>
  The strong hash of the shipped tool (\<^verbatim>\<open>src/src/blake2b.h\<close>, \<^verbatim>\<open>src/src/blake2b.cpp\<close>), a wrapper
  around OpenSSL's EVP digest interface.  OpenSSL is not part of the repository: its context type
  and its four calls are a parameter, \<open>evp\<close>, whose documented behaviour is the hypothesis
  \<open>evp_sound\<close>.  A call that does not return 1 is \<open>None\<close>.
\<close>

section \<open>The EVP interface\<close>

record 'c evp =
  MD_CTX_new :: "'c option"
  DigestInit :: "'c \<Rightarrow> 'c option"
  DigestUpdate :: "bytes \<Rightarrow> 'c \<Rightarrow> 'c option"
  DigestFinal :: "'c \<Rightarrow> (bytes \<times> 'c) option"

definition HASH_SIZE :: nat where
  "HASH_SIZE = 64"

text \<open>\<open>evp_sound\<close>: a context digests the concatenation of what it was given since its initialisation,
  and the digest has 64 bytes.\<close>

definition evp_sound :: "'c evp \<Rightarrow> (bytes \<Rightarrow> bytes) \<Rightarrow> ('c \<Rightarrow> bytes option) \<Rightarrow> bool" where
  "evp_sound E D fed \<longleftrightarrow>
     (\<forall>m. length (D m) = HASH_SIZE) \<and>
     (\<forall>c c'. DigestInit E c = Some c' \<longrightarrow> fed c' = Some []) \<and>
     (\<forall>c m d c'. fed c = Some m \<longrightarrow> DigestUpdate E d c = Some c' \<longrightarrow> fed c' = Some (m @ d)) \<and>
     (\<forall>c m r c'. fed c = Some m \<longrightarrow> DigestFinal E c = Some (r, c') \<longrightarrow> r = D m)"

section \<open>The wrapper\<close>

text \<open>The pointer \<open>ctx_\<close>; \<open>None\<close> is the null pointer a move leaves behind.\<close>

record 'c BLAKE2b =
  ctx :: "'c option"

definition blake_new :: "'c evp \<Rightarrow> string + 'c BLAKE2b" where
  "blake_new E = (case MD_CTX_new E of
     None \<Rightarrow> Inl ''BLAKE2b: EVP_MD_CTX_new failed''
   | Some c \<Rightarrow> Inr \<lparr>ctx = Some c\<rparr>)"

text \<open>Construction and assignment by move: the new value, and what is left of the source.\<close>

definition blake_move :: "'c BLAKE2b \<Rightarrow> 'c BLAKE2b \<times> 'c BLAKE2b" where
  "blake_move other = (other, \<lparr>ctx = None\<rparr>)"

definition blake_init :: "'c evp \<Rightarrow> 'c BLAKE2b \<Rightarrow> string + 'c BLAKE2b" where
  "blake_init E u = (case Option.bind (ctx u) (DigestInit E) of
     None \<Rightarrow> Inl ''BLAKE2b: EVP_DigestInit_ex failed''
   | Some c \<Rightarrow> Inr \<lparr>ctx = Some c\<rparr>)"

definition blake_update :: "'c evp \<Rightarrow> bytes \<Rightarrow> 'c BLAKE2b \<Rightarrow> string + 'c BLAKE2b" where
  "blake_update E d u =
     (if d = [] then Inr u
      else case Option.bind (ctx u) (DigestUpdate E d) of
        None \<Rightarrow> Inl ''BLAKE2b: EVP_DigestUpdate failed''
      | Some c \<Rightarrow> Inr \<lparr>ctx = Some c\<rparr>)"

text \<open>The digest overwrites the front of the destination; a destination that is too short is left
  alone.\<close>

definition blake_finalize :: "'c evp \<Rightarrow> bytes \<Rightarrow> 'c BLAKE2b \<Rightarrow> string + (bytes \<times> 'c BLAKE2b)" where
  "blake_finalize E dst u =
     (if length dst < HASH_SIZE then Inr (dst, u)
      else case Option.bind (ctx u) (DigestFinal E) of
        None \<Rightarrow> Inl ''BLAKE2b: EVP_DigestFinal_ex failed''
      | Some (r, c) \<Rightarrow> Inr (r @ drop (length r) dst, \<lparr>ctx = Some c\<rparr>))"

definition blake_hash :: "'c evp \<Rightarrow> bytes \<Rightarrow> bytes \<Rightarrow> 'c BLAKE2b \<Rightarrow> string + (bytes \<times> 'c BLAKE2b)" where
  "blake_hash E = hash_oneshot HASH_SIZE (blake_init E) (blake_update E) (blake_finalize E)"

text \<open>The form over raw pointers: a null pointer is \<open>None\<close>, and the length is separate.\<close>

definition blake_hash_raw ::
  "'c evp \<Rightarrow> bytes option \<Rightarrow> bytes option \<Rightarrow> nat \<Rightarrow> 'c BLAKE2b \<Rightarrow> string + (bytes option \<times> 'c BLAKE2b)" where
  "blake_hash_raw E dst input inlen u =
     (case dst of
        None \<Rightarrow> Inr (None, u)
      | Some o1 \<Rightarrow>
          if input = None \<and> inlen \<noteq> 0 then Inr (Some o1, u)
          else bind_sum (blake_hash E (take HASH_SIZE o1) (take inlen (case input of None \<Rightarrow> [] | Some i \<Rightarrow> i)) u)
                 (\<lambda>(o2, u'). Inr (Some (o2 @ drop HASH_SIZE o1), u')))"

definition blake_alg :: "'c evp \<Rightarrow> 'c BLAKE2b strong_hash" where
  "blake_alg E = \<lparr>sh_new = blake_new E, sh_size = HASH_SIZE, sh_init = blake_init E,
     sh_update = blake_update E, sh_finalize = blake_finalize E, sh_hash = blake_hash E\<rparr>"

section \<open>The wrapper keeps the contract\<close>

definition blake_msg :: "('c \<Rightarrow> bytes option) \<Rightarrow> 'c BLAKE2b \<Rightarrow> bytes option" where
  "blake_msg fed u = Option.bind (ctx u) fed"

lemma evp_soundD:
  assumes "evp_sound E D fed"
  shows "length (D m) = HASH_SIZE" and "DigestInit E c = Some c' \<Longrightarrow> fed c' = Some []"
    and "fed c = Some m \<Longrightarrow> DigestUpdate E d c = Some c' \<Longrightarrow> fed c' = Some (m @ d)"
    and "fed c = Some m \<Longrightarrow> DigestFinal E c = Some (r, c') \<Longrightarrow> r = D m"
  using assms unfolding evp_sound_def by blast+

lemma blake_init_sound:
  assumes "evp_sound E D fed" and "blake_init E u = Inr u'"
  shows "blake_msg fed u' = Some []"
  using assms(2) evp_soundD(2) [OF assms(1)]
  by (auto simp: blake_init_def blake_msg_def split: option.splits Option.bind_splits)

lemma blake_update_sound:
  assumes "evp_sound E D fed" and "blake_msg fed u = Some m" and "blake_update E d u = Inr u'"
  shows "blake_msg fed u' = Some (m @ d)"
  using assms(2,3) evp_soundD(3) [OF assms(1)]
  by (auto simp: blake_update_def blake_msg_def split: if_splits option.splits Option.bind_splits)

lemma blake_finalize_sound:
  assumes "evp_sound E D fed" and "blake_msg fed u = Some m" and "HASH_SIZE \<le> length dst"
    and "blake_finalize E dst u = Inr (dst', u')"
  shows "dst' = D m @ drop HASH_SIZE dst"
proof -
  obtain c r c' where c: "ctx u = Some c" "fed c = Some m" and f: "DigestFinal E c = Some (r, c')"
    and dst': "dst' = r @ drop (length r) dst"
    using assms(2-4)
    by (auto simp: blake_finalize_def blake_msg_def split: option.splits Option.bind_splits)
  have "r = D m" by (rule evp_soundD(4) [OF assms(1) c(2) f])
  then show ?thesis using dst' evp_soundD(1) [OF assms(1), of m] by simp
qed

lemma blake_alg_sound:
  assumes "evp_sound E D fed"
  shows "strong_hash_sound (blake_alg E) D (blake_msg fed)"
proof -
  have hash: "dst' = D d @ drop HASH_SIZE dst"
    if dst: "HASH_SIZE \<le> length dst" and h: "blake_hash E dst d u = Inr (dst', u')" for u d dst dst' u'
  proof -
    obtain u1 u2 where i: "blake_init E u = Inr u1" and up: "blake_update E d u1 = Inr u2"
      and fin: "blake_finalize E dst u2 = Inr (dst', u')"
      using h dst by (auto simp: blake_hash_def hash_oneshot_def bind_sum_Inr)
    have "blake_msg fed u2 = Some ([] @ d)"
      by (rule blake_update_sound [OF assms blake_init_sound [OF assms i] up])
    then show ?thesis using blake_finalize_sound [OF assms _ dst fin] by simp
  qed
  show ?thesis
    unfolding strong_hash_sound_def blake_alg_def
    using evp_soundD(1) [OF assms] blake_init_sound [OF assms] blake_update_sound [OF assms]
      blake_finalize_sound [OF assms] hash
    by simp
qed

section \<open>A context type that satisfies the hypothesis\<close>

text \<open>Contexts that record what they were fed, with a digest that pads and truncates the message.\<close>

definition record_digest :: "bytes \<Rightarrow> bytes" where
  "record_digest m = take HASH_SIZE (m @ replicate HASH_SIZE 0)"

definition record_evp :: "bytes evp" where
  "record_evp = \<lparr>MD_CTX_new = Some [], DigestInit = (\<lambda>_. Some []),
     DigestUpdate = (\<lambda>d c. Some (c @ d)), DigestFinal = (\<lambda>c. Some (record_digest c, c))\<rparr>"

lemma record_evp_sound: "evp_sound record_evp record_digest Some"
proof -
  have "length (record_digest m) = HASH_SIZE" for m
    by (simp add: record_digest_def)
  then show ?thesis by (simp add: evp_sound_def record_evp_def)
qed

definition blake_live :: "'c BLAKE2b \<Rightarrow> bool" where
  "blake_live u \<longleftrightarrow> ctx u \<noteq> None"

lemma record_alg_total: "strong_hash_total (blake_alg record_evp) (blake_msg Some) blake_live"
  unfolding strong_hash_total_def
  by (auto simp: blake_alg_def blake_new_def blake_init_def blake_update_def blake_finalize_def
      blake_hash_def hash_oneshot_def record_evp_def blake_live_def bind_sum_def)

lemmas record_alg_sound = blake_alg_sound [OF record_evp_sound]

section \<open>Streaming and one-shot hashing agree\<close>

fun blake_feed :: "'c evp \<Rightarrow> bytes list \<Rightarrow> 'c BLAKE2b \<Rightarrow> string + 'c BLAKE2b" where
  "blake_feed E [] u = Inr u"
| "blake_feed E (d # ds) u = bind_sum (blake_update E d u) (blake_feed E ds)"

lemma blake_feed_sound:
  assumes "evp_sound E D fed"
  shows "blake_feed E ds u = Inr u' \<Longrightarrow> blake_msg fed u = Some m \<Longrightarrow> blake_msg fed u' = Some (m @ concat ds)"
proof (induction ds arbitrary: u m)
  case (Cons d ds)
  then obtain u1 where u1: "blake_update E d u = Inr u1" and f: "blake_feed E ds u1 = Inr u'"
    by (auto simp: bind_sum_Inr)
  from Cons.IH [OF f blake_update_sound [OF assms Cons.prems(2) u1]] show ?case by simp
qed simp

text \<open>C34 However a message is split over \<open>update\<close> calls, \<open>finalize\<close> writes the digest that the one-shot
  \<open>hash\<close> writes for the whole message, whatever either object was used for before, and neither
  writes past the digest.\<close>

theorem streaming_is_oneshot:
  assumes "evp_sound E D fed" and "blake_init E u = Inr u1" and "blake_feed E parts u1 = Inr u2"
    and "blake_finalize E dst u2 = Inr (dst1, u3)" and "blake_hash E dst (concat parts) v = Inr (dst2, v1)"
  shows "dst1 = dst2 \<and> drop HASH_SIZE dst1 = drop HASH_SIZE dst \<and> length dst1 = length dst"
proof (cases "HASH_SIZE \<le> length dst")
  case True
  have m: "blake_msg fed u2 = Some (concat parts)"
    using blake_feed_sound [OF assms(1,3) blake_init_sound [OF assms(1,2)]] by simp
  note d1 = blake_finalize_sound [OF assms(1) m True assms(4)]
  have "\<forall>u d dst dst' u'. HASH_SIZE \<le> length dst \<longrightarrow> blake_hash E dst d u = Inr (dst', u') \<longrightarrow>
      dst' = D d @ drop HASH_SIZE dst"
    using blake_alg_sound [OF assms(1)] unfolding strong_hash_sound_def by (simp add: blake_alg_def)
  then have "dst2 = D (concat parts) @ drop HASH_SIZE dst" using True assms(5) by blast
  then show ?thesis using d1 True evp_soundD(1) [OF assms(1)] by simp
next
  case False
  then show ?thesis using assms(4,5) by (simp add: blake_finalize_def blake_hash_def hash_oneshot_def)
qed

theorem streaming_is_oneshot_witness:
  "\<exists>dst1 u3 v1. blake_finalize record_evp (replicate 64 0) \<lparr>ctx = Some [1, 2, 3]\<rparr> = Inr (dst1, u3) \<and>
     blake_hash record_evp (replicate 64 0) [1, 2, 3] \<lparr>ctx = Some []\<rparr> = Inr (dst1, v1)"
proof -
  have 1: "blake_init record_evp \<lparr>ctx = Some [9]\<rparr> = Inr \<lparr>ctx = Some []\<rparr>"
    and 2: "blake_feed record_evp [[1], [], [2, 3]] \<lparr>ctx = Some []\<rparr> = Inr \<lparr>ctx = Some [1, 2, 3]\<rparr>"
    by (simp_all add: blake_init_def record_evp_def blake_update_def bind_sum_def)
  obtain d1 u3 where 3: "blake_finalize record_evp (replicate 64 0) \<lparr>ctx = Some [1, 2, 3]\<rparr> = Inr (d1, u3)"
    by (simp add: blake_finalize_def record_evp_def HASH_SIZE_def)
  obtain d2 v1 where 4: "blake_hash record_evp (replicate 64 0) (concat [[1], [], [2, 3]]) \<lparr>ctx = Some []\<rparr> = Inr (d2, v1)"
    by (simp add: blake_hash_def hash_oneshot_def blake_init_def blake_update_def blake_finalize_def
        record_evp_def HASH_SIZE_def bind_sum_def)
  from streaming_is_oneshot [OF record_evp_sound 1 2 3 4] 3 4 show ?thesis by simp
qed

end
