(* ===== verification/Signature_Gen.thy ===== *)
theory Signature_Gen
  imports RK_Finger Blake2b File_IO
begin

text \<open>
  Content-defined chunking and signing (\<^verbatim>\<open>src/src/Signature.hpp\<close>).  \<open>generate_signatures\<close> is the
  code's loop over a buffered file; \<open>chunk_list\<close> is what it computes, as a function of the file's
  bytes: cut where the fingerprint of the last window matches, between a least and a greatest size.
\<close>

section \<open>Signed chunks\<close>

record SignedChunk =
  signature :: u64
  sc_hash :: bytes
  start_offset :: nat
  chunk_size :: nat

text \<open>\<open>operator==\<close> ignores the rolling signature and the offset.\<close>

definition same_content :: "SignedChunk \<Rightarrow> SignedChunk \<Rightarrow> bool" where
  "same_content a b \<longleftrightarrow> sc_hash a = sc_hash b \<and> chunk_size a = chunk_size b"

datatype WholeFileHash = Skip | Compute

section \<open>Generation\<close>

text \<open>The chunks emitted so far, the chunk hasher, and the hasher of the whole file, if there is one.\<close>

record 'u emitter =
  em_chunks :: "SignedChunk list"
  em_hash :: 'u
  em_whole :: "'u option"

definition emit_chunk ::
  "'u strong_hash \<Rightarrow> bytes \<Rightarrow> u64 \<Rightarrow> nat \<Rightarrow> 'u emitter \<Rightarrow> string + 'u emitter" where
  "emit_chunk U data sig off em =
     bind_sum (sh_hash U (digest_buffer U) data (em_hash em)) (\<lambda>(full, h).
       if length full < DELTA_DIGEST_BYTES
       then Inl ''Strong hash must provide at least 16 bytes''
       else let c = \<lparr>signature = sig, sc_hash = take DELTA_DIGEST_BYTES full,
                     start_offset = off, chunk_size = length data\<rparr>;
                em1 = em\<lparr>em_chunks := em_chunks em @ [c], em_hash := h\<rparr>
            in case em_whole em of
                 None \<Rightarrow> Inr em1
               | Some w \<Rightarrow> bind_sum (sh_update U data w) (\<lambda>w'. Inr (em1\<lparr>em_whole := Some w'\<rparr>)))"

text \<open>The boundary test of the loop on the size of the chunk and the current fingerprint.\<close>

definition chunk_mask :: "nat \<Rightarrow> u64" where
  "chunk_mask n = (if n < DELTA_TARGET_CHUNK_SIZE then 0x3FFF else 0x0FFF)"

definition boundary_found :: "nat \<Rightarrow> u64 \<Rightarrow> bool" where
  "boundary_found n fp =
     (if n \<ge> DELTA_MAX_CHUNK_SIZE then True
      else if n \<ge> DELTA_MIN_CHUNK_SIZE
      then fp AND chunk_mask n = DELTA_BOUNDARY_TARGET AND chunk_mask n
      else False)"

record ('t, 'u) sig_run =
  sr_file :: fileio
  sr_fp :: 't
  sr_chunk :: bytes
  sr_cur :: u64
  sr_read :: nat
  sr_em :: "'u emitter"
  sr_init :: bool

text \<open>The refill at the head of the loop; the flag tells whether the loop goes on.\<close>

definition sig_fill :: "'t rolling_hash \<Rightarrow> ('t, 'u) sig_run \<Rightarrow> bool \<times> ('t, 'u) sig_run" where
  "sig_fill T r =
     (if sr_init r then
        (case read_chunk (rh_window T (sr_fp r)) (sr_file r) of (next_bytes, f) \<Rightarrow>
           if next_bytes = [] then (False, r\<lparr>sr_file := f\<rparr>)
           else case rh_initialize T next_bytes (sr_fp r) of (full, t) \<Rightarrow>
             let r1 = r\<lparr>sr_file := f, sr_fp := t, sr_read := sr_read r + length next_bytes,
                        sr_chunk := next_bytes, sr_cur := rh_current T t\<rparr>
             in if \<not> full then (False, r1) else (True, r1\<lparr>sr_init := False\<rparr>))
      else (True, r))"

text \<open>One pass of the loop: the flag tells whether there is another.\<close>

definition sig_step ::
  "'t rolling_hash \<Rightarrow> 'u strong_hash \<Rightarrow> ('t, 'u) sig_run \<Rightarrow> string + (bool \<times> ('t, 'u) sig_run)" where
  "sig_step T U r =
     (case sig_fill T r of
        (False, r1) \<Rightarrow> Inr (False, r1)
      | (True, r1) \<Rightarrow>
          (case read_byte (sr_file r1) of
             (None, f) \<Rightarrow> Inr (False, r1\<lparr>sr_file := f\<rparr>)
           | (Some b, f) \<Rightarrow>
               (case rh_next T b (sr_fp r1) of (v, t) \<Rightarrow>
                  let chunk = sr_chunk r1 @ [b];
                      r2 = r1\<lparr>sr_file := f, sr_read := sr_read r1 + 1, sr_chunk := chunk,
                             sr_fp := t, sr_cur := v\<rparr>
                  in if boundary_found (length chunk) v
                     then bind_sum (emit_chunk U chunk v (sr_read r2 - length chunk) (sr_em r2))
                            (\<lambda>em. Inr (True, r2\<lparr>sr_em := em, sr_chunk := [], sr_init := True\<rparr>))
                     else Inr (True, r2))))"

text \<open>Every pass that is followed by another takes a byte off the file, so the loop ends.\<close>

lemma sig_fill_progress:
  "sig_fill T r = (go, r1) \<Longrightarrow> length (remaining (sr_file r1)) \<le> length (remaining (sr_file r))"
  by (auto simp: sig_fill_def Let_def dest: read_chunk_remaining split: if_splits prod.splits)

lemma sig_step_progress:
  assumes "sig_step T U r = Inr (True, r')"
  shows "length (remaining (sr_file r')) < length (remaining (sr_file r))"
proof -
  obtain r1 b f where "sig_fill T r = (True, r1)" and "read_byte (sr_file r1) = (Some b, f)"
    and "sr_file r' = f"
    using assms
    by (auto simp: sig_step_def Let_def bind_sum_def split: prod.splits bool.splits option.splits
        if_splits sum.splits)
  then show ?thesis using sig_fill_progress read_byte_progress by (metis order_less_le_trans)
qed

function sig_loop ::
  "'t rolling_hash \<Rightarrow> 'u strong_hash \<Rightarrow> ('t, 'u) sig_run \<Rightarrow> string + ('t, 'u) sig_run" where
  "sig_loop T U r =
     (case sig_step T U r of
        Inl e \<Rightarrow> Inl e
      | Inr (False, r') \<Rightarrow> Inr r'
      | Inr (True, r') \<Rightarrow> sig_loop T U r')"
  by pat_completeness auto
termination
  by (relation "measure (\<lambda>(T, U, r). length (remaining (sr_file r)))") (auto dest: sig_step_progress)

declare sig_loop.simps [simp del]

record Signature =
  sg_chunks :: "SignedChunk list"
  sg_whole :: bytes

definition empty_signature :: Signature where
  "empty_signature = \<lparr>sg_chunks = [], sg_whole = []\<rparr>"

text \<open>The closure \<open>finish\<close>: every successful return runs it.\<close>

definition sig_finish ::
  "'u strong_hash \<Rightarrow> fileio \<Rightarrow> nat \<Rightarrow> 'u emitter \<Rightarrow> string + (bool \<times> Signature \<times> fileio)" where
  "sig_finish U f bytes_read em =
     (if has_error f \<or> bytes_read \<noteq> fsize f then Inr (False, empty_signature, f)
      else case em_whole em of
          None \<Rightarrow> Inr (True, \<lparr>sg_chunks = em_chunks em, sg_whole = []\<rparr>, f)
        | Some w \<Rightarrow> bind_sum (sh_finalize U (digest_buffer U) w) (\<lambda>(d, _).
            Inr (True, \<lparr>sg_chunks = em_chunks em, sg_whole = d\<rparr>, f)))"

text \<open>After the loop: the residual chunk, if any, then \<open>finish\<close>.\<close>

definition sig_residual ::
  "'u strong_hash \<Rightarrow> ('t, 'u) sig_run \<Rightarrow> string + (bool \<times> Signature \<times> fileio)" where
  "sig_residual U r =
     (if length (sr_chunk r) > 0
      then bind_sum (emit_chunk U (sr_chunk r) (sr_cur r) (sr_read r - length (sr_chunk r)) (sr_em r))
             (\<lambda>em. sig_finish U (sr_file r) (sr_read r) em)
      else sig_finish U (sr_file r) (sr_read r) (sr_em r))"

definition sig_run_file ::
  "'t rolling_hash \<Rightarrow> 'u strong_hash \<Rightarrow> 'u emitter \<Rightarrow> fileio \<Rightarrow> string + (bool \<times> Signature \<times> fileio)" where
  "sig_run_file T U em f =
     (case read_chunk_at (rh_window T (rh_new T)) 0 f of (initial, f1) \<Rightarrow>
        if initial = [] then sig_finish U f1 0 em
        else case rh_initialize T initial (rh_new T) of (full, t) \<Rightarrow>
          let r = \<lparr>sr_file = f1, sr_fp = t, sr_chunk = initial, sr_cur = rh_current T t,
                   sr_read = length initial, sr_em = em, sr_init = False\<rparr>
          in if \<not> full
             then bind_sum (emit_chunk U initial (sr_cur r) (sr_read r - length initial) em)
                    (\<lambda>em'. sig_finish U f1 (sr_read r) em')
             else bind_sum (sig_loop T U r) (sig_residual U))"

definition generate_signatures ::
  "'t rolling_hash \<Rightarrow> 'u strong_hash \<Rightarrow> WholeFileHash \<Rightarrow> fileio \<Rightarrow> string + (bool \<times> Signature \<times> fileio)" where
  "generate_signatures T U mode f =
     (if \<not> is_open f then Inr (False, empty_signature, f)
      else bind_sum (sh_new U) (\<lambda>hash_func. bind_sum (sh_new U) (\<lambda>whole_hasher.
        bind_sum (if mode = Compute then bind_sum (sh_init U whole_hasher) (\<lambda>w. Inr (Some w)) else Inr None)
          (\<lambda>whole. sig_run_file T U \<lparr>em_chunks = [], em_hash = hash_func, em_whole = whole\<rparr> f))))"

section \<open>Content-defined chunking\<close>

text \<open>The shortest extension of \<open>c\<close> by bytes of the input that is a chunk, and what is left.\<close>

fun first_cut :: "(bytes \<Rightarrow> bool) \<Rightarrow> bytes \<Rightarrow> bytes \<Rightarrow> bytes \<times> bytes" where
  "first_cut P c [] = (c, [])"
| "first_cut P c (b # r) = (if P (c @ [b]) then (c @ [b], r) else first_cut P (c @ [b]) r)"

lemma first_cut_append: "first_cut P c r = (d, s) \<Longrightarrow> d @ s = c @ r"
  by (induction P c r rule: first_cut.induct) (auto split: if_splits)

lemma first_cut_shorter:
  "first_cut P c r = (d, s) \<Longrightarrow> length s \<le> length r \<and> (r \<noteq> [] \<longrightarrow> length s < length r)"
  by (induction P c r rule: first_cut.induct) (auto split: if_splits)

lemma chunk_progress:
  assumes "first_cut P (take w data) (drop w data) = (c, r)" and "data \<noteq> []"
  shows "length r < length data"
proof (cases "drop w data = []")
  case False
  then have "length r < length (drop w data)" using first_cut_shorter [OF assms(1)] by blast
  then show ?thesis by simp
qed (use assms in simp)

function chunk_list :: "nat \<Rightarrow> (bytes \<Rightarrow> bool) \<Rightarrow> bytes \<Rightarrow> bytes list" where
  "chunk_list w P data =
     (if data = [] then []
      else case first_cut P (take w data) (drop w data) of (c, r) \<Rightarrow> c # chunk_list w P r)"
  by pat_completeness auto
termination
  by (relation "measure (\<lambda>(w, P, data). length data)") (auto intro: chunk_progress [OF sym])

declare chunk_list.simps [simp del]

lemma chunk_list_Nil [simp]: "chunk_list w P [] = []"
  by (simp add: chunk_list.simps)

lemma concat_chunk_list [simp]: "concat (chunk_list w P data) = data"
proof (induction w P data rule: chunk_list.induct)
  case (1 w P data)
  obtain c r where f: "first_cut P (take w data) (drop w data) = (c, r)" by fastforce
  then show ?case
    using 1 first_cut_append [OF f] by (cases "data = []") (simp_all add: chunk_list.simps [of w P data])
qed

text \<open>The boundary rule in terms of remainders: a chunk of the maximal size ends; one of the minimal size
  or more ends where the fingerprint \<open>hv\<close> of its last \<open>w\<close> bytes leaves the remainder of the target, modulo
  \<open>2 ^ 14\<close> below the target size and modulo \<open>2 ^ 12\<close> from there on.\<close>

definition is_cut :: "(bytes \<Rightarrow> u64) \<Rightarrow> nat \<Rightarrow> bytes \<Rightarrow> bool" where
  "is_cut hv w c \<longleftrightarrow> DELTA_MAX_CHUNK_SIZE \<le> length c \<or>
     DELTA_MIN_CHUNK_SIZE \<le> length c \<and>
       (if length c < DELTA_TARGET_CHUNK_SIZE then unat (hv (last_bytes w c)) mod 2 ^ 14 = 10923
        else unat (hv (last_bytes w c)) mod 2 ^ 12 = 2731)"

lemma mask_12: "(0x0FFF :: u64) = mask 12" and mask_14: "(0x3FFF :: u64) = mask 14"
  by (simp_all add: mask_eq_exp_minus_1)

lemma masked_eq_iff: "(v :: u64) AND mask k = t AND mask k \<longleftrightarrow> unat v mod 2 ^ k = unat t mod 2 ^ k"
  by (simp add: word_unat_eq_iff unat_mask_and)

text \<open>The masks of the code implement the rule.\<close>

lemma boundary_is_cut: "boundary_found (length c) (hv (last_bytes w c)) = is_cut hv w c"
proof -
  have t: "unat DELTA_BOUNDARY_TARGET = 10923" by (simp add: DELTA_BOUNDARY_TARGET_def)
  show ?thesis
    by (simp add: boundary_found_def is_cut_def chunk_mask_def mask_12 mask_14 masked_eq_iff t)
qed

fun sign_from :: "(bytes \<Rightarrow> bytes) \<Rightarrow> (bytes \<Rightarrow> u64) \<Rightarrow> nat \<Rightarrow> nat \<Rightarrow> bytes list \<Rightarrow> SignedChunk list" where
  "sign_from D hv w off [] = []"
| "sign_from D hv w off (c # cs) =
     \<lparr>signature = hv (last_bytes w c), sc_hash = take DELTA_DIGEST_BYTES (D c),
      start_offset = off, chunk_size = length c\<rparr> # sign_from D hv w (off + length c) cs"

lemma sign_from_append:
  "sign_from D hv w off (cs @ ds) = sign_from D hv w off cs @ sign_from D hv w (off + length (concat cs)) ds"
  by (induction cs arbitrary: off) (auto simp: add.assoc)

text \<open>What \<open>generate_signatures\<close> computes on a file that holds \<open>data\<close>.\<close>

definition signature_of ::
  "(bytes \<Rightarrow> bytes) \<Rightarrow> (bytes \<Rightarrow> u64) \<Rightarrow> nat \<Rightarrow> WholeFileHash \<Rightarrow> bytes \<Rightarrow> Signature" where
  "signature_of D hv w mode data =
     \<lparr>sg_chunks = sign_from D hv w 0 (chunk_list w (is_cut hv w) data),
      sg_whole = (if mode = Compute then D data else [])\<rparr>"

section \<open>The loop implements it\<close>

definition emitted ::
  "(bytes \<Rightarrow> bytes) \<Rightarrow> ('u \<Rightarrow> bytes option) \<Rightarrow> (bytes \<Rightarrow> u64) \<Rightarrow> nat \<Rightarrow> WholeFileHash \<Rightarrow>
   bytes list \<Rightarrow> 'u emitter \<Rightarrow> bool" where
  "emitted D msg hv w mode cs em \<longleftrightarrow> em_chunks em = sign_from D hv w 0 cs \<and>
     (case em_whole em of None \<Rightarrow> mode = Skip | Some u \<Rightarrow> mode = Compute \<and> msg u = Some (concat cs))"

lemma emit_chunk_emitted:
  assumes "strong_hash_sound U D msg" and "emitted D msg hv w mode cs em"
    and "emit_chunk U c (hv (last_bytes w c)) (length (concat cs)) em = Inr em'"
  shows "emitted D msg hv w mode (cs @ [c]) em'"
proof -
  obtain full h where h: "sh_hash U (digest_buffer U) c (em_hash em) = Inr (full, h)"
    using assms(3) by (auto simp: emit_chunk_def bind_sum_def split: sum.splits)
  have full: "full = D c" by (rule strong_hash_soundD(5) [OF assms(1) h])
  show ?thesis
    using assms(2,3) h strong_hash_soundD(3) [OF assms(1)]
    by (auto simp: emit_chunk_def emitted_def Let_def full sign_from_append bind_sum_Inr
        split: if_splits option.splits)
qed

lemma last_bytes_id: "length c \<le> w \<Longrightarrow> last_bytes w c = c"
  by (simp add: last_bytes_def)

lemma last_bytes_step:
  assumes "w \<le> length c" and "0 < w"
  shows "last_bytes w (c @ [b]) = tl (last_bytes w c) @ [b]"
proof -
  have "Suc (length c) - w = Suc (length c - w)" using assms by simp
  moreover have "drop (Suc (length c - w)) c = tl (drop (length c - w) c)"
    by (simp add: drop_Suc tl_drop)
  ultimately show ?thesis using assms by (simp add: last_bytes_def)
qed

text \<open>The chunks still to come, the one under construction included, when the loop is at its head.\<close>

definition pending :: "(bytes \<Rightarrow> u64) \<Rightarrow> nat \<Rightarrow> ('t, 'u) sig_run \<Rightarrow> bytes list" where
  "pending hv w r =
     (if sr_init r then chunk_list w (is_cut hv w) (remaining (sr_file r))
      else case first_cut (is_cut hv w) (sr_chunk r) (remaining (sr_file r)) of
             (c, s) \<Rightarrow> c # chunk_list w (is_cut hv w) s)"

text \<open>The chunk left over when the loop stops.\<close>

definition residue :: "('t, 'u) sig_run \<Rightarrow> bytes list" where
  "residue r = (if sr_chunk r = [] then [] else [sr_chunk r])"

text \<open>What every run of the loop does to the file, errors or not.\<close>

definition file_kept :: "fileio \<Rightarrow> fileio \<Rightarrow> bool" where
  "file_kept f f' \<longleftrightarrow> reading f' \<and> st_data (strm f') = st_data (strm f) \<and> fsize f' = fsize f \<and>
     (io_error f \<longrightarrow> io_error f') \<and> (healthy f \<longrightarrow> healthy f')"

lemma file_kept_trans: "file_kept f g \<Longrightarrow> file_kept g h \<Longrightarrow> file_kept f h"
  by (auto simp: file_kept_def)

lemma file_kept_refl: "reading f \<Longrightarrow> file_kept f f"
  by (auto simp: file_kept_def)

lemma delivers_kept: "delivers f f' rest \<Longrightarrow> file_kept f f'"
  by (auto simp: file_kept_def delivers_def)

lemma read_chunk_kept: "read_chunk n f = (bs, f') \<Longrightarrow> reading f \<Longrightarrow> file_kept f f'"
  by (rule delivers_kept [OF read_chunk_delivers(1)])

lemma sig_fill_file: "sig_fill T r = (go, r1) \<Longrightarrow> reading (sr_file r) \<Longrightarrow> file_kept (sr_file r) (sr_file r1)"
  by (auto simp: sig_fill_def Let_def intro: file_kept_refl read_chunk_kept
      split: if_splits prod.splits)

lemma sig_step_file:
  assumes "sig_step T U r = Inr (go, r')" and "reading (sr_file r)"
  shows "file_kept (sr_file r) (sr_file r')"
proof -
  obtain go1 r1 where fill: "sig_fill T r = (go1, r1)" by fastforce
  note k = sig_fill_file [OF fill assms(2)]
  then have rd: "reading (sr_file r1)" by (simp add: file_kept_def)
  obtain b f where rb: "read_byte (sr_file r1) = (b, f)" by fastforce
  have "sr_file r' = sr_file r1 \<or> sr_file r' = f"
    using assms(1) fill rb
    by (auto simp: sig_step_def Let_def bind_sum_def split: bool.splits option.splits
        if_splits sum.splits prod.splits)
  then show ?thesis
    using k delivers_kept [OF read_byte_delivers(1) [OF rb rd]] file_kept_trans by auto
qed

lemma sig_loop_file:
  assumes "sig_loop T U r = Inr r'" and "reading (sr_file r)"
  shows "file_kept (sr_file r) (sr_file r')"
  using assms
proof (induction T U r rule: sig_loop.induct)
  case (1 T U r)
  obtain go r1 where step: "sig_step T U r = Inr (go, r1)"
    using "1.prems"(1) by (subst (asm) sig_loop.simps) (auto split: sum.splits)
  note k = sig_step_file [OF step "1.prems"(2)]
  show ?case
  proof (cases go)
    case True
    then have "sig_loop T U r1 = Inr r'"
      using "1.prems"(1) step by (subst (asm) sig_loop.simps) simp
    then have "file_kept (sr_file r1) (sr_file r')"
      using "1.IH" [OF step refl] True k by (simp add: file_kept_def)
    then show ?thesis using k file_kept_trans by blast
  next
    case False
    then show ?thesis using "1.prems"(1) step k by (subst (asm) sig_loop.simps) simp
  qed
qed

context rolling_fingerprint
begin

definition sig_inv :: "('t, 'u) sig_run \<Rightarrow> bool" where
  "sig_inv r \<longleftrightarrow> reading (sr_file r) \<and> sound (sr_fp r) \<and>
     (if sr_init r then sr_chunk r = []
      else w \<le> length (sr_chunk r) \<and> holds (sr_fp r) (last_bytes w (sr_chunk r)) \<and>
        sr_cur r = hv (last_bytes w (sr_chunk r)))"

text \<open>The chunks \<open>cs\<close> have been emitted, and what was read is those and the chunk under construction.\<close>

definition on_course ::
  "(bytes \<Rightarrow> bytes) \<Rightarrow> ('u \<Rightarrow> bytes option) \<Rightarrow> WholeFileHash \<Rightarrow> bytes list \<Rightarrow> ('t, 'u) sig_run \<Rightarrow> bool" where
  "on_course D msg mode cs r \<longleftrightarrow>
     emitted D msg hv w mode cs (sr_em r) \<and> sr_read r = length (concat cs) + length (sr_chunk r)"

text \<open>The loop has stopped with \<open>rest\<close> to come: the chunk under construction, with its fingerprint.\<close>

definition stopped :: "bytes list \<Rightarrow> ('t, 'u) sig_run \<Rightarrow> bool" where
  "stopped rest r \<longleftrightarrow> rest = residue r \<and> (residue r \<noteq> [] \<longrightarrow> sr_cur r = hv (last_bytes w (sr_chunk r)))"

lemma sig_fill_cases:
  assumes fill: "sig_fill T r = (go, r1)" and inv: "sig_inv r" and ini: "sr_init r" and clean: "\<not> io_error (sr_file r1)"
  obtains (eof) f where "remaining (sr_file r) = []" "\<not> go" "r1 = r\<lparr>sr_file := f\<rparr>"
  | (refilled) f t full nx where "nx \<noteq> []" "nx = take w (remaining (sr_file r))" "remaining f = drop w (remaining (sr_file r))"
      "rh_initialize T nx (sr_fp r) = (full, t)" "go = full"
      "r1 = r\<lparr>sr_file := f, sr_fp := t, sr_read := sr_read r + length nx, sr_chunk := nx,
              sr_cur := rh_current T t, sr_init := \<not> full\<rparr>"
proof -
  have rd: "reading (sr_file r)" and snd: "sound (sr_fp r)" using inv ini by (simp_all add: sig_inv_def)
  obtain nx f where rc: "read_chunk w (sr_file r) = (nx, f)" by fastforce
  obtain full t where it: "rh_initialize T nx (sr_fp r) = (full, t)" by fastforce
  note win = window_size [OF snd]
  have f: "sr_file r1 = f" using fill ini rc it win by (auto simp: sig_fill_def Let_def split: if_splits)
  note cd = read_chunk_delivers [OF rc rd]
  have nx: "nx = take w (remaining (sr_file r))" and rest: "remaining f = drop w (remaining (sr_file r))"
    using cd clean f by (auto simp: delivers_def)
  show thesis
  proof (cases "nx = []")
    case True
    then show thesis using eof nx window_pos fill ini rc win by (auto simp: sig_fill_def)
  next
    case False
    then show thesis using refilled [OF False nx rest it] fill ini rc win it by (cases full) (auto simp: sig_fill_def Let_def)
  qed
qed

lemma sig_fill_correct:
  assumes fill: "sig_fill T r = (go, r1)" and inv: "sig_inv r" and clean: "\<not> io_error (sr_file r1)"
  shows "on_course D msg mode cs r \<Longrightarrow> on_course D msg mode cs r1"
    and "go \<Longrightarrow> sig_inv r1 \<and> \<not> sr_init r1 \<and> pending hv w r1 = pending hv w r"
    and "\<not> go \<Longrightarrow> stopped (pending hv w r) r1"
proof -
  have rd1: "reading (sr_file r1)" using sig_fill_file [OF fill] inv by (simp add: sig_inv_def file_kept_def)
  have "(on_course D msg mode cs r \<longrightarrow> on_course D msg mode cs r1) \<and>
    (go \<longrightarrow> sig_inv r1 \<and> \<not> sr_init r1 \<and> pending hv w r1 = pending hv w r) \<and>
    (\<not> go \<longrightarrow> stopped (pending hv w r) r1)"
  proof (cases "sr_init r")
    case False
    then show ?thesis using fill inv by (auto simp: sig_fill_def)
  next
    case True
    have snd: "sound (sr_fp r)" and nil: "sr_chunk r = []" using inv True by (simp_all add: sig_inv_def)
    from fill inv True clean show ?thesis
    proof (cases rule: sig_fill_cases)
      case (eof f)
      then show ?thesis using True nil by (simp add: pending_def residue_def stopped_def on_course_def)
    next
      case (refilled f t full nx)
      note it = initialize [OF snd refilled(4)]
      have pend: "pending hv w r = (case first_cut (is_cut hv w) nx (remaining f) of
          (c, s) \<Rightarrow> c # chunk_list w (is_cut hv w) s)"
        using True refilled(1-3) by (auto simp: pending_def chunk_list.simps [of w _ "remaining (sr_file r)"])
      have oc: "on_course D msg mode cs r \<Longrightarrow> on_course D msg mode cs r1"
        using nil refilled(6) by (simp add: on_course_def)
      show ?thesis
      proof (cases full)
        case True
        then have "length nx = w" using it refilled(2) by auto
        then show ?thesis using oc it True pend rd1 refilled(5,6)
          by (simp add: sig_inv_def pending_def last_bytes_id)
      next
        case False
        then have short: "length nx < w" using it by auto
        then have "remaining f = []" using refilled(2,3) by (simp add: min_def split: if_splits)
        then show ?thesis using oc pend it refilled(1,5,6) False short
          by (simp add: stopped_def residue_def last_bytes_id)
      qed
    qed
  qed
  then show "on_course D msg mode cs r \<Longrightarrow> on_course D msg mode cs r1"
    and "go \<Longrightarrow> sig_inv r1 \<and> \<not> sr_init r1 \<and> pending hv w r1 = pending hv w r"
    and "\<not> go \<Longrightarrow> stopped (pending hv w r) r1" by blast+
qed

text \<open>A byte is appended to the chunk and rolled into the fingerprint.\<close>

lemma sig_roll_correct:
  assumes "sig_inv r" and "\<not> sr_init r" and "rh_next T x (sr_fp r) = (v, t)" and "c = sr_chunk r @ [x]"
    and "remaining (sr_file r) = x # remaining f"
  shows "holds t (last_bytes w c)" and "sound t" and "v = hv (last_bytes w c)" and "w \<le> length c"
    and "pending hv w r = (if is_cut hv w c then c # chunk_list w (is_cut hv w) (remaining f)
          else case first_cut (is_cut hv w) c (remaining f) of (d, s) \<Rightarrow> d # chunk_list w (is_cut hv w) s)"
proof -
  have i: "w \<le> length (sr_chunk r)" "holds (sr_fp r) (last_bytes w (sr_chunk r))"
    using assms(1,2) by (simp_all add: sig_inv_def)
  show h: "holds t (last_bytes w c)" and "v = hv (last_bytes w c)"
    using next_holds [OF i(2) assms(3)] last_bytes_step [OF i(1) window_pos, of x] holds_current by (auto simp: assms(4))
  show "sound t" using h holds_current by blast
  show "w \<le> length c" using i(1) assms(4) by simp
  show "pending hv w r = (if is_cut hv w c then c # chunk_list w (is_cut hv w) (remaining f)
      else case first_cut (is_cut hv w) c (remaining f) of (d, s) \<Rightarrow> d # chunk_list w (is_cut hv w) s)"
    using assms(2,4,5) by (simp add: pending_def)
qed

lemma sig_step_byte:
  assumes step: "sig_step T U r = Inr (go, r')" and fill: "sig_fill T r = (True, r1)"
    and rb: "read_byte (sr_file r1) = (Some x, f)" and hash: "strong_hash_sound U D msg"
    and inv: "sig_inv r1" "\<not> sr_init r1" and oc: "on_course D msg mode cs r1"
    and rem: "remaining (sr_file r1) = x # remaining f" "reading f"
  shows "go \<and> (\<exists>cs'. sig_inv r' \<and> on_course D msg mode cs' r' \<and> cs' @ pending hv w r' = cs @ pending hv w r1)"
proof -
  obtain v t where nx: "rh_next T x (sr_fp r1) = (v, t)" by fastforce
  define c where "c = sr_chunk r1 @ [x]"
  note roll = sig_roll_correct [OF inv nx c_def rem(1)]
  have cut: "boundary_found (length c) v = is_cut hv w c" unfolding roll(3) by (rule boundary_is_cut)
  define r2 where "r2 = r1\<lparr>sr_file := f, sr_read := sr_read r1 + 1, sr_chunk := c, sr_fp := t, sr_cur := v\<rparr>"
  have n2: "sr_read r2 = length (concat cs) + length c" and em: "emitted D msg hv w mode cs (sr_em r1)"
    using oc by (simp_all add: r2_def c_def on_course_def)
  show ?thesis
  proof (cases "is_cut hv w c")
    case True
    then obtain em' where e: "emit_chunk U c v (length (concat cs)) (sr_em r1) = Inr em'"
      and r': "r' = r2\<lparr>sr_em := em', sr_chunk := [], sr_init := True\<rparr>" and go
      using step fill rb nx cut n2 by (auto simp: sig_step_def Let_def bind_sum_Inr r2_def c_def)
    have "emitted D msg hv w mode (cs @ [c]) em'"
      using emit_chunk_emitted [of U D msg hv w mode cs "sr_em r1" c em'] hash em e roll(3) by simp
    then show ?thesis using True roll(2,5) n2 rem(2) \<open>go\<close>
      by (intro conjI exI [of _ "cs @ [c]"]) (simp_all add: r' r2_def sig_inv_def pending_def on_course_def)
  next
    case False
    then have r': "r' = r2" and go using step fill rb nx cut by (auto simp: sig_step_def Let_def r2_def c_def)
    then show ?thesis using False roll n2 rem(2) inv(2) em
      by (intro conjI exI [of _ cs]) (simp_all add: r2_def sig_inv_def pending_def on_course_def)
  qed
qed

lemma sig_step_correct:
  assumes step: "sig_step T U r = Inr (go, r')" and hash: "strong_hash_sound U D msg"
    and inv: "sig_inv r" and oc: "on_course D msg mode cs r" and clean: "\<not> io_error (sr_file r')"
  shows "if go then \<exists>cs'. sig_inv r' \<and> on_course D msg mode cs' r' \<and> cs' @ pending hv w r' = cs @ pending hv w r
    else on_course D msg mode cs r' \<and> stopped (pending hv w r) r'"
proof -
  obtain go1 r1 where fill: "sig_fill T r = (go1, r1)" by fastforce
  obtain b f where rb: "read_byte (sr_file r1) = (b, f)" by fastforce
  have rd1: "reading (sr_file r1)"
    using sig_fill_file [OF fill] inv by (simp add: sig_inv_def file_kept_def)
  note bd = read_byte_delivers [OF rb rd1]
  have f': "sr_file r' = (if go1 then f else sr_file r1)"
    using step fill rb by (auto simp: sig_step_def Let_def bind_sum_def split: option.splits
        if_splits sum.splits prod.splits)
  then have clean1: "\<not> io_error (sr_file r1)"
    using clean delivers_sticky [OF bd(1)] by (auto split: if_splits)
  note fc = sig_fill_correct [OF fill inv clean1] and oc1 = sig_fill_correct(1) [OF fill inv clean1 oc]
  show ?thesis
  proof (cases go1)
    case False
    then have "go = False" "r' = r1" using step fill by (auto simp: sig_step_def)
    then show ?thesis using fc(3) False oc1 by simp
  next
    case True
    note in1 = fc(2) [OF True]
    show ?thesis
    proof (cases b)
      case None
      then have "go = False" "r' = r1\<lparr>sr_file := f\<rparr>" using step fill True rb by (auto simp: sig_step_def)
      moreover have "remaining (sr_file r1) = []" using bd(2) None clean f' True by (auto split: list.splits)
      moreover have "pending hv w r = pending hv w r1" "\<not> sr_init r1" "sr_chunk r1 \<noteq> []"
          "sr_cur r1 = hv (last_bytes w (sr_chunk r1))"
        using in1 window_pos by (auto simp: sig_inv_def)
      ultimately show ?thesis using oc1 by (simp add: pending_def residue_def stopped_def on_course_def)
    next
      case (Some x)
      have "remaining (sr_file r1) = x # remaining f" and "reading f"
        using bd Some clean f' True by (auto simp: delivers_def split: list.splits)
      then show ?thesis
        using sig_step_byte [OF step fill [unfolded eqTrueI [OF True]] rb [unfolded Some] hash _ _ oc1] in1 by auto
    qed
  qed
qed

lemma sig_loop_correct:
  assumes "sig_loop T U r = Inr r'" and hash: "strong_hash_sound U D msg"
    and "sig_inv r" and "on_course D msg mode cs r" and "\<not> io_error (sr_file r')"
  shows "\<exists>cs'. on_course D msg mode cs' r' \<and> cs' @ residue r' = cs @ pending hv w r \<and> stopped (residue r') r'"
  using assms(1,3-5)
proof (induction "length (remaining (sr_file r))" arbitrary: r cs rule: less_induct)
  case less
  obtain go r1 where step: "sig_step T U r = Inr (go, r1)"
    using less.prems(1) by (subst (asm) sig_loop.simps) (auto split: sum.splits)
  have rd: "reading (sr_file r)" using less.prems(2) by (simp add: sig_inv_def)
  note sf = sig_step_file [OF step rd]
  show ?case
  proof (cases go)
    case True
    then have run1: "sig_loop T U r1 = Inr r'" using less.prems(1) step by (subst (asm) sig_loop.simps) simp
    have "\<not> io_error (sr_file r1)" using sig_loop_file [OF run1] sf less.prems(4) by (auto simp: file_kept_def)
    from sig_step_correct [OF step hash less.prems(2,3) this] True
    obtain cs' where c: "sig_inv r1" "on_course D msg mode cs' r1" "cs' @ pending hv w r1 = cs @ pending hv w r" by auto
    have "length (remaining (sr_file r1)) < length (remaining (sr_file r))" using sig_step_progress [of T U r r1] step True by simp
    from less.hyps [OF this run1 c(1,2) less.prems(4)] c(3) show ?thesis by simp
  next
    case False
    then have "r1 = r'" using less.prems(1) step by (subst (asm) sig_loop.simps) simp
    then show ?thesis using sig_step_correct [OF step hash less.prems(2,3)] False less.prems(4)
      by (intro exI [of _ cs]) (auto simp: stopped_def)
  qed
qed

lemma sig_finish_correct:
  assumes "sig_finish U f n em = Inr (True, sg, f')" and "strong_hash_sound U D msg"
    and "emitted D msg hv w mode cs em"
  shows "sg = \<lparr>sg_chunks = sign_from D hv w 0 cs, sg_whole = (if mode = Compute then D (concat cs) else [])\<rparr>"
    and "\<not> io_error f" and "n = fsize f" and "f' = f"
  using assms strong_hash_soundD(4) [OF assms(2)]
  by (auto simp: sig_finish_def emitted_def has_error_def bind_sum_Inr split: if_splits option.splits)

text \<open>The last chunk is emitted, if there is one, and \<open>finish\<close> runs over all of them.\<close>

lemma sig_residual_emits:
  assumes "sig_residual U r = Inr res" and "strong_hash_sound U D msg" and "on_course D msg mode cs r" and "stopped (residue r) r"
  shows "\<exists>em. emitted D msg hv w mode (cs @ residue r) em \<and> sig_finish U (sr_file r) (sr_read r) em = Inr res"
proof (cases "sr_chunk r = []")
  case True
  then show ?thesis using assms(1,3) by (auto simp: sig_residual_def residue_def on_course_def)
next
  case False
  then obtain em where e: "emit_chunk U (sr_chunk r) (sr_cur r) (length (concat cs)) (sr_em r) = Inr em"
    and fin: "sig_finish U (sr_file r) (sr_read r) em = Inr res"
    using assms(1,3) by (auto simp: sig_residual_def bind_sum_Inr on_course_def)
  have "emitted D msg hv w mode (cs @ [sr_chunk r]) em"
    using emit_chunk_emitted [of U D msg hv w mode cs "sr_em r" "sr_chunk r" em] assms(2-4) e False
    by (simp add: residue_def stopped_def on_course_def)
  then show ?thesis using fin False by (auto simp: residue_def)
qed

lemma on_course_length:
  assumes "on_course D msg mode cs r" and "cs @ residue r = chunk_list w P data"
  shows "length data = sr_read r"
proof -
  have "concat cs @ concat (residue r) = data" by (metis assms(2) concat_append concat_chunk_list)
  then show ?thesis using assms(1) by (auto simp: residue_def on_course_def split: if_splits)
qed

text \<open>The state in which the loop starts.\<close>

definition started :: "fileio \<Rightarrow> 't \<Rightarrow> bytes \<Rightarrow> 'u emitter \<Rightarrow> ('t, 'u) sig_run" where
  "started f t ini em = \<lparr>sr_file = f, sr_fp = t, sr_chunk = ini, sr_cur = rh_current T t,
                         sr_read = length ini, sr_em = em, sr_init = False\<rparr>"

lemma started_correct:
  assumes "rh_initialize T ini (rh_new T) = (True, t)" and "ini = take w data" and "remaining f = drop w data"
    and "reading f" and "emitted D msg hv w mode [] em"
  shows "sig_inv (started f t ini em)" and "on_course D msg mode [] (started f t ini em)"
    and "pending hv w (started f t ini em) = chunk_list w (is_cut hv w) data"
proof -
  note ic = initialize [OF new_sound assms(1)]
  show "sig_inv (started f t ini em)" using ic assms(2,4) by (simp add: sig_inv_def started_def last_bytes_def min_def)
  show "on_course D msg mode [] (started f t ini em)" using assms(5) by (simp add: on_course_def started_def)
  have "data \<noteq> []" using ic assms(2) window_pos by auto
  then show "pending hv w (started f t ini em) = chunk_list w (is_cut hv w) data"
    using assms(2,3) by (simp add: pending_def started_def chunk_list.simps [of w _ data])
qed

lemma sig_run_file_started:
  assumes "read_chunk_at w 0 f = (ini, f1)" and "ini \<noteq> []" and "rh_initialize T ini (rh_new T) = (full, t)"
  shows "sig_run_file T U em f =
    (if full then bind_sum (sig_loop T U (started f1 t ini em)) (sig_residual U)
     else bind_sum (emit_chunk U ini (rh_current T t) 0 em) (\<lambda>em'. sig_finish U f1 (length ini) em'))"
  using assms window_size [OF new_sound] by (simp add: sig_run_file_def started_def Let_def)

lemma sig_run_file_empty:
  assumes "read_chunk_at w 0 f = ([], f1)"
  shows "sig_run_file T U em f = sig_finish U f1 0 em"
  using assms window_size [OF new_sound] by (simp add: sig_run_file_def)

text \<open>A file shorter than the window is a chunk of its own.\<close>

lemma emit_short:
  assumes "strong_hash_sound U D msg" and "rh_initialize T ini (rh_new T) = (False, t)"
    and "emitted D msg hv w mode [] em" and "emit_chunk U ini (rh_current T t) 0 em = Inr em'"
  shows "emitted D msg hv w mode [ini] em'" and "length ini < w"
proof -
  note ic = initialize [OF new_sound assms(2)]
  then show short: "length ini < w" by auto
  show "emitted D msg hv w mode [ini] em'"
    using emit_chunk_emitted [of U D msg hv w mode "[]" em ini em'] assms ic short by (simp add: last_bytes_id)
qed

lemma chunk_list_short: "data \<noteq> [] \<Longrightarrow> length data < w \<Longrightarrow> chunk_list w P data = [data]"
  by (simp add: chunk_list.simps [of w P data])

lemma sig_finish_signature:
  assumes "sig_finish U g n em = Inr (True, sg, f')" and "strong_hash_sound U D msg"
    and "emitted D msg hv w mode (chunk_list w (is_cut hv w) data) em" and "file_kept f g"
  shows "sg = signature_of D hv w mode data" and "fsize f = n" and "file_kept f f'" and "\<not> io_error f'"
  using sig_finish_correct [OF assms(1-3)] assms(4) by (simp_all add: signature_of_def file_kept_def)

text \<open>The whole generator on one file: whenever it reports success, it computed the signature of
  the bytes the file holds.\<close>

lemma sig_run_file_correct:
  assumes run: "sig_run_file T U em f = Inr (True, sg, f')" and hash: "strong_hash_sound U D msg"
    and em: "emitted D msg hv w mode [] em" and rd: "reading f"
  shows "sg = signature_of D hv w mode (st_data (strm f)) \<and> fsize f = length (st_data (strm f)) \<and>
    file_kept f f' \<and> \<not> io_error f'"
proof -
  define data where "data = st_data (strm f)"
  obtain ini f1 where rc: "read_chunk_at w 0 f = (ini, f1)" by fastforce
  obtain full t where it: "rh_initialize T ini (rh_new T) = (full, t)" by fastforce
  note cd = read_chunk_at_delivers [OF rc rd, simplified]
  have k1: "file_kept f f1" and rd1: "reading f1" using cd delivers_kept by (auto simp: file_kept_def)
  have ini: "ini = take w data" "remaining f1 = drop w data" if "\<not> io_error f1"
    using cd that by (auto simp: delivers_def data_def)
  consider (empty) "ini = []" | (short) "ini \<noteq> []" "\<not> full" | (long) "ini \<noteq> []" "full" by blast
  then have "sg = signature_of D hv w mode data \<and> fsize f = length data \<and> file_kept f f' \<and> \<not> io_error f'"
  proof cases
    case empty
    then have fin: "sig_finish U f1 0 em = Inr (True, sg, f')" using run sig_run_file_empty rc by metis
    have "take w data = []" using ini(1) [OF sig_finish_correct(2) [OF fin hash em]] empty by metis
    then have "data = []" using window_pos by simp
    then show ?thesis using sig_finish_signature [OF fin hash _ k1, of mode data] em by simp
  next
    case short
    obtain em' where e: "emit_chunk U ini (rh_current T t) 0 em = Inr em'"
      and fin: "sig_finish U f1 (length ini) em' = Inr (True, sg, f')"
      using run sig_run_file_started [OF rc short(1) it, of U em] short(2) by (auto simp: bind_sum_Inr)
    note es = emit_short [OF hash _ em e] it short(2)
    have "\<not> io_error f1" using sig_finish_correct(2) [OF fin hash] es by simp
    then have "ini = data" using ini(1) es by (simp add: min_def split: if_splits)
    then show ?thesis using sig_finish_signature [OF fin hash _ k1, of mode data] es chunk_list_short short(1) by simp
  next
    case long
    obtain r' where lp: "sig_loop T U (started f1 t ini em) = Inr r'" and res: "sig_residual U r' = Inr (True, sg, f')"
      using run sig_run_file_started [OF rc long(1) it, of U em] long(2) by (auto simp: bind_sum_Inr)
    have kr: "file_kept f1 (sr_file r')" using sig_loop_file [OF lp] rd1 by (simp add: started_def)
    have clean: "\<not> io_error (sr_file r')"
      using res by (auto simp: sig_residual_def sig_finish_def has_error_def bind_sum_Inr split: if_splits option.splits)
    then have "\<not> io_error f1" using kr by (auto simp: file_kept_def)
    note st = started_correct [OF it [unfolded eqTrueI [OF long(2)]] ini [OF this] rd1 em]
    obtain cs' where c: "on_course D msg mode cs' r'" "cs' @ residue r' = chunk_list w (is_cut hv w) data" "stopped (residue r') r'"
      using sig_loop_correct [OF lp hash st(1,2) clean] st(3) by auto
    obtain em2 where em2: "emitted D msg hv w mode (chunk_list w (is_cut hv w) data) em2"
      and fin: "sig_finish U (sr_file r') (sr_read r') em2 = Inr (True, sg, f')"
      using sig_residual_emits [OF res hash c(1,3)] c(2) by auto
    have "length data = sr_read r'" by (rule on_course_length [OF c(1,2)])
    then show ?thesis using sig_finish_signature [OF fin hash em2 file_kept_trans [OF k1 kr]] by simp
  qed
  then show ?thesis by (simp add: data_def)
qed

lemma sig_fill_total:
  "sig_fill T r = (go, r1) \<Longrightarrow> sr_em r1 = sr_em r"
  by (auto simp: sig_fill_def Let_def split: if_splits prod.splits)

end

section \<open>On a file that can be read, generation succeeds\<close>

definition live_emitter :: "('u \<Rightarrow> bool) \<Rightarrow> 'u emitter \<Rightarrow> bool" where
  "live_emitter live em \<longleftrightarrow> live (em_hash em) \<and> (\<forall>u. em_whole em = Some u \<longrightarrow> live u)"

lemma emit_chunk_total:
  assumes "strong_hash_sound U D msg" and "strong_hash_total U msg live" and "DELTA_DIGEST_BYTES \<le> sh_size U"
    and "live_emitter live em" and "emitted D msg hv w mode cs em"
  shows "\<exists>em'. emit_chunk U c v off em = Inr em' \<and> live_emitter live em'"
proof -
  have lv: "live (em_hash em)" using assms(4) by (simp add: live_emitter_def)
  obtain full h where h: "sh_hash U (digest_buffer U) c (em_hash em) = Inr (full, h)" and "live h"
    using assms(2) lv unfolding strong_hash_total_def by blast
  have "length full = sh_size U"
    using strong_hash_soundD(1,5) [OF assms(1)] h by metis
  show ?thesis
  proof (cases "em_whole em")
    case None
    then show ?thesis using h \<open>live h\<close> \<open>length full = _\<close> assms(3)
      by (simp add: emit_chunk_def Let_def live_emitter_def)
  next
    case (Some u)
    then have "live u" and "msg u = Some (concat cs)"
      using assms(4,5) by (simp_all add: live_emitter_def emitted_def)
    then obtain u' where "sh_update U c u = Inr u'" "live u'"
      using strong_hash_totalD(3) [OF assms(2)] by blast
    then show ?thesis using Some h \<open>live h\<close> \<open>length full = _\<close> assms(3)
      by (simp add: emit_chunk_def Let_def live_emitter_def)
  qed
qed

lemma sig_finish_total:
  assumes "strong_hash_total U msg live" and "live_emitter live em" and "emitted D msg hv w mode cs em"
    and "\<not> io_error f" and "n = fsize f"
  shows "\<exists>sg. sig_finish U f n em = Inr (True, sg, f)"
proof (cases "em_whole em")
  case None
  then show ?thesis using assms by (simp add: sig_finish_def has_error_def)
next
  case (Some u)
  then have "live u" and "msg u = Some (concat cs)"
    using assms(2,3) by (simp_all add: live_emitter_def emitted_def)
  then obtain d u' where "sh_finalize U (digest_buffer U) u = Inr (d, u')"
    using strong_hash_totalD(4) [OF assms(1)] by blast
  then show ?thesis using assms Some by (simp add: sig_finish_def has_error_def)
qed

context rolling_fingerprint
begin

lemma sig_step_total:
  assumes "strong_hash_sound U D msg" and "strong_hash_total U msg live" and "DELTA_DIGEST_BYTES \<le> sh_size U"
    and "live_emitter live (sr_em r)" and "emitted D msg hv w mode cs (sr_em r)"
  shows "\<exists>go r'. sig_step T U r = Inr (go, r') \<and> live_emitter live (sr_em r')"
proof -
  obtain go1 r1 where fill: "sig_fill T r = (go1, r1)" by fastforce
  have em1: "sr_em r1 = sr_em r" by (rule sig_fill_total [OF fill])
  obtain b f where rb: "read_byte (sr_file r1) = (b, f)" by fastforce
  show ?thesis
  proof (cases "go1 \<and> b \<noteq> None")
    case True
    then obtain x v t where x: "b = Some x" and nx: "rh_next T x (sr_fp r1) = (v, t)" by fastforce
    obtain em' where "emit_chunk U (sr_chunk r1 @ [x]) v (sr_read r1 + 1 - (length (sr_chunk r1) + 1)) (sr_em r) = Inr em'"
      "live_emitter live em'"
      using emit_chunk_total [OF assms] by blast
    then show ?thesis using fill rb True x nx em1 assms(4)
      by (auto simp: sig_step_def Let_def)
  next
    case False
    then show ?thesis using fill rb em1 assms(4)
      by (cases go1) (auto simp: sig_step_def)
  qed
qed

lemma sig_loop_total:
  assumes "strong_hash_sound U D msg" and "strong_hash_total U msg live" and "DELTA_DIGEST_BYTES \<le> sh_size U"
    and "live_emitter live (sr_em r)" and "on_course D msg mode cs r" and "sig_inv r" and "healthy (sr_file r)"
  shows "\<exists>r'. sig_loop T U r = Inr r' \<and> live_emitter live (sr_em r')"
  using assms(4-7)
proof (induction "length (remaining (sr_file r))" arbitrary: r cs rule: less_induct)
  case less
  obtain go r1 where step: "sig_step T U r = Inr (go, r1)" and lv: "live_emitter live (sr_em r1)"
    using sig_step_total [OF assms(1-3) less.prems(1)] less.prems(2) unfolding on_course_def by blast
  have h1: "healthy (sr_file r1)"
    using sig_step_file [OF step] less.prems(3,4) by (auto simp: sig_inv_def file_kept_def)
  then have clean: "\<not> io_error (sr_file r1)" by (simp add: healthy_def)
  show ?case
  proof (cases go)
    case True
    then have lt: "length (remaining (sr_file r1)) < length (remaining (sr_file r))"
      using sig_step_progress [of T U r r1] step by simp
    from sig_step_correct [OF step assms(1) less.prems(3,2) clean] True
    obtain cs' where "sig_inv r1" "on_course D msg mode cs' r1" by auto
    from less.hyps [OF lt lv this(2,1) h1] show ?thesis
      using step True by (simp add: sig_loop.simps [of T U r])
  next
    case False
    then show ?thesis using step lv by (simp add: sig_loop.simps [of T U r])
  qed
qed

lemma sig_residual_total:
  assumes "strong_hash_sound U D msg" and "strong_hash_total U msg live" and "DELTA_DIGEST_BYTES \<le> sh_size U"
    and "live_emitter live (sr_em r)" and "on_course D msg mode cs r" and "stopped (residue r) r"
    and "\<not> io_error (sr_file r)" and "sr_read r = fsize (sr_file r)"
  shows "\<exists>sg. sig_residual U r = Inr (True, sg, sr_file r)"
proof (cases "sr_chunk r = []")
  case True
  then show ?thesis using sig_finish_total [OF assms(2,4) _ assms(7,8)] assms(5) by (auto simp: sig_residual_def on_course_def)
next
  case False
  have em: "emitted D msg hv w mode cs (sr_em r)" and n: "sr_read r = length (concat cs) + length (sr_chunk r)"
    using assms(5) by (simp_all add: on_course_def)
  obtain em2 where e: "emit_chunk U (sr_chunk r) (sr_cur r) (length (concat cs)) (sr_em r) = Inr em2"
    and lv2: "live_emitter live em2"
    using emit_chunk_total [OF assms(1-4) em] by blast
  have "emitted D msg hv w mode (cs @ [sr_chunk r]) em2"
    using emit_chunk_emitted [of U D msg hv w mode cs "sr_em r" "sr_chunk r" em2] assms(1,6) em e False
    by (simp add: residue_def stopped_def)
  then show ?thesis
    using sig_finish_total [OF assms(2) lv2 _ assms(7,8)] e n False by (auto simp: sig_residual_def)
qed

lemma sig_run_file_total:
  assumes hash: "strong_hash_sound U D msg" and tot: "strong_hash_total U msg live"
    and big: "DELTA_DIGEST_BYTES \<le> sh_size U"
    and lv: "live_emitter live em" and em: "emitted D msg hv w mode [] em"
    and h: "healthy f" and sz: "fsize f = length (st_data (strm f))"
  shows "\<exists>sg f'. sig_run_file T U em f = Inr (True, sg, f')"
proof -
  define data where "data = st_data (strm f)"
  have rd: "reading f" using h by (simp add: healthy_def)
  obtain ini f1 where rc: "read_chunk_at w 0 f = (ini, f1)" by fastforce
  obtain full t where it: "rh_initialize T ini (rh_new T) = (full, t)" by fastforce
  note cd = read_chunk_at_delivers [OF rc rd, simplified]
  have h1: "healthy f1" and d1: "fsize f1 = length data" and rd1: "reading f1" and c1: "\<not> io_error f1"
    using cd(1) h sz by (auto simp: delivers_def data_def healthy_def)
  have ini: "ini = take w data" "remaining f1 = drop w data" using cd c1 by (simp_all add: delivers_def data_def)
  consider (empty) "ini = []" | (short) "ini \<noteq> []" "\<not> full" | (long) "ini \<noteq> []" "full" by blast
  then show ?thesis
  proof cases
    case empty
    then have "data = []" using ini(1) window_pos by simp
    then obtain sg where "sig_finish U f1 0 em = Inr (True, sg, f1)" using sig_finish_total [OF tot lv em c1, of 0] d1 by auto
    then show ?thesis by (intro exI [of _ sg] exI [of _ f1]) (simp add: sig_run_file_empty [OF rc [unfolded empty]])
  next
    case short
    obtain em' where e: "emit_chunk U ini (rh_current T t) 0 em = Inr em'" and lv': "live_emitter live em'"
      using emit_chunk_total [OF hash tot big lv em] by blast
    note es = emit_short [OF hash _ em e] it short(2)
    then have "length ini = fsize f1" using ini(1) d1 by simp
    then have "\<exists>sg. sig_finish U f1 (length ini) em' = Inr (True, sg, f1)"
      using sig_finish_total [OF tot lv' _ c1] es(1) it short(2) by simp
    then show ?thesis using e sig_run_file_started [OF rc short(1) it, of U em] short(2) by auto
  next
    case long
    note st = started_correct [OF it [unfolded eqTrueI [OF long(2)]] ini rd1 em]
    obtain r' where lp: "sig_loop T U (started f1 t ini em) = Inr r'" and lv': "live_emitter live (sr_em r')"
      using sig_loop_total [OF hash tot big _ st(2,1)] lv h1 by (auto simp: started_def)
    have "file_kept f1 (sr_file r')" using sig_loop_file [OF lp] rd1 by (simp add: started_def)
    then have clean: "\<not> io_error (sr_file r')" and sz': "fsize (sr_file r') = length data"
      using h1 d1 by (auto simp: file_kept_def healthy_def)
    obtain cs' where c: "on_course D msg mode cs' r'" "cs' @ residue r' = chunk_list w (is_cut hv w) data" "stopped (residue r') r'"
      using sig_loop_correct [OF lp hash st(1,2) clean] st(3) by auto
    have "sr_read r' = fsize (sr_file r')" using on_course_length [OF c(1,2)] sz' by simp
    from sig_residual_total [OF hash tot big lv' c(1,3) clean this] show ?thesis
      using sig_run_file_started [OF rc long(1) it, of U em] long(2) lp by auto
  qed
qed

lemma generate_signatures_correct:
  assumes run: "generate_signatures T U mode f = Inr (True, sg, f')" and hash: "strong_hash_sound U D msg"
    and rd: "reading f"
  shows "sg = signature_of D hv w mode (st_data (strm f))" and "fsize f = length (st_data (strm f))"
    and "file_kept f f'" and "\<not> io_error f'"
proof -
  obtain h whole where r: "sig_run_file T U \<lparr>em_chunks = [], em_hash = h, em_whole = whole\<rparr> f = Inr (True, sg, f')"
    and wh: "case whole of None \<Rightarrow> mode = Skip | Some u \<Rightarrow> mode = Compute \<and> (\<exists>u0. sh_init U u0 = Inr u)"
  proof (cases mode)
    case Skip
    then obtain h where "sig_run_file T U \<lparr>em_chunks = [], em_hash = h, em_whole = None\<rparr> f = Inr (True, sg, f')"
      using run rd by (auto simp: generate_signatures_def reading_def bind_sum_Inr)
    then show ?thesis using Skip by (intro that [of h None]) auto
  next
    case Compute
    then obtain h u0 u where "sh_init U u0 = Inr u"
      "sig_run_file T U \<lparr>em_chunks = [], em_hash = h, em_whole = Some u\<rparr> f = Inr (True, sg, f')"
      using run rd by (auto simp: generate_signatures_def reading_def bind_sum_Inr)
    then show ?thesis using Compute by (intro that [of h "Some u"]) auto
  qed
  then have "emitted D msg hv w mode [] \<lparr>em_chunks = [], em_hash = h, em_whole = whole\<rparr>"
    using strong_hash_soundD(2) [OF hash] by (auto simp: emitted_def split: option.splits)
  from sig_run_file_correct [OF r hash this rd]
  show "sg = signature_of D hv w mode (st_data (strm f))" and "fsize f = length (st_data (strm f))"
    and "file_kept f f'" and "\<not> io_error f'" by simp_all
qed

lemma generate_signatures_total:
  assumes hash: "strong_hash_sound U D msg" and tot: "strong_hash_total U msg live"
    and big: "DELTA_DIGEST_BYTES \<le> sh_size U"
    and h: "healthy f" and sz: "fsize f = length (st_data (strm f))"
  shows "\<exists>f'. generate_signatures T U mode f =
      Inr (True, signature_of D hv w mode (st_data (strm f)), f')"
proof -
  have rd: "reading f" using h by (simp add: healthy_def)
  obtain u where u: "sh_new U = Inr u" "live u" using strong_hash_totalD(1) [OF tot] by blast
  obtain u1 where u1: "sh_init U u = Inr u1" "live u1" using strong_hash_totalD(2) [OF tot u(2)] by blast
  define em where "em = \<lparr>em_chunks = [], em_hash = u, em_whole = (if mode = Compute then Some u1 else None)\<rparr>"
  have "live_emitter live em" using u u1 by (simp add: live_emitter_def em_def)
  moreover have "emitted D msg hv w mode [] em"
    using strong_hash_soundD(2) [OF hash u1(1)] by (cases mode) (simp_all add: emitted_def em_def)
  ultimately obtain sg f' where "sig_run_file T U em f = Inr (True, sg, f')"
    using sig_run_file_total [OF hash tot big _ _ h sz] by blast
  then have "generate_signatures T U mode f = Inr (True, sg, f')"
    using rd u u1 by (cases mode) (simp_all add: generate_signatures_def reading_def em_def)
  with generate_signatures_correct(1) [OF this hash rd] show ?thesis by blast
qed

end

section \<open>What a signature is made of\<close>

lemma first_cut_sizes:
  assumes "first_cut (is_cut hv w) c r = (d, s)" and "length c < DELTA_MAX_CHUNK_SIZE"
  shows "length d \<le> DELTA_MAX_CHUNK_SIZE \<and> length c \<le> length d \<and> (s \<noteq> [] \<longrightarrow> is_cut hv w d)"
  using assms
proof (induction r arbitrary: c)
  case (Cons b r)
  show ?case
  proof (cases "is_cut hv w (c @ [b])")
    case True
    then show ?thesis using Cons.prems by auto
  next
    case False
    then have "length (c @ [b]) < DELTA_MAX_CHUNK_SIZE"
      by (simp add: is_cut_def)
    with Cons.IH [of "c @ [b]"] Cons.prems False show ?thesis by simp
  qed
qed simp

lemma chunk_list_sizes:
  assumes "0 < w" and "w < DELTA_MAX_CHUNK_SIZE"
  shows "(\<forall>c \<in> set (chunk_list w (is_cut hv w) data). 0 < length c \<and> length c \<le> DELTA_MAX_CHUNK_SIZE) \<and>
    (\<forall>c \<in> set (butlast (chunk_list w (is_cut hv w) data)). is_cut hv w c)"
proof (induction "length data" arbitrary: data rule: less_induct)
  case less
  show ?case
  proof (cases "data = []")
    case False
    obtain c r where f: "first_cut (is_cut hv w) (take w data) (drop w data) = (c, r)" by fastforce
    have cl: "chunk_list w (is_cut hv w) data = c # chunk_list w (is_cut hv w) r"
      using f False by (simp add: chunk_list.simps [of w _ data])
    have lt: "length (take w data) < DELTA_MAX_CHUNK_SIZE" and pos: "0 < length (take w data)"
      using assms False by (auto simp: min_def)
    note fs = first_cut_sizes [OF f lt]
    have "0 < length c" using fs pos by linarith
    moreover have "length c \<le> DELTA_MAX_CHUNK_SIZE" "r \<noteq> [] \<Longrightarrow> is_cut hv w c"
      using fs by blast+
    moreover have "r \<noteq> []" if "chunk_list w (is_cut hv w) r \<noteq> []" using that by auto
    moreover note less.hyps [OF chunk_progress [OF f False]]
    ultimately show ?thesis by (auto simp: cl)
  qed simp
qed

text \<open>The bytes a chunk describes.\<close>

definition chunk_bytes :: "bytes \<Rightarrow> SignedChunk \<Rightarrow> bytes" where
  "chunk_bytes data c = take (chunk_size c) (drop (start_offset c) data)"

lemma sign_from_bytes:
  "map (chunk_bytes (pre @ concat cs)) (sign_from D hv w (length pre) cs) = cs"
proof (induction cs arbitrary: pre)
  case (Cons c cs)
  from Cons [of "pre @ c"] show ?case by (simp add: chunk_bytes_def)
qed simp

lemma length_sign_from [simp]: "length (sign_from D hv w off cs) = length cs"
  by (induction cs arbitrary: off) auto

lemma sign_from_nth:
  "i < length cs \<Longrightarrow> sign_from D hv w off cs ! i =
     \<lparr>signature = hv (last_bytes w (cs ! i)), sc_hash = take DELTA_DIGEST_BYTES (D (cs ! i)),
      start_offset = off + length (concat (take i cs)), chunk_size = length (cs ! i)\<rparr>"
  by (induction cs arbitrary: off i) (auto simp: nth_Cons split: nat.splits)

text \<open>Chunking is local: what follows a boundary is chunked as a file of its own.\<close>

lemma chunk_list_suffix:
  "chunk_list w P data = cs @ ds \<Longrightarrow> chunk_list w P (concat ds) = ds"
proof (induction cs arbitrary: data)
  case Nil
  then show ?case by (metis append_Nil concat_chunk_list)
next
  case (Cons c cs)
  then obtain r where "chunk_list w P r = cs @ ds"
    by (subst (asm) (2) chunk_list.simps) (auto split: if_splits prod.splits)
  then show ?case by (rule Cons.IH)
qed

section \<open>Constant content\<close>

lemma rk_poly_replicate: "rk_poly a (replicate n b) = unat b * rk_poly a (replicate n 1)"
proof (induction n)
  case (Suc n)
  have r: "replicate (Suc n) x = replicate n x @ [x]" for x :: byte by (simp add: replicate_append_same)
  show ?case unfolding r by (simp add: Suc algebra_simps)
qed simp

lemma rk_poly_ones: "255 * rk_poly 256 (replicate n 1) + 1 = 256 ^ n"
proof (induction n)
  case (Suc n)
  have r: "replicate (Suc n) x = replicate n x @ [x]" for x :: byte by (simp add: replicate_append_same)
  show ?case using Suc unfolding r by simp
qed simp

lemma window_sum: "rk_poly 256 (replicate 48 1) mod 2147483647 = 252645151"
proof -
  have "rk_poly 256 (replicate 48 1) = (256 ^ 48 - 1) div 255"
    using rk_poly_ones [of 48] by linarith
  then show ?thesis by simp
qed

lemma constant_values: "list_all (\<lambda>n. n * 252645151 mod 2147483647 mod 4096 \<noteq> (2731 :: int)) [0..255]"
  by code_simp

lemma constant_value:
  "unat (rk_value rk_default (replicate 48 b)) mod 4096 \<noteq> 2731"
proof -
  have "0 < unat (modulus rk_default)" by (simp add: rk_default_fields)
  then have "unat (rk_value rk_default (replicate 48 b)) = rk_poly 256 (replicate 48 b) mod 2147483647"
    by (simp add: unat_rk_value rk_default_fields)
  also have "\<dots> = unat b * (rk_poly 256 (replicate 48 1) mod 2147483647) mod 2147483647"
    by (simp only: rk_poly_replicate [of 256 48 b] mod_mult_right_eq)
  finally have v: "unat (rk_value rk_default (replicate 48 b)) = unat b * 252645151 mod 2147483647"
    by (simp only: window_sum)
  have "int (unat b) \<le> 255" using byte_le_255 [of b] by linarith
  then have "int (unat b) \<in> set [0..255]" by simp
  then have "int (unat b) * 252645151 mod 2147483647 mod 4096 \<noteq> 2731"
    using constant_values unfolding list_all_iff by blast
  moreover have "int (unat b * 252645151 mod 2147483647 mod 4096) =
      int (unat b) * 252645151 mod 2147483647 mod 4096"
    by (simp add: zmod_int)
  ultimately have "int (unat b * 252645151 mod 2147483647 mod 4096) \<noteq> int 2731" by simp
  then show ?thesis unfolding v by (metis of_nat_eq_iff)
qed

lemma first_cut_constant:
  assumes never: "\<And>k. i < k \<Longrightarrow> k < m \<Longrightarrow> \<not> P (replicate k b)" and at: "P (replicate m b)" and "i < m"
  shows "first_cut P (replicate i b) (replicate j b) =
    (if i + j < m then (replicate (i + j) b, []) else (replicate m b, replicate (i + j - m) b))"
  using assms
proof (induction j arbitrary: i)
  case (Suc j)
  have snoc: "replicate i b @ [b] = replicate (Suc i) b" by (simp add: replicate_append_same)
  show ?case
  proof (cases "Suc i = m")
    case True
    then have "P (replicate i b @ [b])" "replicate i b @ [b] = replicate m b"
      using Suc.prems(2) snoc by simp_all
    then show ?thesis using True by simp
  next
    case False
    then have "Suc i < m" using Suc.prems(3) by simp
    then have "\<not> P (replicate (Suc i) b)" using Suc.prems(1) [of "Suc i"] by simp
    then show ?thesis using Suc.IH [of "Suc i"] Suc.prems \<open>Suc i < m\<close> snoc
      by (simp del: replicate_Suc add: replicate_Suc [of j])
  qed
qed simp

lemma chunk_list_constant:
  assumes never: "\<And>k. w < k \<Longrightarrow> k < m \<Longrightarrow> \<not> P (replicate k b)" and at: "P (replicate m b)"
    and "0 < w" and "w < m"
  shows "chunk_list w P (replicate n b) =
    replicate (n div m) (replicate m b) @ (if n mod m = 0 then [] else [replicate (n mod m) b])"
proof (induction n rule: less_induct)
  case (less n)
  show ?case
  proof (cases "n < m")
    case True
    then have "chunk_list w P (replicate n b) = (if n = 0 then [] else [replicate n b])"
      using first_cut_constant [of w m P b "n - w"] assms
      by (auto simp: chunk_list.simps [of w P "replicate n b"] min_def)
    then show ?thesis using True by simp
  next
    case False
    then have "n \<noteq> 0" "w < n" using assms by auto
    moreover have "first_cut P (replicate w b) (replicate (n - w) b) = (replicate m b, replicate (n - m) b)"
      using first_cut_constant [of w m P b "n - w"] assms False by simp
    ultimately have "chunk_list w P (replicate n b) = replicate m b # chunk_list w P (replicate (n - m) b)"
      by (simp add: chunk_list.simps [of w P "replicate n b"] min_def)
    moreover have "n div m = Suc ((n - m) div m)" "n mod m = (n - m) mod m"
      using False assms by (simp_all add: le_div_geq le_mod_geq)
    ultimately show ?thesis using less [of "n - m"] False assms by simp
  qed
qed

lemma last_bytes_replicate: "w \<le> k \<Longrightarrow> last_bytes w (replicate k b) = replicate w b"
  by (simp add: last_bytes_def)

lemma constant_no_boundary:
  assumes "48 < k" and "k < DELTA_MAX_CHUNK_SIZE"
  shows "\<not> is_cut (rk_value rk_default) 48 (replicate k b)"
proof -
  let ?v = "unat (rk_value rk_default (replicate 48 b))"
  have "?v mod 2 ^ 12 = ?v mod 2 ^ 14 mod 2 ^ 12" by (simp add: mod_mod_cancel)
  moreover have "?v mod 2 ^ 12 \<noteq> 2731" using constant_value [of b] by simp
  ultimately have "?v mod 2 ^ 14 \<noteq> 10923" by (intro notI) simp
  then show ?thesis using assms \<open>?v mod 2 ^ 12 \<noteq> 2731\<close> by (simp add: is_cut_def last_bytes_replicate)
qed

section \<open>Properties of signature generation\<close>

lemma nth_butlast_mem: "Suc i < length xs \<Longrightarrow> xs ! i \<in> set (butlast xs)"
  using nth_mem [of i "butlast xs"] nth_butlast [of i xs] by simp

text \<open>The shipped instance: the default fingerprint over a window of 48 bytes, and BLAKE2b over the
  digest interface \<open>E\<close>.\<close>

definition chunks_of :: "bytes \<Rightarrow> bytes list" where
  "chunks_of data = chunk_list 48 (is_cut (rk_value rk_default) 48) data"

definition sign :: "(bytes \<Rightarrow> bytes) \<Rightarrow> bytes \<Rightarrow> SignedChunk list" where
  "sign D data = sign_from D (rk_value rk_default) 48 0 (chunks_of data)"

lemma window_48: "unat (window_size rk_default) = 48"
  by (simp add: rk_default_fields)

lemma sg_chunks_sign [simp]: "sg_chunks (signature_of D (rk_value rk_default) 48 mode data) = sign D data"
  by (simp add: signature_of_def sign_def chunks_of_def)

lemmas shipped_correct = rk.generate_signatures_correct [unfolded window_48]
lemmas shipped_total = rk.generate_signatures_total [unfolded window_48]

lemma concat_chunks_of [simp]: "concat (chunks_of data) = data"
  by (simp add: chunks_of_def)

text \<open>C16 Whenever \<open>generate_signatures\<close> reports success, the chunks and the whole-file digest are those of
  the declarative content-defined chunking of the bytes the file holds, whatever was read from the
  handle before and even if the device failed on the way; the handle keeps its contents and holds no
  error.\<close>

theorem signature_refines_chunking:
  assumes "generate_signatures (rk_alg rk_default) U mode f = Inr (True, sg, f')"
    and "strong_hash_sound U D msg" and "reading f"
  shows "sg = signature_of D (rk_value rk_default) 48 mode (st_data (strm f)) \<and>
    fsize f = length (st_data (strm f)) \<and> \<not> io_error f' \<and> st_data (strm f') = st_data (strm f)"
  using shipped_correct [OF assms] by (simp add: file_kept_def)

lemma record_alg_size: "DELTA_DIGEST_BYTES \<le> sh_size (blake_alg record_evp)"
  by (simp add: blake_alg_def HASH_SIZE_def DELTA_DIGEST_BYTES_def)

theorem signature_refines_chunking_witness:
  "\<exists>sg f'. generate_signatures (rk_alg rk_default) (blake_alg record_evp) Compute (file_of [1, 2, 3]) = Inr (True, sg, f') \<and>
     map chunk_size (sg_chunks sg) = [3] \<and> sg_whole sg = record_digest [1, 2, 3]"
proof -
  have "\<exists>f'. generate_signatures (rk_alg rk_default) (blake_alg record_evp) Compute (file_of [1, 2, 3]) =
      Inr (True, signature_of record_digest (rk_value rk_default) 48 Compute (st_data (strm (file_of [1, 2, 3]))), f')"
    by (rule shipped_total [OF record_alg_sound record_alg_total record_alg_size]) simp_all
  then obtain sg f' where g: "generate_signatures (rk_alg rk_default) (blake_alg record_evp) Compute (file_of [1, 2, 3]) =
      Inr (True, sg, f')" by blast
  from signature_refines_chunking [OF this record_alg_sound] have "sg = signature_of record_digest
      (rk_value rk_default) 48 Compute [1, 2, 3]" by simp
  with g show ?thesis by (intro exI [of _ sg] exI [of _ f']) (simp add: signature_of_def chunk_list.simps)
qed

text \<open>C28 On an input that can be read, generation always finishes and succeeds, for every content including
  the empty file and files shorter than one window.\<close>

theorem signature_generation_total:
  assumes "strong_hash_sound U D msg" and "strong_hash_total U msg live" and "DELTA_DIGEST_BYTES \<le> sh_size U"
    and "healthy f" and "fsize f = length (st_data (strm f))"
  shows "\<exists>sg f'. generate_signatures (rk_alg rk_default) U mode f = Inr (True, sg, f') \<and>
    sg_chunks sg = sign D (st_data (strm f))"
  using shipped_total [OF assms] by fastforce

theorem signature_generation_total_witness:
  "\<exists>sg f'. generate_signatures (rk_alg rk_default) (blake_alg record_evp) Skip (file_of []) = Inr (True, sg, f') \<and>
    sg_chunks sg = sign record_digest []"
  using signature_generation_total [OF record_alg_sound record_alg_total record_alg_size, of "file_of []" Skip]
  by simp

text \<open>The signed chunks tile the file: chunk \<open>i\<close> begins where the chunks before it end, is never empty nor
  longer than the format's maximum, every chunk but the last reaches the minimum size and ends at a
  boundary, each digest is that of its bytes, and together they are the whole file.\<close>

lemma signed_chunks_tile:
  "map (chunk_bytes data) (sign D data) = chunks_of data \<and> concat (chunks_of data) = data \<and>
   (\<forall>i. i < length (sign D data) \<longrightarrow>
      start_offset (sign D data ! i) = length (concat (take i (chunks_of data))) \<and>
      0 < chunk_size (sign D data ! i) \<and> chunk_size (sign D data ! i) \<le> DELTA_MAX_CHUNK_SIZE \<and>
      (Suc i < length (sign D data) \<longrightarrow> DELTA_MIN_CHUNK_SIZE \<le> chunk_size (sign D data ! i)) \<and>
      sc_hash (sign D data ! i) = take DELTA_DIGEST_BYTES (D (chunk_bytes data (sign D data ! i))))"
proof (intro conjI allI impI)
  note sz = chunk_list_sizes [of 48 "rk_value rk_default" data, folded chunks_of_def]
  have max: "48 < DELTA_MAX_CHUNK_SIZE" by (simp add: DELTA_MAX_CHUNK_SIZE_def)
  show bytes: "map (chunk_bytes data) (sign D data) = chunks_of data"
    using sign_from_bytes [of "[]" "chunks_of data" D "rk_value rk_default" 48] by (simp add: sign_def)
  show "concat (chunks_of data) = data" by simp
  fix i assume i: "i < length (sign D data)"
  then have i': "i < length (chunks_of data)" by (simp add: sign_def)
  note nth = sign_from_nth [OF i', of D "rk_value rk_default" 48 0, folded sign_def]
  show "start_offset (sign D data ! i) = length (concat (take i (chunks_of data)))" using nth by simp
  show "0 < chunk_size (sign D data ! i)" and "chunk_size (sign D data ! i) \<le> DELTA_MAX_CHUNK_SIZE"
    using nth sz max i' by simp_all
  show "sc_hash (sign D data ! i) = take DELTA_DIGEST_BYTES (D (chunk_bytes data (sign D data ! i)))"
    using nth nth_map [OF i, of "chunk_bytes data"] bytes by simp
  assume "Suc i < length (sign D data)"
  then have "chunks_of data ! i \<in> set (butlast (chunks_of data))"
    using nth_butlast_mem [of i "chunks_of data"] by (simp add: sign_def)
  then have "is_cut (rk_value rk_default) 48 (chunks_of data ! i)" using sz max by simp
  then show "DELTA_MIN_CHUNK_SIZE \<le> chunk_size (sign D data ! i)"
    using nth by (auto simp: is_cut_def DELTA_MAX_CHUNK_SIZE_def DELTA_MIN_CHUNK_SIZE_def split: if_splits)
qed

lemma chunks_of_replicate:
  "chunks_of (replicate n b) =
     replicate (n div DELTA_MAX_CHUNK_SIZE) (replicate DELTA_MAX_CHUNK_SIZE b) @
     (if n mod DELTA_MAX_CHUNK_SIZE = 0 then [] else [replicate (n mod DELTA_MAX_CHUNK_SIZE) b])"
  unfolding chunks_of_def
proof (rule chunk_list_constant)
  show "\<not> is_cut (rk_value rk_default) 48 (replicate k b)" if "48 < k" "k < DELTA_MAX_CHUNK_SIZE" for k
    using that by (rule constant_no_boundary)
  show "is_cut (rk_value rk_default) 48 (replicate DELTA_MAX_CHUNK_SIZE b)"
    by (simp add: is_cut_def)
qed (simp_all add: DELTA_MAX_CHUNK_SIZE_def)

text \<open>What a chunk's record says, but for where the chunk begins.\<close>

definition chunk_identity :: "SignedChunk \<Rightarrow> u64 \<times> bytes \<times> nat" where
  "chunk_identity c = (signature c, sc_hash c, chunk_size c)"

lemma sign_from_sizes: "map chunk_size (sign_from D hv w off cs) = map length cs"
  by (induction cs arbitrary: off) simp_all

lemma sign_from_identity: "map chunk_identity (sign_from D hv w off cs) = map chunk_identity (sign_from D hv w 0 cs)"
  by (induction cs arbitrary: off) (simp_all add: chunk_identity_def, metis)

lemma sign_from_drop: "\<exists>off. drop i (sign_from D hv w 0 cs) = sign_from D hv w off (drop i cs)"
  using sign_from_append [of D hv w 0 "take i cs" "drop i cs"]
  by (cases "i \<le> length cs") (auto)

text \<open>A prefix that is made of whole chunks leaves the rest to be cut by itself.\<close>

lemma chunks_after:
  assumes "sum_list (map chunk_size (take i (sign D (p @ t)))) = length p"
  shows "drop i (chunks_of (p @ t)) = chunks_of t"
proof -
  let ?as = "take i (chunks_of (p @ t))" and ?cs = "drop i (chunks_of (p @ t))"
  have "concat ?as @ concat ?cs = p @ t" by (metis append_take_drop_id concat_append concat_chunks_of)
  moreover have "length (concat ?as) = length p"
    using assms sign_from_sizes [of D "rk_value rk_default" 48 0 "chunks_of (p @ t)"]
    by (simp add: length_concat sign_def take_map [symmetric])
  ultimately have t: "concat ?cs = t" by simp
  have "chunk_list 48 (is_cut (rk_value rk_default) 48) (concat ?cs) = ?cs"
    using chunk_list_suffix [of 48 _ "p @ t" ?as ?cs] by (simp add: chunks_of_def)
  with t show ?thesis by (simp add: chunks_of_def)
qed

lemma identities_after:
  assumes "sum_list (map chunk_size (take i (sign D (p @ t)))) = length p"
  shows "map chunk_identity (drop i (sign D (p @ t))) = map chunk_identity (sign D t)"
  using sign_from_drop [of i D "rk_value rk_default" 48 "chunks_of (p @ t)"] chunks_after [OF assms] sign_from_identity
  unfolding sign_def by metis

lemma record_run:
  "\<exists>sg f'. generate_signatures (rk_alg rk_default) (blake_alg record_evp) Skip (file_of bs) = Inr (True, sg, f') \<and>
     sg_chunks sg = sign record_digest bs"
  using shipped_total [OF record_alg_sound record_alg_total record_alg_size, of "file_of bs" Skip] by fastforce

text \<open>C30 Constant content is cut into chunks of the maximal size only: no run of a single byte value, whichever
  of the 256, ever satisfies the boundary predicate early.\<close>

theorem constant_content_max_chunks:
  assumes "generate_signatures (rk_alg rk_default) U mode f = Inr (True, sg, f')"
    and "strong_hash_sound U D msg" and "reading f" and "st_data (strm f) = replicate n b"
  shows "map chunk_size (sg_chunks sg) = replicate (n div DELTA_MAX_CHUNK_SIZE) DELTA_MAX_CHUNK_SIZE @
    (if n mod DELTA_MAX_CHUNK_SIZE = 0 then [] else [n mod DELTA_MAX_CHUNK_SIZE])"
  using shipped_correct [OF assms(1-3)] assms(4) by (simp add: sign_def sign_from_sizes chunks_of_replicate)

theorem constant_content_max_chunks_witness:
  "\<exists>sg f'. generate_signatures (rk_alg rk_default) (blake_alg record_evp) Skip (file_of (replicate 40000 7)) =
       Inr (True, sg, f') \<and> map chunk_size (sg_chunks sg) = [16384, 16384, 7232]"
proof -
  obtain sg f' where g: "generate_signatures (rk_alg rk_default) (blake_alg record_evp) Skip (file_of (replicate 40000 7)) =
      Inr (True, sg, f')" using record_run by blast
  have "reading (file_of (replicate 40000 7))" and "st_data (strm (file_of (replicate 40000 7))) = replicate 40000 7"
    by (simp_all)
  from constant_content_max_chunks [OF g record_alg_sound this] g show ?thesis
    by (simp add: DELTA_MAX_CHUNK_SIZE_def numeral_2_eq_2)
qed

text \<open>C31 Chunking is local: when two files end alike, and in both the common part begins where a chunk
  begins, the chunks of that part have the same fingerprints, digests and sizes in the two signatures;
  an edit changes no chunk beyond the first boundary the two have in common.\<close>

theorem chunking_is_local:
  assumes "generate_signatures (rk_alg rk_default) U mode f = Inr (True, sf, f')"
    and "generate_signatures (rk_alg rk_default) U mode g = Inr (True, sg, g')"
    and "strong_hash_sound U D msg" and "reading f" and "reading g"
    and "st_data (strm f) = p @ t" and "st_data (strm g) = q @ t"
    and "sum_list (map chunk_size (take i (sg_chunks sf))) = length p"
    and "sum_list (map chunk_size (take j (sg_chunks sg))) = length q"
  shows "map chunk_identity (drop i (sg_chunks sf)) = map chunk_identity (drop j (sg_chunks sg))"
  using shipped_correct [OF assms(1,3,4)] shipped_correct [OF assms(2,3,5)] assms(6-9)
    identities_after [of i D p t] identities_after [of j D q t] by simp

theorem chunking_is_local_witness:
  "\<exists>sf f' sg g'.
     generate_signatures (rk_alg rk_default) (blake_alg record_evp) Skip (file_of (replicate 16384 7 @ [7, 7])) = Inr (True, sf, f') \<and>
     generate_signatures (rk_alg rk_default) (blake_alg record_evp) Skip (file_of [7, 7]) = Inr (True, sg, g') \<and>
     map chunk_identity (drop 1 (sg_chunks sf)) = map chunk_identity (sg_chunks sg)"
proof -
  let ?a = "replicate 16384 (7 :: byte) @ [7, 7]"
  obtain sf f' where f: "generate_signatures (rk_alg rk_default) (blake_alg record_evp) Skip (file_of ?a) = Inr (True, sf, f')"
      "sg_chunks sf = sign record_digest ?a" using record_run by blast
  obtain sg g' where g: "generate_signatures (rk_alg rk_default) (blake_alg record_evp) Skip (file_of [7, 7]) = Inr (True, sg, g')"
    using record_run by blast
  have "?a = replicate 16386 7" using replicate_add [of 16384 2 "7 :: byte"] by (simp add: numeral_2_eq_2)
  then have "map length (chunks_of ?a) = [16384, 2]"
    by (simp add: chunks_of_replicate DELTA_MAX_CHUNK_SIZE_def)
  then have "sum_list (map chunk_size (take 1 (sg_chunks sf))) = length (replicate 16384 (7 :: byte))"
    using f(2) by (simp add: sign_def sign_from_sizes take_map [symmetric])
  from chunking_is_local [OF f(1) g record_alg_sound _ _ _ _ this, of "[7, 7]" "[]" 0] f(1) g show ?thesis
    by (simp)
qed

end
