(* ===== verification/File_System.thy ===== *)
theory File_System
  imports File_IO Delta_Format
begin

text \<open>
  The file system as the program sees it through \<^verbatim>\<open>std::filesystem\<close> and POSIX calls, and
  \<open>FileIO::open\<close> (\<^verbatim>\<open>src/src/FileIO.cpp\<close>) on it.  A world maps names to nodes, so two names of one
  node model hard and symbolic links; it also holds the faults still to come: each call that can
  fail takes one element of \<open>w_errs\<close>, \<open>Some msg\<close> for a failure whose \<open>error_code\<close> has that message,
  and each stream that is opened takes its fault plan from \<open>w_plans\<close>.
\<close>

section \<open>Paths\<close>

type_synonym path = string

definition filename :: "path \<Rightarrow> path" where
  "filename p = rev (takeWhile (\<lambda>c. c \<noteq> CHR ''/'') (rev p))"

definition parent_path :: "path \<Rightarrow> path" where
  "parent_path p =
     (let dir = take (length p - length (filename p)) p;
          stripped = rev (dropWhile (\<lambda>c. c = CHR ''/'') (rev dir))
      in if stripped = [] then (if dir = [] then [] else ''/'') else stripped)"

text \<open>\<open>operator/\<close> with a relative right-hand side.\<close>

definition path_append :: "path \<Rightarrow> path \<Rightarrow> path" where
  "path_append dir name =
     (if dir = [] then name else if last dir = CHR ''/'' then dir @ name else dir @ ''/'' @ name)"

section \<open>Worlds\<close>

datatype file_kind = Regular | Directory | Other

record node =
  nd_kind :: file_kind
  nd_data :: bytes
  nd_perms :: nat

text \<open>The syncs that succeeded, with the bytes the node had at that moment, and the renames; the latest
  comes first in \<open>w_journal\<close>.\<close>

datatype disk_event = Synced nat bytes | Renamed nat path

record world =
  w_names :: "path \<Rightarrow> nat option"
  w_nodes :: "nat \<Rightarrow> node"
  w_next :: nat
  w_errs :: "string option list"
  w_plans :: "nat option list list"
  w_random :: "nat list"
  w_counter :: nat
  w_slots :: "path option list"
  w_journal :: "disk_event list"

definition node_at :: "world \<Rightarrow> path \<Rightarrow> node option" where
  "node_at w p = map_option (w_nodes w) (w_names w p)"

definition take_fault :: "world \<Rightarrow> string option \<times> world" where
  "take_fault w = (case w_errs w of [] \<Rightarrow> (None, w) | e # es \<Rightarrow> (e, w\<lparr>w_errs := es\<rparr>))"

definition take_plan :: "world \<Rightarrow> nat option list \<times> world" where
  "take_plan w = (case w_plans w of [] \<Rightarrow> ([], w) | p # ps \<Rightarrow> (p, w\<lparr>w_plans := ps\<rparr>))"

definition take_random :: "world \<Rightarrow> nat \<times> world" where
  "take_random w = (case w_random w of [] \<Rightarrow> (0, w) | r # rs \<Rightarrow> (r, w\<lparr>w_random := rs\<rparr>))"

definition new_node :: node where
  "new_node = \<lparr>nd_kind = Regular, nd_data = [], nd_perms = 420\<rparr>"

definition create_name :: "path \<Rightarrow> world \<Rightarrow> world" where
  "create_name p w = w\<lparr>w_names := (w_names w)(p \<mapsto> w_next w),
     w_nodes := (w_nodes w)(w_next w := new_node), w_next := Suc (w_next w)\<rparr>"

text \<open>Replacing the bytes of the file a name stands for.\<close>

definition store_data :: "path \<Rightarrow> bytes \<Rightarrow> world \<Rightarrow> world" where
  "store_data p bs w =
     (case w_names w p of
        None \<Rightarrow> w
      | Some i \<Rightarrow> w\<lparr>w_nodes := (w_nodes w)(i := (w_nodes w i)\<lparr>nd_data := bs\<rparr>)\<rparr>)"

section \<open>The calls of the file system library\<close>

datatype fs_status = St_error string | St_missing | St_found file_kind nat

text \<open>The message of \<open>errc::no_such_file_or_directory\<close>, which the program tests for.\<close>

definition ENOENT :: string where
  "ENOENT = ''No such file or directory''"

definition fs_status :: "path \<Rightarrow> world \<Rightarrow> fs_status \<times> world" where
  "fs_status p w =
     (case take_fault w of
        (Some msg, w1) \<Rightarrow> (if msg = ENOENT then St_missing else St_error msg, w1)
      | (None, w1) \<Rightarrow>
          (case node_at w1 p of
             None \<Rightarrow> (St_missing, w1)
           | Some n \<Rightarrow> (St_found (nd_kind n) (nd_perms n), w1)))"

definition fs_is_regular_file :: "path \<Rightarrow> world \<Rightarrow> bool \<times> world" where
  "fs_is_regular_file p w =
     (case fs_status p w of (St_found Regular _, w1) \<Rightarrow> (True, w1) | (_, w1) \<Rightarrow> (False, w1))"

definition fs_exists :: "path \<Rightarrow> world \<Rightarrow> bool \<times> world" where
  "fs_exists p w = (case fs_status p w of (St_found _ _, w1) \<Rightarrow> (True, w1) | (_, w1) \<Rightarrow> (False, w1))"

definition fs_equivalent :: "path \<Rightarrow> path \<Rightarrow> world \<Rightarrow> (string + bool) \<times> world" where
  "fs_equivalent p q w =
     (case take_fault w of
        (Some msg, w1) \<Rightarrow> (Inl msg, w1)
      | (None, w1) \<Rightarrow>
          (case (w_names w1 p, w_names w1 q) of
             (Some i, Some j) \<Rightarrow> (Inr (i = j), w1)
           | _ \<Rightarrow> (Inl ENOENT, w1)))"

definition fs_file_size :: "path \<Rightarrow> world \<Rightarrow> nat option \<times> world" where
  "fs_file_size p w =
     (case take_fault w of
        (Some _, w1) \<Rightarrow> (None, w1)
      | (None, w1) \<Rightarrow>
          (case node_at w1 p of
             Some n \<Rightarrow> (if nd_kind n = Regular then Some (length (nd_data n)) else None, w1)
           | None \<Rightarrow> (None, w1)))"

definition fs_permissions :: "path \<Rightarrow> nat \<Rightarrow> world \<Rightarrow> string option \<times> world" where
  "fs_permissions p perms w =
     (case take_fault w of
        (Some msg, w1) \<Rightarrow> (Some msg, w1)
      | (None, w1) \<Rightarrow>
          (case w_names w1 p of
             None \<Rightarrow> (Some ENOENT, w1)
           | Some i \<Rightarrow> (None, w1\<lparr>w_nodes := (w_nodes w1)(i := (w_nodes w1 i)\<lparr>nd_perms := perms\<rparr>)\<rparr>)))"

text \<open>Renaming over an existing name replaces it; a directory cannot be replaced by a file.\<close>

definition fs_rename :: "path \<Rightarrow> path \<Rightarrow> world \<Rightarrow> string option \<times> world" where
  "fs_rename p q w =
     (case take_fault w of
        (Some msg, w1) \<Rightarrow> (Some msg, w1)
      | (None, w1) \<Rightarrow>
          (case w_names w1 p of
             None \<Rightarrow> (Some ENOENT, w1)
           | Some i \<Rightarrow>
               if map_option nd_kind (node_at w1 q) = Some Directory
               then (Some ''Is a directory'', w1)
               else (None, w1\<lparr>w_names := ((w_names w1)(p := None))(q \<mapsto> i),
                            w_journal := Renamed i q # w_journal w1\<rparr>)))"

definition fs_remove :: "path \<Rightarrow> world \<Rightarrow> world" where
  "fs_remove p w =
     (case take_fault w of (Some _, w1) \<Rightarrow> w1 | (None, w1) \<Rightarrow> w1\<lparr>w_names := (w_names w1)(p := None)\<rparr>)"

section \<open>Opening a stream\<close>

definition opened_stream :: "bytes \<Rightarrow> nat option list \<Rightarrow> fstream" where
  "opened_stream bs plan = \<lparr>st_data = bs, st_pos = 0, st_open = True, st_eof = False,
                            st_fail = False, st_bad = False, st_plan = plan\<rparr>"

definition failed_stream :: fstream where
  "failed_stream = closed_stream\<lparr>st_fail := True\<rparr>"

text \<open>\<open>fstream::open\<close>: \<open>excl\<close> is \<open>std::ios::noreplace\<close>.\<close>

definition stream_open :: "path \<Rightarrow> FileMode \<Rightarrow> bool \<Rightarrow> world \<Rightarrow> fstream \<times> world" where
  "stream_open p mode excl w =
     (case take_fault w of
        (Some _, w1) \<Rightarrow> (failed_stream, w1)
      | (None, w1) \<Rightarrow>
          (case node_at w1 p of
             None \<Rightarrow>
               if mode = IN \<or> mode = INOUT then (failed_stream, w1)
               else (case take_plan (create_name p w1) of (plan, w2) \<Rightarrow> (opened_stream [] plan, w2))
           | Some n \<Rightarrow>
               if nd_kind n = Directory \<or> excl then (failed_stream, w1)
               else if mode = IN \<or> mode = INOUT
               then (case take_plan w1 of (plan, w2) \<Rightarrow> (opened_stream (nd_data n) plan, w2))
               else (case take_plan (store_data p [] w1) of (plan, w2) \<Rightarrow> (opened_stream [] plan, w2))))"

text \<open>\<open>fopen(path, "wbx")\<close> and \<open>fclose\<close>: the flag tells whether both succeeded.\<close>

definition create_exclusively :: "path \<Rightarrow> world \<Rightarrow> bool \<times> world" where
  "create_exclusively p w =
     (case take_fault w of
        (Some _, w1) \<Rightarrow> (False, w1)
      | (None, w1) \<Rightarrow>
          if w_names w1 p \<noteq> None then (False, w1)
          else (case take_fault (create_name p w1) of (e, w2) \<Rightarrow> (e = None, w2)))"

definition readable_mode :: "FileMode \<Rightarrow> bool" where
  "readable_mode mode \<longleftrightarrow> mode = IN \<or> mode = INOUT"

text \<open>\<open>FileIO::open\<close>.  The flag \<open>noreplace\<close> is the build's \<open>RH_HAVE_STD_NOREPLACE\<close>.\<close>

definition fio_open_stream :: "bool \<Rightarrow> path \<Rightarrow> FileMode \<Rightarrow> fileio \<Rightarrow> world \<Rightarrow> bool \<times> fileio \<times> world" where
  "fio_open_stream noreplace p mode f w =
     (case stream_open p mode (noreplace \<and> mode = EXCLUSIVE_OUT) w of
        (s, w1) \<Rightarrow>
          let f1 = f\<lparr>strm := s\<rparr> in
          if \<not> st_good s then (False, f1\<lparr>io_error := True\<rparr>, w1)
          else case fs_file_size p w1 of
              (None, w2) \<Rightarrow>
                if readable f1 then (False, f1\<lparr>io_error := True, strm := st_close s\<rparr>, w2)
                else (True, f1\<lparr>fsize := 0\<rparr>, w2)
            | (Some sz, w2) \<Rightarrow> (True, f1\<lparr>fsize := sz\<rparr>, w2))"

definition fio_open :: "bool \<Rightarrow> path \<Rightarrow> FileMode \<Rightarrow> fileio \<Rightarrow> world \<Rightarrow> bool \<times> fileio \<times> world" where
  "fio_open noreplace p mode f w =
     (let f0 = (if is_open f then f\<lparr>strm := st_close (strm f)\<rparr> else f);
          f1 = (discard_read_buffer f0)\<lparr>fsize := 0, io_error := False, readable := readable_mode mode\<rparr>;
          (regular, w1) = (if readable f1 then fs_is_regular_file p w else (True, w))
      in if readable f1 \<and> \<not> regular then (False, f1\<lparr>io_error := True\<rparr>, w1)
         else let (created, w2) = (if \<not> noreplace \<and> mode = EXCLUSIVE_OUT then create_exclusively p w1 else (True, w1))
           in if \<not> created then (False, f1\<lparr>io_error := True\<rparr>, w2)
              else fio_open_stream noreplace p mode f1 w2)"

section \<open>What the calls leave alone\<close>

text \<open>\<open>same_files w w'\<close>: every name that existed still stands for the same unchanged file.\<close>

definition wf_world :: "world \<Rightarrow> bool" where
  "wf_world w \<longleftrightarrow> (\<forall>p i. w_names w p = Some i \<longrightarrow> i < w_next w)"

definition same_disk :: "world \<Rightarrow> world \<Rightarrow> bool" where
  "same_disk w w' \<longleftrightarrow> w_names w' = w_names w \<and> w_nodes w' = w_nodes w \<and> w_next w' = w_next w \<and>
     w_slots w' = w_slots w \<and> w_journal w' = w_journal w"

lemma same_disk_refl [simp]: "same_disk w w"
  by (simp add: same_disk_def)

lemma same_disk_trans: "same_disk u v \<Longrightarrow> same_disk v w \<Longrightarrow> same_disk u w"
  by (simp add: same_disk_def)

lemma same_disk_node: "same_disk w w' \<Longrightarrow> node_at w' p = node_at w p"
  by (simp add: same_disk_def node_at_def)

lemma take_fault_disk: "take_fault w = (e, w') \<Longrightarrow> same_disk w w'"
  by (auto simp: take_fault_def same_disk_def split: list.splits)

lemma take_plan_disk: "take_plan w = (e, w') \<Longrightarrow> same_disk w w'"
  by (auto simp: take_plan_def same_disk_def split: list.splits)

lemma take_random_disk: "take_random w = (e, w') \<Longrightarrow> same_disk w w'"
  by (auto simp: take_random_def same_disk_def split: list.splits)

lemma fs_status_disk: "fs_status p w = (s, w') \<Longrightarrow> same_disk w w'"
  by (auto simp: fs_status_def dest: take_fault_disk split: prod.splits option.splits)

lemma fs_is_regular_file_disk: "fs_is_regular_file p w = (s, w') \<Longrightarrow> same_disk w w'"
  by (auto simp: fs_is_regular_file_def dest: fs_status_disk
      split: prod.splits fs_status.splits file_kind.splits)

lemma fs_exists_disk: "fs_exists p w = (s, w') \<Longrightarrow> same_disk w w'"
  by (auto simp: fs_exists_def dest: fs_status_disk split: prod.splits fs_status.splits)

lemma fs_equivalent_disk: "fs_equivalent p q w = (s, w') \<Longrightarrow> same_disk w w'"
  by (auto simp: fs_equivalent_def dest: take_fault_disk split: prod.splits option.splits)

lemma fs_file_size_disk: "fs_file_size p w = (s, w') \<Longrightarrow> same_disk w w'"
  by (auto simp: fs_file_size_def dest: take_fault_disk split: prod.splits option.splits if_splits)

lemmas disk_kept = take_fault_disk take_plan_disk take_random_disk fs_status_disk
  fs_is_regular_file_disk fs_exists_disk fs_equivalent_disk fs_file_size_disk

text \<open>What the two queries an input's opening makes have established.\<close>

lemma fs_is_regular_file_kind:
  assumes "fs_is_regular_file p w = (True, w')"
  shows "map_option nd_kind (node_at w p) = Some Regular"
proof -
  obtain e w1 where t: "take_fault w = (e, w1)" by fastforce
  then show ?thesis using assms same_disk_node [OF take_fault_disk [OF t], of p]
    by (auto simp: fs_is_regular_file_def fs_status_def split: option.splits file_kind.splits if_splits)
qed

lemma fs_file_size_length:
  assumes "fs_file_size p w = (Some k, w')"
  shows "map_option (length \<circ> nd_data) (node_at w p) = Some k"
proof -
  obtain e w1 where t: "take_fault w = (e, w1)" by fastforce
  then show ?thesis using assms same_disk_node [OF take_fault_disk [OF t], of p]
    by (auto simp: fs_file_size_def split: option.splits if_splits)
qed

section \<open>Opening an input\<close>

text \<open>An input that opens is read from the start of the bytes the name stands for, with the size the
  program checks later; its device faults are those of its plan.\<close>

lemma stream_open_read:
  assumes "stream_open p IN excl w = (s, w')"
  shows "same_disk w w'"
    and "st_good s \<Longrightarrow> \<exists>n plan. node_at w p = Some n \<and> s = opened_stream (nd_data n) plan"
proof -
  obtain e w1 where tf: "take_fault w = (e, w1)" by fastforce
  have d: "same_disk w w1" using tf by (rule take_fault_disk)
  have n1: "node_at w1 p = node_at w p" using d by (rule same_disk_node)
  show "same_disk w w'"
    using assms tf d same_disk_trans take_plan_disk
    by (fastforce simp: stream_open_def split: option.splits prod.splits if_splits)
  show "\<exists>n plan. node_at w p = Some n \<and> s = opened_stream (nd_data n) plan" if "st_good s"
    using assms tf n1 that
    by (auto simp: stream_open_def failed_stream_def closed_stream_def st_good_def
        split: option.splits prod.splits if_splits)
qed

lemma fio_open_input:
  assumes "fio_open nr p IN f w = (ok, f', w')"
  shows "same_disk w w'"
    and "ok \<Longrightarrow> \<exists>n. node_at w p = Some n \<and> nd_kind n = Regular \<and> reading f' \<and> \<not> io_error f' \<and>
           remaining f' = nd_data n \<and> st_data (strm f') = nd_data n \<and> fsize f' = length (nd_data n)"
    and "\<not> ok \<Longrightarrow> io_error f'"
proof -
  define f0 where "f0 = (if is_open f then f\<lparr>strm := st_close (strm f)\<rparr> else f)"
  define f1 where "f1 = (discard_read_buffer f0)\<lparr>fsize := 0, io_error := False, readable := True\<rparr>"
  obtain reg w1 where r: "fs_is_regular_file p w = (reg, w1)" by fastforce
  have d1: "same_disk w w1" using r by (rule fs_is_regular_file_disk)
  have "fio_open nr p IN f w = (if \<not> reg then (False, f1\<lparr>io_error := True\<rparr>, w1) else fio_open_stream nr p IN f1 w1)"
    using r by (simp add: fio_open_def Let_def readable_mode_def f1_def f0_def)
  then have o: "(ok, f', w') = (if \<not> reg then (False, f1\<lparr>io_error := True\<rparr>, w1) else fio_open_stream nr p IN f1 w1)"
    using assms by simp
  obtain s w2 where so: "stream_open p IN False w1 = (s, w2)" by fastforce
  obtain sz w3 where fz: "fs_file_size p w2 = (sz, w3)" by fastforce
  have d2: "same_disk w w2" using d1 stream_open_read(1) [OF so] by (rule same_disk_trans)
  have d3: "same_disk w w3" using d2 fs_file_size_disk [OF fz] by (rule same_disk_trans)
  have kind: "map_option nd_kind (node_at w p) = Some Regular" if reg
    using r that fs_is_regular_file_kind by simp
  show "same_disk w w'"
    using o so fz d1 d2 d3 by (auto simp: fio_open_stream_def Let_def split: if_splits option.splits)
  show "io_error f'" if "\<not> ok"
    using o so fz that by (auto simp: fio_open_stream_def Let_def split: if_splits option.splits)
  show "\<exists>n. node_at w p = Some n \<and> nd_kind n = Regular \<and> reading f' \<and> \<not> io_error f' \<and>
           remaining f' = nd_data n \<and> st_data (strm f') = nd_data n \<and> fsize f' = length (nd_data n)" if ok
  proof -
    have reg using o that by (cases reg) auto
    with o that so fz have good: "st_good s" and sz: "sz \<noteq> None"
      and f': "f' = f1\<lparr>strm := s, fsize := the sz\<rparr>"
      by (auto simp: fio_open_stream_def Let_def f1_def split: if_splits option.splits)
    obtain n plan where n: "node_at w p = Some n" "s = opened_stream (nd_data n) plan"
      using stream_open_read(2) [OF so good] same_disk_node [OF d1] by auto
    have reg': "nd_kind n = Regular" using kind [OF \<open>reg\<close>] n(1) by simp
    have "node_at w2 p = Some n" using same_disk_node [OF d2] n(1) by simp
    then have "the sz = length (nd_data n)"
      using fz sz fs_file_size_length [of p w2 "the sz"] by auto
    then show ?thesis
      using n reg' by (intro exI [of _ n])
        (simp add: f' f1_def reading_def is_open_def discard_read_buffer_def opened_stream_def
          stream_calm_def remaining_def)
  qed
qed

section \<open>A world without faults\<close>

text \<open>The regular files listed, nothing else, and no fault to come.\<close>

definition world_of :: "(path \<times> bytes) list \<Rightarrow> world" where
  "world_of fs =
     \<lparr>w_names = map_of (zip (map fst fs) [0..<length fs]), w_nodes = (\<lambda>i. new_node\<lparr>nd_data := snd (fs ! i)\<rparr>),
      w_next = length fs, w_errs = [], w_plans = [], w_random = [], w_counter = 0,
      w_slots = replicate 16 None, w_journal = []\<rparr>"

lemma world_of_wf: "wf_world (world_of fs)"
  by (auto simp: wf_world_def world_of_def dest!: map_of_SomeD set_zip_rightD)

lemma world_of_slots: "\<forall>s \<in> set (w_slots (world_of fs)). s = None"
  by (simp add: world_of_def)

end
