(* ===== verification/Output_Transaction.thy ===== *)
theory Output_Transaction
  imports File_System
begin

text \<open>
  Staged output (\<^verbatim>\<open>src/src/OutputTransaction.hpp\<close>, \<^verbatim>\<open>src/src/OutputTransaction.cpp\<close>, the POSIX
  branch): a file created beside the destination, and a commit that flushes it and renames it into
  place.  A step relation interleaves the calls of a transaction with its writes and with the
  signal handler; its invariant says that nothing that existed before is touched.
\<close>

section \<open>State\<close>

record transaction =
  tx_destination :: path
  tx_temporary :: path
  tx_inputs :: "path list"
  tx_file :: fileio
  tx_slot :: "nat option"

definition tx_new :: transaction where
  "tx_new = \<lparr>tx_destination = [], tx_temporary = [], tx_inputs = [], tx_file = fio_default, tx_slot = None\<rparr>"

section \<open>Flushing\<close>

text \<open>\<open>fsync\<close> through a descriptor opened for reading or else for writing; each of the calls can fail.\<close>

definition sync_file :: "path \<Rightarrow> world \<Rightarrow> bool \<times> world" where
  "sync_file p w =
     (let (e1, w1) = take_fault w;
          (fd, w2) = (if e1 = None \<and> w_names w1 p \<noteq> None then (True, w1)
                      else case take_fault w1 of (e2, v) \<Rightarrow> (e2 = None \<and> w_names v p \<noteq> None, v))
      in if \<not> fd then (False, w2)
         else let (e3, w3) = take_fault w2;
                  w4 = (case w_names w3 p of
                          Some i \<Rightarrow> if e3 = None then w3\<lparr>w_journal := Synced i (nd_data (w_nodes w3 i)) # w_journal w3\<rparr> else w3
                        | None \<Rightarrow> w3);
                  (e5, w5) = take_fault w4
              in (e5 = None \<and> e3 = None, w5))"

text \<open>Best effort: the results of the three calls are ignored.\<close>

definition sync_directory :: "path \<Rightarrow> world \<Rightarrow> world" where
  "sync_directory dir w =
     (case take_fault w of
        (Some _, w1) \<Rightarrow> w1
      | (None, w1) \<Rightarrow> (case take_fault w1 of (_, w2) \<Rightarrow> snd (take_fault w2)))"

section \<open>The slots of the signal handler\<close>

fun free_slot :: "path option list \<Rightarrow> nat option" where
  "free_slot [] = None"
| "free_slot (None # ss) = Some 0"
| "free_slot (Some _ # ss) = map_option Suc (free_slot ss)"

fun_cases free_slot_SomeE: "free_slot ss = Some i"

definition tx_track :: "transaction \<Rightarrow> world \<Rightarrow> transaction \<times> world" where
  "tx_track tx w =
     (case free_slot (w_slots w) of
        None \<Rightarrow> (tx, w)
      | Some i \<Rightarrow> (tx\<lparr>tx_slot := Some i\<rparr>, w\<lparr>w_slots := (w_slots w)[i := Some (tx_temporary tx)]\<rparr>))"

definition tx_untrack :: "transaction \<Rightarrow> world \<Rightarrow> transaction \<times> world" where
  "tx_untrack tx w =
     (tx\<lparr>tx_slot := None\<rparr>,
      case tx_slot tx of None \<Rightarrow> w | Some i \<Rightarrow> w\<lparr>w_slots := (w_slots w)[i := None]\<rparr>)"

definition discard_all_staged :: "world \<Rightarrow> world" where
  "discard_all_staged w =
     foldl (\<lambda>v s. case s of None \<Rightarrow> v | Some p \<Rightarrow> fs_remove p v) w (w_slots w)"

section \<open>Checking the destination\<close>

fun check_aliases :: "path \<Rightarrow> path list \<Rightarrow> world \<Rightarrow> (DeltaError + unit) \<times> world" where
  "check_aliases dest [] w = (Inr (), w)"
| "check_aliases dest (input # ins) w =
     (case fs_equivalent dest input w of
        (Inl msg, w1) \<Rightarrow> (Inl (delta_error io_err (''Cannot compare output and input: '' @ msg)), w1)
      | (Inr True, w1) \<Rightarrow> (Inl (delta_error invalid_argument (''Output path aliases input: '' @ input)), w1)
      | (Inr False, w1) \<Rightarrow> check_aliases dest ins w1)"

definition validateDestination :: "transaction \<Rightarrow> world \<Rightarrow> (DeltaError + unit) \<times> world" where
  "validateDestination tx w =
     (case fs_status (tx_destination tx) w of
        (St_error msg, w1) \<Rightarrow> (Inl (delta_error io_err (''Cannot inspect output: '' @ msg)), w1)
      | (St_missing, w1) \<Rightarrow> (Inr (), w1)
      | (St_found kind _, w1) \<Rightarrow>
          if kind \<noteq> Regular
          then (Inl (delta_error invalid_argument ''Output must name a regular file''), w1)
          else check_aliases (tx_destination tx) (tx_inputs tx) w1)"

definition copyPermissions :: "transaction \<Rightarrow> world \<Rightarrow> (DeltaError + unit) \<times> world" where
  "copyPermissions tx w =
     (case fs_status (tx_destination tx) w of
        (St_error msg, w1) \<Rightarrow> (Inl (delta_error io_err (''Cannot copy output permissions: '' @ msg)), w1)
      | (St_missing, w1) \<Rightarrow> (Inr (), w1)
      | (St_found _ perms, w1) \<Rightarrow>
          (case fs_permissions (tx_temporary tx) perms w1 of
             (Some msg, w2) \<Rightarrow>
               (if msg = ENOENT then Inr ()
                else Inl (delta_error io_err (''Cannot copy output permissions: '' @ msg)), w2)
           | (None, w2) \<Rightarrow> (Inr (), w2)))"

section \<open>Operations\<close>

definition candidate_path :: "path \<Rightarrow> world \<Rightarrow> path \<times> world" where
  "candidate_path dest w =
     (let (r1, w1) = take_random w; (r2, w2) = take_random w1
      in (path_append (parent_path dest)
            (''.rolling_hash-'' @ to_dec r1 @ ''-'' @ to_dec r2 @ ''-'' @ to_dec (w_counter w2)),
          w2\<lparr>w_counter := Suc (w_counter w2)\<rparr>))"

fun tx_attempts :: "bool \<Rightarrow> nat \<Rightarrow> transaction \<Rightarrow> world \<Rightarrow> (DeltaError + unit) \<times> transaction \<times> world" where
  "tx_attempts nr 0 tx w =
     (Inl (delta_error io_err (''Cannot create temporary output beside: '' @ tx_destination tx)), tx, w)"
| "tx_attempts nr (Suc n) tx w =
     (case candidate_path (tx_destination tx) w of (candidate, w1) \<Rightarrow>
      case fio_open nr candidate EXCLUSIVE_OUT (tx_file tx) w1 of (ok, f, w2) \<Rightarrow>
        if ok
        then let (tx1, w3) = tx_track (tx\<lparr>tx_file := f, tx_temporary := candidate\<rparr>) w2;
                 (r, w4) = copyPermissions tx1 w3
             in (r, tx1, w4)
        else case fs_exists candidate w2 of (present, w3) \<Rightarrow>
          if \<not> present
          then (Inl (delta_error io_err (''Cannot create temporary output beside: '' @ tx_destination tx)),
                tx\<lparr>tx_file := f\<rparr>, w3)
          else tx_attempts nr n (tx\<lparr>tx_file := f\<rparr>) w3)"

definition tx_open ::
  "bool \<Rightarrow> path \<Rightarrow> path list \<Rightarrow> transaction \<Rightarrow> world \<Rightarrow> (DeltaError + unit) \<times> transaction \<times> world" where
  "tx_open nr dest inputs tx w =
     (if tx_destination tx \<noteq> []
      then (Inl (delta_error invalid_argument ''Output transaction already opened''), tx, w)
      else let tx1 = tx\<lparr>tx_destination := dest, tx_inputs := inputs\<rparr> in
        if dest = [] \<or> filename dest = []
        then (Inl (delta_error invalid_argument ''Empty output filename''), tx1, w)
        else case validateDestination tx1 w of
            (Inl e, w1) \<Rightarrow> (Inl e, tx1, w1)
          | (Inr _, w1) \<Rightarrow> tx_attempts nr 32 tx1 w1)"

text \<open>Closing the staged file: by then its bytes have reached the node its name stands for.\<close>

definition close_staged :: "transaction \<Rightarrow> world \<Rightarrow> bool \<times> transaction \<times> world" where
  "close_staged tx w =
     (case fio_close (tx_file tx) of (closed, f) \<Rightarrow>
        (closed, tx\<lparr>tx_file := f\<rparr>,
         if is_open (tx_file tx) \<and> tx_temporary tx \<noteq> []
         then store_data (tx_temporary tx) (st_data (strm (tx_file tx))) w else w))"

definition tx_commit :: "transaction \<Rightarrow> world \<Rightarrow> (DeltaError + unit) \<times> transaction \<times> world" where
  "tx_commit tx w =
     (if tx_temporary tx = [] then (Inl (delta_error invalid_argument ''No staged output''), tx, w)
      else case close_staged tx w of (closed, tx1, w1) \<Rightarrow>
        let (flushed, w2) = (if closed \<and> \<not> has_error (tx_file tx1) then sync_file (tx_temporary tx1) w1
                             else (False, w1))
        in if \<not> flushed then (Inl (delta_error io_err ''Failed to flush output file''), tx1, w2)
           else case validateDestination tx1 w2 of
               (Inl e, w3) \<Rightarrow> (Inl e, tx1, w3)
             | (Inr _, w3) \<Rightarrow>
                 (case fs_rename (tx_temporary tx1) (tx_destination tx1) w3 of
                    (Some msg, w4) \<Rightarrow> (Inl (delta_error io_err (''Failed to replace output: '' @ msg)), tx1, w4)
                  | (None, w4) \<Rightarrow>
                      (case tx_untrack tx1 w4 of (tx2, w5) \<Rightarrow>
                         (Inr (), tx2\<lparr>tx_temporary := []\<rparr>,
                          sync_directory (parent_path (tx_destination tx2)) w5))))"

text \<open>The destructor.\<close>

definition tx_destroy :: "transaction \<Rightarrow> world \<Rightarrow> transaction \<times> world" where
  "tx_destroy tx w =
     (case close_staged tx w of (_, tx1, w1) \<Rightarrow>
        tx_untrack tx1 (if tx_temporary tx1 \<noteq> [] then fs_remove (tx_temporary tx1) w1 else w1))"

section \<open>Steps\<close>

text \<open>Everything that can happen to a transaction short of a commit that succeeds; the signal handler
  can run between any two calls.\<close>

inductive tx_step :: "bool \<Rightarrow> transaction \<times> world \<Rightarrow> transaction \<times> world \<Rightarrow> bool" for nr where
  Open: "tx_open nr dest inputs tx w = (r, tx', w') \<Longrightarrow> tx_step nr (tx, w) (tx', w')"
| Write: "write_chunk bs (tx_file tx) = (ok, f) \<Longrightarrow> tx_step nr (tx, w) (tx\<lparr>tx_file := f\<rparr>, w)"
| Commit_fails: "tx_commit tx w = (Inl e, tx', w') \<Longrightarrow> tx_step nr (tx, w) (tx', w')"
| Destroy: "tx_destroy tx w = (tx', w') \<Longrightarrow> tx_step nr (tx, w) (tx', w')"
| Signal: "tx_step nr (tx, w) (tx, discard_all_staged w)"

inductive_cases tx_stepE: "tx_step nr (tx, w) (tx', w')"

inductive_simps tx_step_simps: "tx_step nr (tx, w) (tx', w')"

section \<open>What stays as it was\<close>

text \<open>\<open>untouched w0 w\<close>: every name of \<open>w0\<close> still stands for the same node, and every node of \<open>w0\<close>
  still has its kind, bytes and permissions.\<close>

definition untouched :: "world \<Rightarrow> world \<Rightarrow> bool" where
  "untouched w0 w \<longleftrightarrow> w_next w0 \<le> w_next w \<and>
     (\<forall>p. w_names w0 p \<noteq> None \<longrightarrow> w_names w p = w_names w0 p) \<and>
     (\<forall>i < w_next w0. w_nodes w i = w_nodes w0 i) \<and>
     (\<forall>p i. w_names w0 p = None \<longrightarrow> w_names w p = Some i \<longrightarrow> w_next w0 \<le> i)"

text \<open>\<open>fresh w0 p\<close>: the name did not exist in \<open>w0\<close>.\<close>

definition staged_inv :: "world \<Rightarrow> transaction \<times> world \<Rightarrow> bool" where
  "staged_inv w0 s \<longleftrightarrow> wf_world w0 \<and> untouched w0 (snd s) \<and>
     (tx_temporary (fst s) \<noteq> [] \<longrightarrow> w_names w0 (tx_temporary (fst s)) = None) \<and>
     (\<forall>p. Some p \<in> set (w_slots (snd s)) \<longrightarrow> w_names w0 p = None)"

lemma untouched_refl: "wf_world w \<Longrightarrow> untouched w w"
  by (simp add: untouched_def)

lemma untouched_disk: "untouched w0 w \<Longrightarrow> same_disk w w' \<Longrightarrow> untouched w0 w'"
  by (simp add: untouched_def same_disk_def)

lemma untouched_create:
  "untouched w0 w \<Longrightarrow> w_names w p = None \<Longrightarrow> untouched w0 (create_name p w)"
  by (auto simp: untouched_def create_name_def)

lemma untouched_node:
  assumes "untouched w0 w" and "w_names w0 p = None" and "w_names w p = Some i"
  shows "untouched w0 (w\<lparr>w_nodes := (w_nodes w)(i := n)\<rparr>)"
proof -
  have "w_next w0 \<le> i" using assms unfolding untouched_def by blast
  then show ?thesis using assms(1) by (auto simp: untouched_def)
qed

lemma untouched_store:
  "untouched w0 w \<Longrightarrow> w_names w0 p = None \<Longrightarrow> untouched w0 (store_data p bs w)"
  by (auto simp: store_data_def intro: untouched_node split: option.splits)

lemma untouched_drop:
  "untouched w0 w \<Longrightarrow> w_names w0 p = None \<Longrightarrow> untouched w0 (w\<lparr>w_names := (w_names w)(p := None)\<rparr>)"
  by (auto simp: untouched_def)

lemma untouched_remove:
  assumes "untouched w0 w" and "w_names w0 p = None"
  shows "untouched w0 (fs_remove p w)"
proof -
  obtain e w1 where t: "take_fault w = (e, w1)" by fastforce
  have "untouched w0 w1" by (rule untouched_disk [OF assms(1) take_fault_disk [OF t]])
  then show ?thesis using t untouched_drop [OF _ assms(2)] by (auto simp: fs_remove_def split: option.splits)
qed

lemma fs_remove_slots [simp]: "w_slots (fs_remove p w) = w_slots w"
  by (auto simp: fs_remove_def take_fault_def split: option.splits list.splits prod.splits)

lemma untouched_slots [simp]: "untouched w0 (w\<lparr>w_slots := s\<rparr>) = untouched w0 w"
  by (simp add: untouched_def)

lemma untouched_journal [simp]: "untouched w0 (w\<lparr>w_journal := s\<rparr>) = untouched w0 w"
  by (simp add: untouched_def)

lemma untouched_counter [simp]: "untouched w0 (w\<lparr>w_counter := s\<rparr>) = untouched w0 w"
  by (simp add: untouched_def)

lemma store_data_slots [simp]: "w_slots (store_data p bs w) = w_slots w"
  by (simp add: store_data_def split: option.splits)

lemma create_name_slots [simp]: "w_slots (create_name p w) = w_slots w"
  by (simp add: create_name_def)

lemma untouched_discard:
  assumes "untouched w0 w" and "\<forall>p. Some p \<in> set slots \<longrightarrow> w_names w0 p = None"
  shows "untouched w0 (foldl (\<lambda>v s. case s of None \<Rightarrow> v | Some p \<Rightarrow> fs_remove p v) w slots) \<and>
    w_slots (foldl (\<lambda>v s. case s of None \<Rightarrow> v | Some p \<Rightarrow> fs_remove p v) w slots) = w_slots w"
  using assms
proof (induction slots arbitrary: w)
  case (Cons s slots)
  define v where "v = (case s of None \<Rightarrow> w | Some p \<Rightarrow> fs_remove p w)"
  have "untouched w0 v" "w_slots v = w_slots w"
    using Cons.prems untouched_remove by (auto simp: v_def split: option.splits)
  then show ?case using Cons.IH [of v] Cons.prems(2) by (simp add: v_def)
qed simp

section \<open>Every step keeps the invariant\<close>

lemma fio_close_closed: "fio_close f = (ok, f') \<Longrightarrow> \<not> is_open f'"
  by (auto simp: fio_close_def Let_def is_open_def discard_read_buffer_def st_close_def split: if_splits option.splits)

lemma stream_open_output:
  assumes "stream_open p EXCLUSIVE_OUT excl w = (s, w')" and "untouched w0 w" and "w_names w0 p = None"
  shows "untouched w0 w'" and "w_slots w' = w_slots w" and "w_journal w' = w_journal w"
    and "st_good s \<Longrightarrow> \<exists>plan. s = opened_stream [] plan" and "st_good s \<Longrightarrow> w_names w' p \<noteq> None"
    and "st_good s \<Longrightarrow> excl \<Longrightarrow> w_names w p = None"
proof -
  obtain e w1 where t: "take_fault w = (e, w1)" by fastforce
  note d = take_fault_disk [OF t]
  have u1: "untouched w0 w1" by (rule untouched_disk [OF assms(2) d])
  have plan: "untouched w0 v' \<and> w_slots v' = w_slots v \<and> w_journal v' = w_journal v \<and> w_names v' = w_names v"
    if "take_plan v = (pl, v')" "untouched w0 v" for v v' pl
    using untouched_disk [OF that(2) take_plan_disk [OF that(1)]] take_plan_disk [OF that(1)]
    by (simp add: same_disk_def)
  obtain pl1 v1 where p1: "take_plan (create_name p w1) = (pl1, v1)" by fastforce
  obtain pl2 v2 where p2: "take_plan (store_data p [] w1) = (pl2, v2)" by fastforce
  have s: "w_slots (create_name p w1) = w_slots w" "w_journal (create_name p w1) = w_journal w"
      "w_slots (store_data p [] w1) = w_slots w" "w_journal (store_data p [] w1) = w_journal w"
      "w_names (store_data p [] w1) = w_names w1"
    using d by (auto simp: same_disk_def create_name_def store_data_def split: option.splits)
  have c: "node_at w1 p = None \<Longrightarrow> untouched w0 (create_name p w1)"
    using untouched_create [OF u1] by (simp add: node_at_def)
  note P1 = plan [OF p1 c] and P2 = plan [OF p2 untouched_store [OF u1 assms(3)]]
  have cn: "w_names (create_name p w1) p \<noteq> None" by (simp add: create_name_def)
  show "untouched w0 w'" and "w_slots w' = w_slots w" and "w_journal w' = w_journal w"
    and "st_good s \<Longrightarrow> \<exists>plan. s = opened_stream [] plan" and "st_good s \<Longrightarrow> w_names w' p \<noteq> None"
    and "st_good s \<Longrightarrow> excl \<Longrightarrow> w_names w p = None"
    using assms(1) t d u1 p1 p2 P1 P2 s cn
    by (auto simp: stream_open_def same_disk_def node_at_def st_good_def failed_stream_def
        split: option.splits if_splits)
qed

lemma create_exclusively_untouched:
  assumes "create_exclusively p w = (ok, w')" and "untouched w0 w" and "wf_world w0"
  shows "untouched w0 w'" and "w_slots w' = w_slots w" and "w_journal w' = w_journal w"
    and "ok \<Longrightarrow> w_names w p = None" and "w_names w p = None \<or> same_disk w w'"
proof -
  obtain e w1 where t: "take_fault w = (e, w1)" by fastforce
  note d = take_fault_disk [OF t]
  have u1: "untouched w0 w1" by (rule untouched_disk [OF assms(2) d])
  obtain e2 w2 where t2: "take_fault (create_name p w1) = (e2, w2)" by fastforce
  note d2 = take_fault_disk [OF t2]
  have u2: "w_names w1 p = None \<Longrightarrow> untouched w0 w2" by (rule untouched_disk [OF untouched_create [OF u1] d2])
  show "untouched w0 w'" and "w_slots w' = w_slots w" and "w_journal w' = w_journal w"
    and "ok \<Longrightarrow> w_names w p = None" and "w_names w p = None \<or> same_disk w w'"
    using assms(1) t t2 d d2 u1 u2
    by (auto simp: create_exclusively_def same_disk_def create_name_def split: option.splits if_splits)
qed

lemma untouched_fresh: "untouched w0 w \<Longrightarrow> w_names w p = None \<Longrightarrow> w_names w0 p = None"
  unfolding untouched_def by force

text \<open>Creating the staged file: the name was free, and the file is empty and ready for output.\<close>

text \<open>An exclusive open of a name that exists fails and leaves the disk alone.\<close>

lemma stream_open_refused:
  assumes "stream_open p EXCLUSIVE_OUT True w = (s, w')" and "w_names w p \<noteq> None"
  shows "\<not> st_good s" and "same_disk w w'"
proof -
  obtain e w1 where t: "take_fault w = (e, w1)" by fastforce
  note d = take_fault_disk [OF t]
  have "node_at w1 p \<noteq> None" using assms(2) same_disk_node [OF d, of p] by (simp add: node_at_def)
  then have "s = failed_stream \<and> w' = w1" using assms(1) t by (auto simp: stream_open_def split: option.splits)
  then show "\<not> st_good s" and "same_disk w w'" using d by (simp_all add: failed_stream_def st_good_def)
qed

definition exclusive_result :: "world \<Rightarrow> world \<Rightarrow> path \<Rightarrow> bool \<Rightarrow> fileio \<Rightarrow> world \<Rightarrow> bool" where
  "exclusive_result w0 w p ok f' w' \<longleftrightarrow>
     untouched w0 w' \<and> w_slots w' = w_slots w \<and> w_journal w' = w_journal w \<and>
     (ok \<longrightarrow> w_names w p = None \<and> w_names w' p \<noteq> None \<and> writing f' \<and> \<not> io_error f' \<and> written f' = [])"

lemma fio_open_stream_fresh:
  assumes "fio_open_stream nr p EXCLUSIVE_OUT f w = (ok, f', w')" and "untouched w0 w" and "w_names w0 p = None"
    and "nr \<or> w_names w1 p = None" and "nr \<Longrightarrow> w = w1" and "w_slots w = w_slots w1" and "w_journal w = w_journal w1"
    and "\<not> io_error f" and "rbuf f = []" and "rpos f = 0" and "\<not> readable f"
  shows "exclusive_result w0 w1 p ok f' w'"
proof -
  obtain s w2 where so: "stream_open p EXCLUSIVE_OUT nr w = (s, w2)" by fastforce
  note st = stream_open_output [OF so assms(2,3)]
  obtain z w3 where z: "fs_file_size p w2 = (z, w3)" by fastforce
  note d3 = fs_file_size_disk [OF z]
  have u3: "untouched w0 w3" by (rule untouched_disk [OF st(1) d3])
  show ?thesis
  proof (cases "st_good s")
    case False
    then show ?thesis using assms(1,6,7) so st by (auto simp: exclusive_result_def fio_open_stream_def Let_def)
  next
    case True
    obtain plan where s: "s = opened_stream [] plan" using st(4) True by blast
    have "w_names w1 p = None" using assms(4,5) st(6) True by auto
    then show ?thesis
      using assms(1,6-11) so z True st d3 u3
      by (auto simp: exclusive_result_def fio_open_stream_def Let_def s opened_stream_def writing_def is_open_def
          st_good_def written_def same_disk_def split: option.splits)
  qed
qed

lemma fio_open_exclusive:
  assumes "fio_open nr p EXCLUSIVE_OUT f w = (ok, f', w')" and "untouched w0 w" and "wf_world w0"
  shows "untouched w0 w'" and "w_slots w' = w_slots w" and "w_journal w' = w_journal w"
    and "ok \<Longrightarrow> w_names w p = None \<and> w_names w' p \<noteq> None \<and> writing f' \<and> \<not> io_error f' \<and> written f' = []"
proof -
  define f0 where "f0 = (if is_open f then f\<lparr>strm := st_close (strm f)\<rparr> else f)"
  define f1 where "f1 = (discard_read_buffer f0)\<lparr>fsize := 0, io_error := False, readable := False\<rparr>"
  obtain c w1 where c: "(if \<not> nr then create_exclusively p w else (True, w)) = (c, w1)" by fastforce
  have o: "(ok, f', w') = (if \<not> c then (False, f1\<lparr>io_error := True\<rparr>, w1) else fio_open_stream nr p EXCLUSIVE_OUT f1 w1)"
    using assms(1) c by (auto simp: fio_open_def Let_def readable_mode_def f1_def f0_def split: if_splits)
  have w1: "untouched w0 w1" "w_slots w1 = w_slots w" "w_journal w1 = w_journal w"
    "c \<Longrightarrow> \<not> nr \<Longrightarrow> w_names w p = None" "nr \<Longrightarrow> w1 = w"
    using c create_exclusively_untouched [of p w c w1 w0] assms(2,3) by (auto split: if_splits)
  have "exclusive_result w0 w p ok f' w'"
  proof (cases c)
    case False
    then show ?thesis using o w1 by (simp add: exclusive_result_def)
  next
    case True
    show ?thesis
    proof (cases "w_names w0 p = None")
      case False
      then have present: "w_names w p \<noteq> None" using untouched_fresh [OF assms(2)] by metis
      then have nr using w1(4) True by (cases nr) simp_all
      obtain s w2 where so: "stream_open p EXCLUSIVE_OUT True w = (s, w2)" by fastforce
      note re = stream_open_refused [OF so present]
      show ?thesis
        using o True so re \<open>nr\<close> w1(5) untouched_disk [OF assms(2) re(2)]
        by (simp add: exclusive_result_def fio_open_stream_def Let_def same_disk_def)
    next
      case fresh: True
      have "\<not> io_error f1" "rbuf f1 = []" "rpos f1 = 0" "\<not> readable f1" by (simp_all add: f1_def discard_read_buffer_def)
      then show ?thesis
        using fio_open_stream_fresh [of nr p f1 w1 ok f' w' w0 w] o True w1 fresh by fastforce
    qed
  qed
  then show "untouched w0 w'" and "w_slots w' = w_slots w" and "w_journal w' = w_journal w"
    and "ok \<Longrightarrow> w_names w p = None \<and> w_names w' p \<noteq> None \<and> writing f' \<and> \<not> io_error f' \<and> written f' = []"
    by (simp_all add: exclusive_result_def)
qed


lemma tx_track_slots:
  assumes "tx_track tx w = (tx', w')"
  shows "untouched w0 w \<Longrightarrow> untouched w0 w'" and "set (w_slots w') \<subseteq> insert (Some (tx_temporary tx)) (set (w_slots w))"
    and "tx_temporary tx' = tx_temporary tx" and "w_names w' = w_names w" and "tx_file tx' = tx_file tx"
    and "tx_destination tx' = tx_destination tx" and "tx_inputs tx' = tx_inputs tx" and "w_journal w' = w_journal w"
  using assms set_update_subset_insert by (auto simp: tx_track_def split: option.splits) fastforce+

lemma tx_untrack_slots:
  assumes "tx_untrack tx w = (tx', w')"
  shows "untouched w0 w \<Longrightarrow> untouched w0 w'" and "set (w_slots w') \<subseteq> insert None (set (w_slots w))"
    and "tx' = tx\<lparr>tx_slot := None\<rparr>" and "w_names w' = w_names w" and "w_nodes w' = w_nodes w"
    and "w_journal w' = w_journal w" and "w_next w' = w_next w"
  using assms set_update_subset_insert by (auto simp: tx_untrack_def split: option.splits) fastforce+

lemma sync_file_kept:
  assumes "sync_file p w = (ok, w')"
  shows "w_names w' = w_names w" and "w_nodes w' = w_nodes w" and "w_slots w' = w_slots w"
    and "w_next w' = w_next w" and "ok \<Longrightarrow> \<exists>i. w_names w p = Some i \<and>
      w_journal w' = Synced i (nd_data (w_nodes w i)) # w_journal w"
proof -
  obtain e1 w1 where t1: "take_fault w = (e1, w1)" by fastforce
  obtain e2 v where t2: "take_fault w1 = (e2, v)" by fastforce
  define w2 where "w2 = (if e1 = None \<and> w_names w1 p \<noteq> None then w1 else v)"
  obtain e3 w3 where t3: "take_fault w2 = (e3, w3)" by fastforce
  define w4 where "w4 = (case w_names w3 p of
      Some i \<Rightarrow> if e3 = None then w3\<lparr>w_journal := Synced i (nd_data (w_nodes w3 i)) # w_journal w3\<rparr> else w3 | None \<Rightarrow> w3)"
  obtain e5 w5 where t5: "take_fault w4 = (e5, w5)" by fastforce
  note d = take_fault_disk [OF t1, unfolded same_disk_def] take_fault_disk [OF t2, unfolded same_disk_def]
    take_fault_disk [OF t3, unfolded same_disk_def] take_fault_disk [OF t5, unfolded same_disk_def]
  have w4: "w_names w4 = w_names w3" "w_nodes w4 = w_nodes w3" "w_slots w4 = w_slots w3" "w_next w4 = w_next w3"
    "e3 = None \<Longrightarrow> w_names w3 p = Some i \<Longrightarrow> w_journal w4 = Synced i (nd_data (w_nodes w3 i)) # w_journal w3" for i
    by (auto simp: w4_def split: option.splits)
  have w2: "w_names w2 = w_names w" "w_nodes w2 = w_nodes w" "w_slots w2 = w_slots w" "w_next w2 = w_next w"
    "w_journal w2 = w_journal w"
    using d by (simp_all add: w2_def)
  have "(ok, w') = (if \<not> (e1 = None \<and> w_names w1 p \<noteq> None) \<and> \<not> (e2 = None \<and> w_names v p \<noteq> None) then (False, w2)
      else (e5 = None \<and> e3 = None, w5))"
    using assms t1 t2 t3 t5 by (auto simp: sync_file_def Let_def w2_def w4_def split: if_splits)
  then show "w_names w' = w_names w" and "w_nodes w' = w_nodes w" and "w_slots w' = w_slots w"
    and "w_next w' = w_next w" and "ok \<Longrightarrow> \<exists>i. w_names w p = Some i \<and>
      w_journal w' = Synced i (nd_data (w_nodes w i)) # w_journal w"
    using d w2 w4 by (auto split: if_splits)
qed

lemma check_aliases_disk: "check_aliases dest ins w = (r, w') \<Longrightarrow> same_disk w w'"
proof (induction ins arbitrary: w)
  case (Cons i ins)
  obtain x w1 where e: "fs_equivalent dest i w = (x, w1)" by fastforce
  then show ?case using Cons fs_equivalent_disk [OF e] same_disk_trans [of w w1 w']
    by (auto split: sum.splits bool.splits)
qed simp

lemma validateDestination_disk: "validateDestination tx w = (r, w') \<Longrightarrow> same_disk w w'"
proof -
  assume v: "validateDestination tx w = (r, w')"
  obtain s w1 where s: "fs_status (tx_destination tx) w = (s, w1)" by fastforce
  show ?thesis using v s fs_status_disk [OF s] same_disk_trans [of w w1 w'] check_aliases_disk
    by (auto simp: validateDestination_def split: fs_status.splits if_splits)
qed

lemma copyPermissions_kept:
  assumes "copyPermissions tx w = (r, w')" and "untouched w0 w" and "w_names w0 (tx_temporary tx) = None"
  shows "untouched w0 w'" and "w_slots w' = w_slots w" and "w_names w' = w_names w"
proof -
  obtain s w1 where s: "fs_status (tx_destination tx) w = (s, w1)" by fastforce
  note d = fs_status_disk [OF s]
  have u1: "untouched w0 w1" by (rule untouched_disk [OF assms(2) d])
  have perm: "untouched w0 v \<and> w_slots v = w_slots w1 \<and> w_names v = w_names w1"
    if p: "fs_permissions (tx_temporary tx) k w1 = (x, v)" for k x v
  proof -
    obtain e w2 where t: "take_fault w1 = (e, w2)" by fastforce
    note d2 = take_fault_disk [OF t]
    have "untouched w0 w2" by (rule untouched_disk [OF u1 d2])
    then have "untouched w0 v" using p t untouched_node [OF _ assms(3)]
      by (auto simp: fs_permissions_def split: option.splits)
    moreover have "w_slots v = w_slots w1 \<and> w_names v = w_names w1"
      using p t d2 by (auto simp: fs_permissions_def same_disk_def split: option.splits)
    ultimately show ?thesis by simp
  qed
  show "untouched w0 w'" and "w_slots w' = w_slots w" and "w_names w' = w_names w"
    using assms(1) s d u1 perm
    by (auto simp: copyPermissions_def same_disk_def split: fs_status.splits prod.splits option.splits if_splits)
qed


lemma path_append_not_Nil [simp]: "path_append d (x # name) \<noteq> []"
  by (simp add: path_append_def)

lemma candidate_path_kept:
  assumes "candidate_path dest w = (c, w')"
  shows "untouched w0 w \<Longrightarrow> untouched w0 w'" and "w_slots w' = w_slots w" and "c \<noteq> []"
    and "w_names w' = w_names w"
proof -
  obtain r1 w1 where r1: "take_random w = (r1, w1)" by fastforce
  obtain r2 w2 where r2: "take_random w1 = (r2, w2)" by fastforce
  note d = same_disk_trans [OF take_random_disk [OF r1] take_random_disk [OF r2]]
  show "untouched w0 w \<Longrightarrow> untouched w0 w'" and "w_slots w' = w_slots w" and "c \<noteq> []"
    and "w_names w' = w_names w"
    using assms r1 r2 d untouched_disk [OF _ d]
    by (auto simp: candidate_path_def Let_def same_disk_def)
qed

text \<open>A staged file that was just opened.\<close>

definition staged_open :: "transaction \<times> world \<Rightarrow> bool" where
  "staged_open s \<longleftrightarrow> tx_temporary (fst s) \<noteq> [] \<and> w_names (snd s) (tx_temporary (fst s)) \<noteq> None \<and>
     writing (tx_file (fst s)) \<and> \<not> io_error (tx_file (fst s)) \<and> written (tx_file (fst s)) = []"

lemma tx_attempts_inv:
  assumes "tx_attempts nr n tx w = (r, tx', w')" and "staged_inv w0 (tx, w)"
  shows "staged_inv w0 (tx', w') \<and> tx_destination tx' = tx_destination tx \<and> tx_inputs tx' = tx_inputs tx \<and>
    (r = Inr () \<longrightarrow> staged_open (tx', w'))"
  using assms
proof (induction n arbitrary: tx w)
  case 0
  then show ?case by auto
next
  case (Suc n)
  obtain c w1 where c: "candidate_path (tx_destination tx) w = (c, w1)" by fastforce
  obtain ok f w2 where o: "fio_open nr c EXCLUSIVE_OUT (tx_file tx) w1 = (ok, f, w2)" by (cases "fio_open nr c EXCLUSIVE_OUT (tx_file tx) w1") auto
  have i: "wf_world w0" "untouched w0 w" "\<forall>p. Some p \<in> set (w_slots w) \<longrightarrow> w_names w0 p = None"
    using Suc.prems(2) by (simp_all add: staged_inv_def)
  note ck = candidate_path_kept [OF c]
  note op = fio_open_exclusive [OF o ck(1) [OF i(2)] i(1)]
  show ?case
  proof (cases ok)
    case True
    define tx1 where "tx1 = tx\<lparr>tx_file := f, tx_temporary := c\<rparr>"
    obtain tx2 w3 where t: "tx_track tx1 w2 = (tx2, w3)" by fastforce
    obtain x w4 where p: "copyPermissions tx2 w3 = (x, w4)" by fastforce
    have res: "r = x" "tx' = tx2" "w' = w4"
      using Suc.prems(1) c o True t p by (simp_all add: tx1_def)
    note tk = tx_track_slots [OF t]
    have fresh: "w_names w0 c = None" using untouched_fresh [OF ck(1) [OF i(2)]] op(4) True by blast
    have temp: "tx_temporary tx2 = c" using tk(3) by (simp add: tx1_def)
    note cp = copyPermissions_kept [OF p tk(1) [OF op(1)]]
    have "set (w_slots w4) \<subseteq> insert (Some c) (set (w_slots w))"
      using cp(2) tk(2) op(2) ck(2) fresh temp by (simp add: tx1_def)
    then have "staged_inv w0 (tx', w')"
      using i cp(1) fresh temp by (auto simp: staged_inv_def res)
    moreover have "staged_open (tx', w')"
      using op(4) True cp(3) fresh temp tk(4,5) ck(3) by (simp add: staged_open_def res tx1_def)
    ultimately show ?thesis using tk(6,7) by (simp add: res tx1_def)
  next
    case False
    obtain pr w3 where e: "fs_exists c w2 = (pr, w3)" by fastforce
    note d = fs_exists_disk [OF e]
    have "staged_inv w0 (tx\<lparr>tx_file := f\<rparr>, w3)"
      using Suc.prems(2) untouched_disk [OF op(1) d] d op(2) ck(2) by (simp add: staged_inv_def same_disk_def)
    then show ?thesis
      using Suc.IH [of "tx\<lparr>tx_file := f\<rparr>" w3] Suc.prems(1) c o False e by (auto split: if_splits)
  qed
qed

lemma tx_open_inv:
  assumes "tx_open nr dest ins tx w = (r, tx', w')" and "staged_inv w0 (tx, w)"
  shows "staged_inv w0 (tx', w')"
    and "r = Inr () \<Longrightarrow> tx_destination tx' = dest \<and> tx_inputs tx' = ins \<and> staged_open (tx', w')"
proof -
  define tx1 where "tx1 = tx\<lparr>tx_destination := dest, tx_inputs := ins\<rparr>"
  obtain x w1 where v: "validateDestination tx1 w = (x, w1)" by fastforce
  note d = validateDestination_disk [OF v]
  have i1: "staged_inv w0 (tx1, w)" using assms(2) by (simp add: staged_inv_def tx1_def)
  then have i2: "staged_inv w0 (tx1, w1)" using d untouched_disk [OF _ d]
    by (simp add: staged_inv_def same_disk_def)
  have "staged_inv w0 (tx', w') \<and> (r = Inr () \<longrightarrow> tx_destination tx' = dest \<and> tx_inputs tx' = ins \<and> staged_open (tx', w'))"
    using assms v i1 i2 tx_attempts_inv [of nr 32 tx1 w1 r tx' w' w0]
    by (auto simp: tx_open_def tx1_def [symmetric] Let_def split: if_splits sum.splits) (simp_all add: tx1_def)
  then show "staged_inv w0 (tx', w')"
    and "r = Inr () \<Longrightarrow> tx_destination tx' = dest \<and> tx_inputs tx' = ins \<and> staged_open (tx', w')" by simp_all
qed

lemma close_staged_inv:
  assumes "close_staged tx w = (ok, tx', w')"
  shows "staged_inv w0 (tx, w) \<Longrightarrow> staged_inv w0 (tx', w')" and "tx' = tx\<lparr>tx_file := snd (fio_close (tx_file tx))\<rparr>"
    and "ok = fst (fio_close (tx_file tx))"
    and "w' = (if is_open (tx_file tx) \<and> tx_temporary tx \<noteq> []
               then store_data (tx_temporary tx) (written (tx_file tx)) w else w)"
  using assms untouched_store
  by (auto simp: close_staged_def staged_inv_def written_def split: prod.splits if_splits)

lemma staged_inv_disk: "staged_inv w0 (tx, w) \<Longrightarrow> same_disk w w' \<Longrightarrow> staged_inv w0 (tx, w')"
  using untouched_disk by (auto simp: staged_inv_def same_disk_def)

lemma tx_commit_fails_inv:
  assumes "tx_commit tx w = (Inl e, tx', w')" and "staged_inv w0 (tx, w)"
  shows "staged_inv w0 (tx', w')"
proof (cases "tx_temporary tx = []")
  case True
  then show ?thesis using assms by (simp add: tx_commit_def)
next
  case False
  obtain ok tx1 w1 where c: "close_staged tx w = (ok, tx1, w1)" by (cases "close_staged tx w") auto
  have i1: "staged_inv w0 (tx1, w1)" by (rule close_staged_inv(1) [OF c assms(2)])
  obtain fl w2 where s: "(if ok \<and> \<not> has_error (tx_file tx1) then sync_file (tx_temporary tx1) w1 else (False, w1)) = (fl, w2)"
    by fastforce
  have i2: "staged_inv w0 (tx1, w2)"
    using i1 s sync_file_kept [of "tx_temporary tx1" w1 fl w2]
    by (auto simp: staged_inv_def untouched_def split: if_splits)
  obtain x w3 where v: "validateDestination tx1 w2 = (x, w3)" by fastforce
  have i3: "staged_inv w0 (tx1, w3)" by (rule staged_inv_disk [OF i2 validateDestination_disk [OF v]])
  obtain y w4 where r: "fs_rename (tx_temporary tx1) (tx_destination tx1) w3 = (y, w4)" by fastforce
  obtain z w5 where t: "take_fault w3 = (z, w5)" by fastforce
  have "y \<noteq> None \<Longrightarrow> w4 = w5" using r t by (auto simp: fs_rename_def split: option.splits if_splits)
  then have i4: "y \<noteq> None \<Longrightarrow> staged_inv w0 (tx1, w4)"
    using staged_inv_disk [OF i3 take_fault_disk [OF t]] by simp
  show ?thesis
    using assms(1) False c s v r i1 i2 i3 i4
    by (auto simp: tx_commit_def Let_def split: if_splits sum.splits option.splits prod.splits)
qed

lemma tx_destroy_inv:
  assumes "tx_destroy tx w = (tx', w')" and "staged_inv w0 (tx, w)"
  shows "staged_inv w0 (tx', w')"
proof -
  obtain ok tx1 w1 where c: "close_staged tx w = (ok, tx1, w1)" by (cases "close_staged tx w") auto
  have i1: "staged_inv w0 (tx1, w1)" by (rule close_staged_inv(1) [OF c assms(2)])
  define w2 where "w2 = (if tx_temporary tx1 \<noteq> [] then fs_remove (tx_temporary tx1) w1 else w1)"
  have "staged_inv w0 (tx1, w2)" using i1 untouched_remove by (auto simp: staged_inv_def w2_def)
  moreover have u: "tx_untrack tx1 w2 = (tx', w')" using assms(1) c by (simp add: tx_destroy_def w2_def)
  ultimately show ?thesis using tx_untrack_slots(1-3) [OF u] by (auto simp: staged_inv_def)
qed

lemma tx_step_inv: "tx_step nr s s' \<Longrightarrow> staged_inv w0 s \<Longrightarrow> staged_inv w0 s'"
proof (induction rule: tx_step.induct)
  case (Open dest ins tx w r tx' w')
  then show ?case using tx_open_inv(1) by blast
next
  case (Commit_fails tx w e tx' w')
  then show ?case using tx_commit_fails_inv by blast
next
  case (Destroy tx w tx' w')
  then show ?case using tx_destroy_inv by blast
next
  case (Signal tx w)
  then show ?case using untouched_discard [of w0 w "w_slots w"]
    by (simp add: staged_inv_def discard_all_staged_def)
qed (simp add: staged_inv_def)

lemma tx_reachable_inv: "(tx_step nr)\<^sup>*\<^sup>* s s' \<Longrightarrow> staged_inv w0 s \<Longrightarrow> staged_inv w0 s'"
  by (induction rule: rtranclp_induct) (auto intro: tx_step_inv)


section \<open>Commit and destruction\<close>

lemma sync_directory_disk: "same_disk w (sync_directory dir w)"
proof -
  obtain e1 w1 where 1: "take_fault w = (e1, w1)" by fastforce
  obtain e2 w2 where 2: "take_fault w1 = (e2, w2)" by fastforce
  obtain e3 w3 where 3: "take_fault w2 = (e3, w3)" by fastforce
  note d = take_fault_disk [OF 1] take_fault_disk [OF 2] take_fault_disk [OF 3]
  have "same_disk w w3" using d same_disk_trans by blast
  then show ?thesis using 1 2 3 d(1) by (simp add: sync_directory_def split: option.split)
qed

lemma tx_commit_publishes:
  assumes "tx_commit tx w = (Inr u, tx', w')" and "is_open (tx_file tx)"
  obtains i where "w_names w (tx_temporary tx) = Some i"
    and "w_names w' = ((w_names w)(tx_temporary tx := None))(tx_destination tx \<mapsto> i)"
    and "w_nodes w' = (w_nodes w)(i := (w_nodes w i)\<lparr>nd_data := written (tx_file tx)\<rparr>)"
    and "w_journal w' = Renamed i (tx_destination tx) # Synced i (written (tx_file tx)) # w_journal w"
    and "tx_temporary tx' = []" and "\<not> is_open (tx_file tx')"
    and "w_next w' = w_next w"
proof -
  have temp: "tx_temporary tx \<noteq> []" using assms(1) by (auto simp: tx_commit_def)
  obtain ok tx1 w1 where c: "close_staged tx w = (ok, tx1, w1)" by (cases "close_staged tx w") auto
  note cs = close_staged_inv(2-4) [OF c]
  have w1: "w1 = store_data (tx_temporary tx) (written (tx_file tx)) w" using cs(3) assms(2) temp by simp
  have tx1: "tx_temporary tx1 = tx_temporary tx" "tx_destination tx1 = tx_destination tx" using cs(1) by simp_all
  obtain fl w2 where s: "(if ok \<and> \<not> has_error (tx_file tx1) then sync_file (tx_temporary tx1) w1 else (False, w1)) = (fl, w2)"
    by fastforce
  obtain x w3 where v: "validateDestination tx1 w2 = (x, w3)" by fastforce
  obtain y w4 where r: "fs_rename (tx_temporary tx1) (tx_destination tx1) w3 = (y, w4)" by fastforce
  obtain tx2 w5 where un: "tx_untrack tx1 w4 = (tx2, w5)" by fastforce
  have fl: fl and y: "y = None" and tx': "tx' = tx2\<lparr>tx_temporary := []\<rparr>"
    and w': "w' = sync_directory (parent_path (tx_destination tx2)) w5"
    using assms(1) temp c s v r un
    by (auto simp: tx_commit_def Let_def tx1 split: if_splits sum.splits option.splits prod.splits)
  have "sync_file (tx_temporary tx) w1 = (True, w2)" using s fl by (simp add: tx1 split: if_splits)
  note sy = sync_file_kept [OF this]
  obtain i where i: "w_names w1 (tx_temporary tx) = Some i" "w_journal w2 = Synced i (nd_data (w_nodes w1 i)) # w_journal w1"
    using sy(5) by blast
  note d3 = validateDestination_disk [OF v, unfolded same_disk_def]
  obtain z w6 where t: "take_fault w3 = (z, w6)" by fastforce
  note d6 = take_fault_disk [OF t, unfolded same_disk_def]
  have w4: "w_names w4 = ((w_names w2)(tx_temporary tx := None))(tx_destination tx \<mapsto> i)"
    "w_nodes w4 = w_nodes w2" "w_journal w4 = Renamed i (tx_destination tx) # w_journal w2" "w_next w4 = w_next w2"
    using r y t d3 d6 sy(1) i(1) by (auto simp: fs_rename_def tx1 split: option.splits if_splits)
  have sd: "same_disk w5 w'"
    unfolding w' by (rule sync_directory_disk)
  note un' = tx_untrack_slots(3-7) [OF un]
  have names: "w_names w1 = w_names w" and nx: "w_next w1 = w_next w" and jn: "w_journal w1 = w_journal w" using w1 by (simp_all add: store_data_def split: option.splits)
  have "w_nodes w1 = (w_nodes w)(i := (w_nodes w i)\<lparr>nd_data := written (tx_file tx)\<rparr>)"
    using w1 i(1) names by (simp add: store_data_def split: option.splits)
  moreover have "\<not> is_open (tx_file tx')"
    using fio_close_closed [of "tx_file tx"] cs(1) un'(1) by (simp add: tx' prod_eq_iff)
  ultimately show ?thesis
    using that [of i] i names nx jn w4 un' sd sy(1,2,4) by (simp add: same_disk_def tx' tx1)
qed

text \<open>After a commit the destructor has nothing left to do.\<close>

lemma tx_destroy_published:
  assumes "tx_destroy tx w = (tx', w')" and "tx_temporary tx = []"
  shows "w_names w' = w_names w" and "w_nodes w' = w_nodes w" and "w_next w' = w_next w" and "w_journal w' = w_journal w"
proof -
  obtain ok tx1 w1 where c: "close_staged tx w = (ok, tx1, w1)" by (cases "close_staged tx w") auto
  have t: "tx_untrack tx1 w = (tx', w')"
    using assms c close_staged_inv(2,4) [OF c] by (simp add: tx_destroy_def)
  show "w_names w' = w_names w" and "w_nodes w' = w_nodes w" and "w_next w' = w_next w" and "w_journal w' = w_journal w"
    using tx_untrack_slots(4-7) [OF t] by simp_all
qed

text \<open>Two names of one file are never both input and output.\<close>

lemma check_aliases_refuses:
  assumes "check_aliases dest ins w = (r, w')" and "input \<in> set ins" and "w_names w dest = Some i"
    and "w_names w input = Some i"
  shows "\<exists>e. r = Inl e"
  using assms
proof (induction ins arbitrary: w)
  case (Cons a ins)
  obtain x w1 where e: "fs_equivalent dest a w = (x, w1)" by fastforce
  note d = fs_equivalent_disk [OF e]
  obtain z v where t: "take_fault w = (z, v)" by fastforce
  have names: "w_names v = w_names w" using take_fault_disk [OF t] by (simp add: same_disk_def)
  have "a = input \<Longrightarrow> x \<noteq> Inr False"
    using e t names Cons.prems(3,4) by (auto simp: fs_equivalent_def split: option.splits)
  then have "x = Inr False \<Longrightarrow> input \<in> set ins" using Cons.prems(2) by auto
  moreover have "w_names w1 dest = Some i" "w_names w1 input = Some i" using d Cons.prems(3,4) by (simp_all add: same_disk_def)
  ultimately have "x = Inr False \<Longrightarrow> \<exists>e. r = Inl e"
    using Cons.IH [of w1] Cons.prems(1) e by simp
  then show ?case using Cons.prems(1) e by (auto split: sum.splits bool.splits)
qed simp

lemma fs_status_present:
  assumes "fs_status p w = (s, w')" and "w_names w p = Some i" and "Some ENOENT \<notin> set (w_errs w)"
  shows "s \<noteq> St_missing"
proof -
  obtain e w1 where t: "take_fault w = (e, w1)" by fastforce
  then have "e \<noteq> Some ENOENT" using assms(3) by (auto simp: take_fault_def split: list.splits)
  moreover have "node_at w p = Some (w_nodes w i)" using assms(2) by (simp add: node_at_def)
  then have "node_at w1 p \<noteq> None" using same_disk_node [OF take_fault_disk [OF t], of p] by simp
  ultimately show ?thesis using assms(1) t by (auto simp: fs_status_def split: option.splits if_splits)
qed

lemma validateDestination_refuses:
  assumes "validateDestination tx w = (r, w')" and "input \<in> set (tx_inputs tx)"
    and "w_names w (tx_destination tx) = Some i" and "w_names w input = Some i" and "Some ENOENT \<notin> set (w_errs w)"
  shows "\<exists>e. r = Inl e"
proof -
  obtain s w1 where s: "fs_status (tx_destination tx) w = (s, w1)" by fastforce
  note d = fs_status_disk [OF s]
  show ?thesis
    using assms(1) s fs_status_present [OF s assms(3,5)] d assms(2-4) check_aliases_refuses
    by (auto simp: validateDestination_def same_disk_def split: fs_status.splits if_splits)
qed

section \<open>A candidate that was given up\<close>








section \<open>Properties of the transaction\<close>

text \<open>C5 Safety: through any interleaving of opening, writing, failing commits, destruction and the signal
  handler, with any faults of the file system, every file that existed keeps its name, kind, bytes
  and permissions; only a commit that succeeds changes a file the user had.\<close>

theorem transaction_touches_nothing:
  assumes "(tx_step nr)\<^sup>*\<^sup>* (tx_new, w) (tx, w')" and "wf_world w" and "\<forall>s \<in> set (w_slots w). s = None"
  shows "untouched w w'"
proof -
  have "staged_inv w (tx_new, w)"
    using assms(2,3) untouched_refl by (auto simp: staged_inv_def tx_new_def)
  from tx_reachable_inv [OF assms(1) this] show ?thesis by (simp add: staged_inv_def)
qed

theorem transaction_touches_nothing_witness:
  "untouched (world_of [(''old'', [1, 2])])
     (snd (snd (tx_open True ''dir/new'' [''old''] tx_new (world_of [(''old'', [1, 2])]))))"
proof -
  obtain r tx w' where o: "tx_open True ''dir/new'' [''old''] tx_new (world_of [(''old'', [1, 2])]) = (r, tx, w')"
    by (cases "tx_open True ''dir/new'' [''old''] tx_new (world_of [(''old'', [1, 2])])") auto
  have "(tx_step True)\<^sup>*\<^sup>* (tx_new, world_of [(''old'', [1, 2])]) (tx, w')"
    by (rule r_into_rtranclp) (rule tx_step.Open [OF o])
  from transaction_touches_nothing [OF this world_of_wf world_of_slots] o show ?thesis by simp
qed

text \<open>C6 Publication: when a commit reports success the destination names exactly the bytes written to the
  staged file; the syncs and renames of the commit are, in this order, a sync of that file when it already held all of
  these bytes, and then the rename onto the destination; the temporary name is gone, and no other name or file
  changed.\<close>

theorem commit_publishes_written_bytes:
  assumes "tx_commit tx w = (Inr u, tx', w')" and "is_open (tx_file tx)"
  shows "\<exists>i. w_names w (tx_temporary tx) = Some i \<and>
    w_names w' = ((w_names w)(tx_temporary tx := None))(tx_destination tx \<mapsto> i) \<and>
    w_nodes w' = (w_nodes w)(i := (w_nodes w i)\<lparr>nd_data := written (tx_file tx)\<rparr>) \<and>
    w_journal w' = [Renamed i (tx_destination tx), Synced i (written (tx_file tx))] @ w_journal w"
  by (rule tx_commit_publishes [OF assms]) simp

definition sample_staged :: transaction where
  "sample_staged = \<lparr>tx_destination = ''out'', tx_temporary = ''tmp'', tx_inputs = [''old''],
     tx_file = fio_default\<lparr>strm := (opened_stream [5, 6] [])\<lparr>st_pos := 2\<rparr>\<rparr>, tx_slot = None\<rparr>"

theorem commit_publishes_written_bytes_witness:
  "\<exists>tx' w' i. tx_commit sample_staged (world_of [(''old'', [1]), (''tmp'', [])]) = (Inr (), tx', w') \<and>
     w_names w' ''out'' = Some i \<and> nd_data (w_nodes w' i) = [5, 6] \<and>
     w_journal w' = [Renamed i ''out'', Synced i [5, 6]]"
proof -
  define w where "w = world_of [(''old'', [1]), (''tmp'', [])]"
  obtain r tx' w' where c: "tx_commit sample_staged w = (r, tx', w')" by (cases "tx_commit sample_staged w") auto
  have "fst (tx_commit sample_staged w) = Inr ()" unfolding w_def by code_simp
  with c have c': "tx_commit sample_staged w = (Inr (), tx', w')" by simp
  have "is_open (tx_file sample_staged)" by (simp add: sample_staged_def is_open_def opened_stream_def)
  from commit_publishes_written_bytes [OF c' this] c' show ?thesis unfolding w_def
    by (auto simp: sample_staged_def written_def opened_stream_def world_of_def)
qed

text \<open>C39 An output path that names the same file as an input, by whatever name, is refused, and nothing on
  the disk changes.\<close>

theorem aliased_output_refused:
  assumes "tx_open nr dest inputs tx_new w = (r, tx', w')" and "input \<in> set inputs"
    and "w_names w dest = Some i" and "w_names w input = Some i" and "Some ENOENT \<notin> set (w_errs w)"
  shows "(\<exists>e. r = Inl e) \<and> same_disk w w'"
proof -
  define tx1 where "tx1 = tx_new\<lparr>tx_destination := dest, tx_inputs := inputs\<rparr>"
  obtain x w1 where v: "validateDestination tx1 w = (x, w1)" by fastforce
  have "\<exists>e. x = Inl e"
    using validateDestination_refuses [OF v, of input i] assms(2-5) by (simp add: tx1_def)
  moreover have "tx_destination tx_new = []" by (simp add: tx_new_def)
  ultimately show ?thesis
    using assms(1) v validateDestination_disk [OF v] by (auto simp: tx_open_def tx1_def Let_def split: if_splits)
qed

theorem aliased_output_refused_witness:
  "\<exists>e. fst (tx_open True ''link'' [''old''] tx_new
     ((world_of [(''old'', [1])])\<lparr>w_names := [''old'' \<mapsto> 0, ''link'' \<mapsto> 0]\<rparr>)) = Inl e"
proof -
  define w where "w = (world_of [(''old'', [1])])\<lparr>w_names := [''old'' \<mapsto> 0, ''link'' \<mapsto> 0]\<rparr>"
  obtain r tx' w' where o: "tx_open True ''link'' [''old''] tx_new w = (r, tx', w')"
    by (cases "tx_open True ''link'' [''old''] tx_new w") auto
  have "(\<exists>e. r = Inl e) \<and> same_disk w w'"
    by (rule aliased_output_refused [OF o, of "''old''" 0]) (simp_all add: w_def world_of_def)
  then show ?thesis using o unfolding w_def by auto
qed




end
