(* ===== verification/Apply_Delta.thy ===== *)
theory Apply_Delta
  imports Reader_Progress Delta_Diff Signature_Gen Output_Transaction
begin

text \<open>
  The applier (\<^verbatim>\<open>src/src/Apply.hpp\<close>): one record for the objects \<open>apply_delta_impl\<close> works on, one
  definition per branch of its switch, and the loop over entries, which ends because every entry
  takes bytes off the delta.  The specification it is compared with is the relation \<open>entry_output\<close>
  between an entry and the bytes it stands for.
\<close>

lemma shrinks_diff_opcode: "shrinks (read_diff_opcode file_source)"
  unfolding read_diff_opcode_def by (intro shrinks_intros shrinks_read_or shrinks_opcode_body)

section \<open>Diffs\<close>

text \<open>The failure reported for a message of the reader: an I/O error if the file recorded one.\<close>

definition reader_failure :: "fileio \<Rightarrow> string \<Rightarrow> DeltaError" where
  "reader_failure f msg = delta_error (if has_error f then io_err else corrupt_delta) msg"

function apply_diff_loop ::
  "bytes \<Rightarrow> nat \<Rightarrow> nat \<Rightarrow> diff_state \<Rightarrow> fileio \<Rightarrow> (DeltaError, nat \<times> diff_state, fileio) outcome" where
  "apply_diff_loop old_data target seen st f =
     (case run_state (at_diff_opcode file_source) f of (again, f1) \<Rightarrow>
        if \<not> again then (Inr (seen, st), f1)
        else case run_state (read_diff_opcode file_source) f1 of
            (Inl msg, f2) \<Rightarrow> (Inl (reader_failure f2 msg), f2)
          | (Inr opcode, f2) \<Rightarrow>
              (case apply_opcode old_data target opcode st of
                 Inl msg \<Rightarrow> (Inl (delta_error corrupt_delta msg), f2)
               | Inr st' \<Rightarrow> apply_diff_loop old_data target (Suc seen) st' f2))"
  by pat_completeness auto
termination
  by (relation "measure (\<lambda>(old_data, target, seen, st, f). length (remaining f))")
    (auto dest!: diff_opcode_progress [OF sym] reader_shrinks(2) [OF sym])

declare apply_diff_loop.simps [simp del]

text \<open>A default-constructed error: \<open>DeltaErrc\<close> zero and no message.\<close>

definition no_error :: DeltaError where
  "no_error = delta_error io_err []"

definition applyDiff :: "bytes \<Rightarrow> nat \<Rightarrow> fileio \<Rightarrow> (DeltaError, bytes, fileio) outcome" where
  "applyDiff old_data target f =
     (case apply_diff_loop old_data target 0 diff_start f of
        (Inl e, f1) \<Rightarrow> (Inl e, f1)
      | (Inr (seen, st), f1) \<Rightarrow>
          (case finish_diff seen of
             Inl msg \<Rightarrow> (Inl (delta_error corrupt_delta msg), f1)
           | Inr _ \<Rightarrow>
               (case diff_tail old_data target st of
                  Inl msg \<Rightarrow> (Inl (delta_error corrupt_delta msg), f1)
                | Inr produced \<Rightarrow> (if length produced = target then Inr produced else Inl no_error, f1))))"

section \<open>Digests\<close>

definition resize_bytes :: "nat \<Rightarrow> bytes \<Rightarrow> bytes" where
  "resize_bytes n bs = take n bs @ replicate (n - length bs) 0"

definition verifyDigest :: "'u strong_hash \<Rightarrow> bytes \<Rightarrow> bytes \<Rightarrow> 'u \<Rightarrow> string + (bool \<times> 'u)" where
  "verifyDigest U data expected h =
     (if length expected \<noteq> DELTA_DIGEST_BYTES then Inr (False, h)
      else bind_sum (sh_hash U (digest_buffer U) data h) (\<lambda>(computed, h').
             Inr (resize_bytes DELTA_DIGEST_BYTES computed = expected, h')))"

section \<open>The state of an application\<close>

record 'u apply_state =
  ap_old :: fileio
  ap_delta :: fileio
  ap_out :: fileio
  ap_hash :: 'u
  ap_whole :: 'u
  ap_stats :: ApplyStats

text \<open>Verify what an entry produced, and reject it with the message given.\<close>

definition require_digest ::
  "'u strong_hash \<Rightarrow> string \<Rightarrow> bytes \<Rightarrow> bytes \<Rightarrow> 'u apply_state \<Rightarrow> (failure, bytes, 'u apply_state) outcome" where
  "require_digest U msg expected produced s =
     (case verifyDigest U produced expected (ap_hash s) of
        Inl e \<Rightarrow> (Inl (Thrown e), s)
      | Inr (ok, h) \<Rightarrow>
          (if ok then Inr produced else Inl (Failed (delta_error integrity_mismatch msg)), s\<lparr>ap_hash := h\<rparr>))"

definition read_old_chunk ::
  "string \<Rightarrow> SignedChunk \<Rightarrow> 'u apply_state \<Rightarrow> (failure, bytes, 'u apply_state) outcome" where
  "read_old_chunk msg source s =
     (case read_chunk_at (chunk_size source) (start_offset source) (ap_old s) of (data, f) \<Rightarrow>
        (if has_error f \<or> length data \<noteq> chunk_size source
         then Inl (Failed (delta_error io_err msg)) else Inr data,
         s\<lparr>ap_old := f\<rparr>))"

section \<open>One entry\<close>

definition produce_original ::
  "SignedChunk \<Rightarrow> DeltaEntryHeader \<Rightarrow> 'u apply_state \<Rightarrow> (failure, bytes, 'u apply_state) outcome" where
  "produce_original source header s =
     (if sc_hash source \<noteq> digest header
      then (Inl (Failed (delta_error integrity_mismatch ''ORIGINAL entry digest does not match the old chunk'')), s)
      else read_old_chunk ''Failed to read old chunk'' source s)"

definition produce_added ::
  "'u strong_hash \<Rightarrow> DeltaEntryHeader \<Rightarrow> 'u apply_state \<Rightarrow> (failure, bytes, 'u apply_state) outcome" where
  "produce_added U header s =
     (case run_state (read_payload file_source (unat (out_size header))) (ap_delta s) of
        (Inl msg, f) \<Rightarrow> (Inl (Failed (reader_failure f msg)), s\<lparr>ap_delta := f\<rparr>)
      | (Inr produced, f) \<Rightarrow>
          require_digest U ''ADDED entry hash mismatch'' (digest header) produced (s\<lparr>ap_delta := f\<rparr>))"

definition produce_modified ::
  "'u strong_hash \<Rightarrow> SignedChunk \<Rightarrow> DeltaEntryHeader \<Rightarrow> 'u apply_state \<Rightarrow> (failure, bytes, 'u apply_state) outcome" where
  "produce_modified U source header s =
     proceed (read_old_chunk ''Failed to read MODIFIED source chunk'' source s) (\<lambda>old_data s1.
       case applyDiff old_data (unat (out_size header)) (ap_delta s1) of
         (Inl e, f) \<Rightarrow> (Inl (Failed e), s1\<lparr>ap_delta := f\<rparr>)
       | (Inr produced, f) \<Rightarrow>
           require_digest U ''MODIFIED entry hash mismatch'' (digest header) produced (s1\<lparr>ap_delta := f\<rparr>))"

definition produce ::
  "'u strong_hash \<Rightarrow> SignedChunk list \<Rightarrow> DeltaEntryHeader \<Rightarrow> 'u apply_state \<Rightarrow> (failure, bytes, 'u apply_state) outcome" where
  "produce U old_chunks header s =
     (if references_old header \<and> unat (old_index header) \<ge> length old_chunks
      then (Inl (Failed (delta_error corrupt_delta
              (''Entry references old chunk '' @ to_dec (unat (old_index header)) @
               '', but the old file has '' @ to_dec (length old_chunks)))), s)
      else let source = old_chunks ! unat (old_index header) in
        case type header of
          ORIGINAL_CHUNK \<Rightarrow> produce_original source header s
        | ADDED_CHUNK \<Rightarrow> produce_added U header s
        | MODIFIED_CHUNK \<Rightarrow> produce_modified U source header s)"

text \<open>Write what an entry produced and account for it, within the limit on the output.\<close>

definition deliver ::
  "'u strong_hash \<Rightarrow> u64 \<Rightarrow> bytes \<Rightarrow> 'u apply_state \<Rightarrow> (failure, unit, 'u apply_state) outcome" where
  "deliver U max_output produced s =
     (if length produced > size_sub (unat max_output) (as_bytes_written (ap_stats s))
      then (Inl (Failed (delta_error limit_exceeded
              (''Output would exceed the limit of '' @ to_dec (unat max_output) @ '' bytes''))), s)
      else case write_chunk produced (ap_out s) of
          (False, f) \<Rightarrow> (Inl (Failed (delta_error io_err ''Failed to write output chunk'')), s\<lparr>ap_out := f\<rparr>)
        | (True, f) \<Rightarrow>
            (case sh_update U produced (ap_whole s) of
               Inl e \<Rightarrow> (Inl (Thrown e), s\<lparr>ap_out := f\<rparr>)
             | Inr h \<Rightarrow>
                 (Inr (), s\<lparr>ap_out := f, ap_whole := h,
                    ap_stats := \<lparr>as_entries_processed = Suc (as_entries_processed (ap_stats s)),
                                 as_bytes_written = as_bytes_written (ap_stats s) + length produced\<rparr>\<rparr>)))"

definition apply_trailer :: "'u strong_hash \<Rightarrow> 'u apply_state \<Rightarrow> (failure, unit, 'u apply_state) outcome" where
  "apply_trailer U s =
     (case run_state (read_trailer file_source (sh_size U)) (ap_delta s) of
        (Inl msg, f) \<Rightarrow> (Inl (Failed (reader_failure f msg)), s\<lparr>ap_delta := f\<rparr>)
      | (Inr trailer, f) \<Rightarrow>
          (case sh_finalize U (digest_buffer U) (ap_whole s) of
             Inl e \<Rightarrow> (Inl (Thrown e), s\<lparr>ap_delta := f\<rparr>)
           | Inr (computed, h) \<Rightarrow>
               (if computed = trailer then Inr ()
                else Inl (Failed (delta_error integrity_mismatch ''Whole-file hash mismatch'')),
                s\<lparr>ap_delta := f, ap_whole := h\<rparr>)))"

text \<open>One entry: its header, what it produces, and the output.\<close>

definition apply_entry ::
  "'u strong_hash \<Rightarrow> SignedChunk list \<Rightarrow> u64 \<Rightarrow> 'u apply_state \<Rightarrow> (failure, unit, 'u apply_state) outcome" where
  "apply_entry U old_chunks max_output s =
     (case run_state (read_entry_header file_source) (ap_delta s) of
        (Inl msg, f) \<Rightarrow> (Inl (Failed (reader_failure f msg)), s\<lparr>ap_delta := f\<rparr>)
      | (Inr header, f) \<Rightarrow>
          proceed (produce U old_chunks header (s\<lparr>ap_delta := f\<rparr>)) (deliver U max_output))"

lemma apply_diff_loop_shrinks:
  "apply_diff_loop old_data target seen st f = (r, f') \<Longrightarrow> length (remaining f') \<le> length (remaining f)"
proof (induction old_data target seen st f rule: apply_diff_loop.induct)
  case (1 old_data target seen st f)
  obtain again f1 where m: "run_state (at_diff_opcode file_source) f = (again, f1)" by fastforce
  obtain rc f2 where d: "run_state (read_diff_opcode file_source) f1 = (rc, f2)" by fastforce
  note le = reader_shrinks(2) [OF m] shrinksD [OF shrinks_diff_opcode d]
  show ?case
    using "1.prems" "1.IH" [OF m [symmetric] _ d [symmetric]] m d le
    by (subst (asm) apply_diff_loop.simps) (fastforce split: if_splits sum.splits)
qed


text \<open>An entry never gives bytes of the delta back.\<close>

lemma applyDiff_shrinks:
  "applyDiff old_data target f = (r, f') \<Longrightarrow> length (remaining f') \<le> length (remaining f)"
  using apply_diff_loop_shrinks [of old_data target 0 diff_start f]
  by (fastforce simp: applyDiff_def split: prod.splits sum.splits)

lemma require_digest_delta:
  "require_digest U msg ex p s = (r, s') \<Longrightarrow> ap_delta s' = ap_delta s \<and> ap_old s' = ap_old s \<and>
     ap_out s' = ap_out s \<and> ap_whole s' = ap_whole s \<and> ap_stats s' = ap_stats s"
  by (auto simp: require_digest_def split: sum.splits prod.splits)

lemma read_old_chunk_delta:
  "read_old_chunk msg c s = (r, s') \<Longrightarrow> ap_delta s' = ap_delta s \<and> ap_out s' = ap_out s \<and>
     ap_whole s' = ap_whole s \<and> ap_stats s' = ap_stats s \<and> ap_hash s' = ap_hash s"
  by (auto simp: read_old_chunk_def split: prod.splits)

lemma produce_keeps:
  assumes "produce U cs h s = (r, s')"
  shows "length (remaining (ap_delta s')) \<le> length (remaining (ap_delta s))"
    and "ap_out s' = ap_out s" and "ap_whole s' = ap_whole s" and "ap_stats s' = ap_stats s"
proof -
  have "length (remaining (ap_delta s')) \<le> length (remaining (ap_delta s)) \<and>
      ap_out s' = ap_out s \<and> ap_whole s' = ap_whole s \<and> ap_stats s' = ap_stats s"
  proof -
    have original: ?thesis if "produce_original c h s = (r, s')" for c
      using that read_old_chunk_delta by (fastforce simp: produce_original_def split: if_splits)
    have added: ?thesis if "produce_added U h s = (r, s')"
      using that require_digest_delta reader_shrinks(3)
      by (fastforce simp: produce_added_def split: prod.splits sum.splits)
    have modified: ?thesis if m: "produce_modified U c h s = (r, s')" for c
    proof -
      obtain x s1 where 1: "read_old_chunk ''Failed to read MODIFIED source chunk'' c s = (x, s1)" by fastforce
      show ?thesis
      proof (cases x)
        case (Inl e)
        then show ?thesis using m 1 read_old_chunk_delta [OF 1] by (simp add: produce_modified_def)
      next
        case (Inr old_data)
        obtain y f where 2: "applyDiff old_data (unat (out_size h)) (ap_delta s1) = (y, f)" by fastforce
        then show ?thesis
          using m 1 read_old_chunk_delta [OF 1] Inr applyDiff_shrinks [OF 2] require_digest_delta
          by (fastforce simp: produce_modified_def split: sum.splits)
      qed
    qed
    show ?thesis
      using assms original added modified by (auto simp: produce_def Let_def split: if_splits EntryType.splits)
  qed
  then show "length (remaining (ap_delta s')) \<le> length (remaining (ap_delta s))"
    and "ap_out s' = ap_out s" and "ap_whole s' = ap_whole s" and "ap_stats s' = ap_stats s" by simp_all
qed

lemma deliver_delta: "deliver U m p s = (r, s') \<Longrightarrow> ap_delta s' = ap_delta s \<and> ap_old s' = ap_old s \<and> ap_hash s' = ap_hash s"
  by (auto simp: deliver_def split: if_splits prod.splits bool.splits sum.splits)

lemma apply_entry_progress:
  assumes "apply_entry U cs m s = (Inr u, s')"
  shows "length (remaining (ap_delta s')) < length (remaining (ap_delta s))"
proof -
  obtain hd f where h: "run_state (read_entry_header file_source) (ap_delta s) = (hd, f)" by fastforce
  with assms obtain hdr where hdr: "hd = Inr hdr" by (auto simp: apply_entry_def split: sum.splits)
  obtain p s1 where 1: "produce U cs hdr (s\<lparr>ap_delta := f\<rparr>) = (Inr p, s1)" and 2: "deliver U m p s1 = (Inr u, s')"
    using assms h hdr by (auto simp: apply_entry_def proceed_Inr)
  show ?thesis
    using entry_header_progress [OF h [unfolded hdr]] produce_keeps(1) [OF 1] deliver_delta [OF 2] by simp
qed

section \<open>All entries\<close>

function apply_loop ::
  "'u strong_hash \<Rightarrow> SignedChunk list \<Rightarrow> u64 \<Rightarrow> 'u apply_state \<Rightarrow> (failure, bool, 'u apply_state) outcome" where
  "apply_loop U old_chunks max_output s =
     (case run_state (next_item file_source) (ap_delta s) of (item, f) \<Rightarrow>
        let s1 = s\<lparr>ap_delta := f\<rparr> in
        case item of
          End \<Rightarrow> (Inr False, s1)
        | Trailer \<Rightarrow> proceed (apply_trailer U s1) (\<lambda>_ s2. (Inr True, s2))
        | Entry \<Rightarrow>
            (case apply_entry U old_chunks max_output s1 of
               (Inl e, s2) \<Rightarrow> (Inl e, s2)
             | (Inr _, s2) \<Rightarrow> apply_loop U old_chunks max_output s2))"
  by pat_completeness auto
termination
  by (relation "measure (\<lambda>(U, cs, m, s). length (remaining (ap_delta s)))")
    (auto dest!: apply_entry_progress [OF sym] reader_shrinks(1) [OF sym])

declare apply_loop.simps [simp del]

section \<open>The whole operation\<close>

text \<open>From the constructors of the hash objects to the check of the trailer.\<close>

definition apply_stream ::
  "'u strong_hash \<Rightarrow> SignedChunk list \<Rightarrow> u64 \<Rightarrow> fileio \<Rightarrow> fileio \<Rightarrow> fileio \<Rightarrow>
   (failure + ApplyStats) \<times> fileio \<times> fileio \<times> fileio" where
  "apply_stream U old_chunks max_output old_file delta output =
     (case bind_sum (sh_new U) (\<lambda>hash_func. bind_sum (sh_new U) (\<lambda>u.
             bind_sum (sh_init U u) (\<lambda>whole. Inr (hash_func, whole)))) of
        Inl e \<Rightarrow> (Inl (Thrown e), old_file, delta, output)
      | Inr (hash_func, whole) \<Rightarrow>
          (case apply_loop U old_chunks max_output
                  \<lparr>ap_old = old_file, ap_delta = delta, ap_out = output, ap_hash = hash_func, ap_whole = whole,
                   ap_stats = \<lparr>as_entries_processed = 0, as_bytes_written = 0\<rparr>\<rparr> of
             (Inl e, s) \<Rightarrow> (Inl e, ap_old s, ap_delta s, ap_out s)
           | (Inr saw_trailer, s) \<Rightarrow>
               (case run_state (finish file_source saw_trailer) (ap_delta s) of
                  (Inl msg, f) \<Rightarrow> (Inl (Failed (reader_failure f msg)), ap_old s, f, ap_out s)
                | (Inr _, f) \<Rightarrow> (Inr (ap_stats s), ap_old s, f, ap_out s))))"

text \<open>What follows the opening of the output: the header, the signature of the old file, the
  entries, and the commit.  The transaction is returned as the destructor will find it.\<close>

definition apply_opened ::
  "'t rolling_hash \<Rightarrow> 'u strong_hash \<Rightarrow> path \<Rightarrow> u64 \<Rightarrow> fileio \<Rightarrow> fileio \<Rightarrow> transaction \<Rightarrow> world \<Rightarrow>
   (failure + ApplyStats) \<times> transaction \<times> world" where
  "apply_opened T U old_path max_output old_file delta tx w =
     (case sh_new U of
        Inl e \<Rightarrow> (Inl (Thrown e), tx, w)
      | Inr _ \<Rightarrow>
     (case run_state (read_header file_source) delta of
        (Inl msg, delta1) \<Rightarrow> (Inl (Failed (reader_failure delta1 msg)), tx, w)
      | (Inr _, delta1) \<Rightarrow>
     (case generate_signatures T U Skip old_file of
        Inl e \<Rightarrow> (Inl (Thrown e), tx, w)
      | Inr (False, _, _) \<Rightarrow> (Inl (Failed (delta_error io_err (''Failed to read old file: '' @ old_path))), tx, w)
      | Inr (True, old_sig, old1) \<Rightarrow>
     (case apply_stream U (sg_chunks old_sig) max_output old1 delta1 (tx_file tx) of (r, old2, delta2, output) \<Rightarrow>
        let tx1 = tx\<lparr>tx_file := output\<rparr> in
        case r of
          Inl e \<Rightarrow> (Inl e, tx1, w)
        | Inr stats \<Rightarrow>
            if \<not> fst (fio_close old2) \<or> \<not> fst (fio_close delta2)
            then (Inl (Failed (delta_error io_err ''Failed to close input files'')), tx1, w)
            else (case tx_commit tx1 w of
                    (Inl e, tx2, w1) \<Rightarrow> (Inl (Failed e), tx2, w1)
                  | (Inr _, tx2, w1) \<Rightarrow> (Inr stats, tx2, w1))))))"

definition apply_delta_impl ::
  "bool \<Rightarrow> 't rolling_hash \<Rightarrow> 'u strong_hash \<Rightarrow> path \<Rightarrow> path \<Rightarrow> path \<Rightarrow> u64 \<Rightarrow> world \<Rightarrow>
   (failure + ApplyStats) \<times> world" where
  "apply_delta_impl nr T U old_path delta_path out_path max_output w =
     (case fio_open nr old_path IN fio_default w of (old_ok, old_file, w1) \<Rightarrow>
      if \<not> old_ok then (Inl (Failed (delta_error io_err (''Failed to open old file: '' @ old_path))), w1)
      else case fio_open nr delta_path IN fio_default w1 of (delta_ok, delta, w2) \<Rightarrow>
      if \<not> delta_ok then (Inl (Failed (delta_error io_err (''Failed to open delta file: '' @ delta_path))), w2)
      else case tx_open nr out_path [old_path, delta_path] tx_new w2 of
          (Inl e, tx, w3) \<Rightarrow> (Inl (Failed e), snd (tx_destroy tx w3))
        | (Inr _, tx, w3) \<Rightarrow>
            (case apply_opened T U old_path max_output old_file delta tx w3 of
               (r, tx1, w4) \<Rightarrow> (r, snd (tx_destroy tx1 w4))))"

definition apply_delta ::
  "bool \<Rightarrow> 't rolling_hash \<Rightarrow> 'u strong_hash \<Rightarrow> path \<Rightarrow> path \<Rightarrow> path \<Rightarrow> u64 \<Rightarrow> world \<Rightarrow>
   (DeltaError + ApplyStats) \<times> world" where
  "apply_delta nr T U old_path delta_path out_path max_output w =
     (case apply_delta_impl nr T U old_path delta_path out_path max_output w of
        (Inl (Thrown e), w1) \<Rightarrow> (Inl (delta_error internal_error (''Unexpected error: '' @ e)), w1)
      | (Inl (Failed e), w1) \<Rightarrow> (Inl e, w1)
      | (Inr stats, w1) \<Rightarrow> (Inr stats, w1))"

section \<open>Opcode runs\<close>

text \<open>A run that ends without an error of the device has consumed the encoding of the opcodes it
  applied, and stopped in front of a byte that is no opcode.\<close>

lemma at_diff_opcode_list: "run_state (at_diff_opcode list_source) bs = (is_diff_opcode (case bs of [] \<Rightarrow> None | b # _ \<Rightarrow> Some b), bs)"
  by (cases bs) (simp_all add: at_diff_opcode_def)

text \<open>The opcodes of a file from \<open>f\<close> to \<open>f'\<close>, and what they do to the state of a diff.\<close>

definition opcodes_read ::
  "bytes \<Rightarrow> nat \<Rightarrow> fileio \<Rightarrow> fileio \<Rightarrow> nat \<Rightarrow> diff_state \<Rightarrow> diff_state \<Rightarrow> bool" where
  "opcodes_read old_data target f f' n st st' \<longleftrightarrow>
     (\<exists>cs. remaining f = encode_opcodes cs @ remaining f' \<and> (\<forall>c \<in> set cs. valid_opcode c) \<and>
        apply_opcodes old_data target cs st = Inr st' \<and> n = length cs)"

lemma opcodes_read_none: "remaining f' = remaining f \<Longrightarrow> opcodes_read old_data target f f' 0 st st"
  by (auto simp: opcodes_read_def encode_opcodes_def intro!: exI [of _ "[]"])

lemma opcodes_read_step:
  assumes "remaining f = encode_opcode c @ remaining g" and "valid_opcode c" and "apply_opcode old_data target c st = Inr st1"
    and "opcodes_read old_data target g f' n st1 st'"
  shows "opcodes_read old_data target f f' (Suc n) st st'"
proof -
  obtain cs where "remaining g = encode_opcodes cs @ remaining f'" "\<forall>c \<in> set cs. valid_opcode c"
      "apply_opcodes old_data target cs st1 = Inr st'" "n = length cs"
    using assms(4) by (auto simp: opcodes_read_def)
  then show ?thesis using assms(1-3) unfolding opcodes_read_def
    by (intro exI [of _ "c # cs"]) (simp add: encode_opcodes_def)
qed

lemma apply_diff_loop_handle:
  assumes "apply_diff_loop old_data target seen st f = (r, f')" and "reading f"
  shows "reading f' \<and> (io_error f \<longrightarrow> io_error f') \<and> (healthy f \<longrightarrow> healthy f')"
  using assms
proof (induction old_data target seen st f rule: apply_diff_loop.induct)
  case (1 old_data target seen st f)
  obtain again f1 where m: "run_state (at_diff_opcode file_source) f = (again, f1)" by fastforce
  obtain rc f2 where d: "run_state (read_diff_opcode file_source) f1 = (rc, f2)" by fastforce
  note m' = simulatesD [OF fio.at_diff_opcode_sim "1.prems"(2) m]
  note d' = simulatesD [OF fio.read_diff_opcode_sim m'(1) d]
  show ?case
  proof (cases "\<exists>c st1. again \<and> rc = Inr c \<and> apply_opcode old_data target c st = Inr st1")
    case True
    then obtain c st1 where st: "again" "rc = Inr c" "apply_opcode old_data target c st = Inr st1" by blast
    have eq: "apply_diff_loop old_data target (Suc seen) st1 f2 = (r, f')"
      using "1.prems"(1) m d st by (subst (asm) apply_diff_loop.simps) simp
    show ?thesis using "1.IH" [OF m [symmetric] _ d [symmetric] _ _ eq d'(1)] st m'(1-3) d'(1-3) by auto
  next
    case False
    then show ?thesis using "1.prems"(1) m d m'(1-3) d'(1-3)
      by (subst (asm) apply_diff_loop.simps) (auto split: if_splits sum.splits)
  qed
qed

lemma apply_diff_loop_sound:
  assumes "apply_diff_loop old_data target seen st f = (Inr (seen', st'), f')" and "reading f" and "\<not> io_error f'"
  shows "\<exists>n. opcodes_read old_data target f f' n st st' \<and> seen' = seen + n"
  using assms
proof (induction old_data target seen st f rule: apply_diff_loop.induct)
  case (1 old_data target seen st f)
  obtain again f1 where m: "run_state (at_diff_opcode file_source) f = (again, f1)" by fastforce
  obtain rc f2 where d: "run_state (read_diff_opcode file_source) f1 = (rc, f2)" by fastforce
  note m' = simulatesD [OF fio.at_diff_opcode_sim "1.prems"(2) m]
  note d' = simulatesD [OF fio.read_diff_opcode_sim m'(1) d]
  have same: "\<not> io_error f1 \<Longrightarrow> remaining f1 = remaining f" using m'(4) by (simp add: at_diff_opcode_list)
  show ?case
  proof (cases again)
    case False
    then have "seen' = seen" "st' = st" "f' = f1" using "1.prems"(1) m by (simp_all add: apply_diff_loop.simps)
    then show ?thesis using opcodes_read_none [of f1 f] same "1.prems"(3) by (intro exI [of _ 0]) simp
  next
    case True
    obtain c st1 where st: "rc = Inr c" "apply_opcode old_data target c st = Inr st1"
        "apply_diff_loop old_data target (Suc seen) st1 f2 = (Inr (seen', st'), f')"
      using "1.prems"(1) m d True by (subst (asm) apply_diff_loop.simps) (auto split: sum.splits)
    have clean: "\<not> io_error f2" "\<not> io_error f1"
      using apply_diff_loop_handle [OF st(3) d'(1)] "1.prems"(3) d'(2) by auto
    have "remaining f = encode_opcode c @ remaining f2" "valid_opcode c"
      using read_diff_opcode_decode [of "remaining f1" c "remaining f2"] d'(4) clean st(1) same by simp_all
    moreover obtain n where "opcodes_read old_data target f2 f' n st1 st'" "seen' = Suc seen + n"
      using "1.IH" [OF m [symmetric] _ d [symmetric] st(1,2,3) d'(1) "1.prems"(3)] True by blast
    ultimately show ?thesis using opcodes_read_step [OF _ _ st(2)] by (intro exI [of _ "Suc n"]) simp
  qed
qed

text \<open>On a healthy device a run of opcodes that apply is applied to its end.\<close>

definition no_opcode_next :: "bytes \<Rightarrow> bool" where
  "no_opcode_next bs \<longleftrightarrow> \<not> is_diff_opcode (case bs of [] \<Rightarrow> None | b # _ \<Rightarrow> Some b)"

lemma apply_diff_loop_complete:
  assumes "healthy f" and "remaining f = encode_opcodes cs @ r" and "\<forall>c \<in> set cs. valid_opcode c"
    and "apply_opcodes old_data target cs st = Inr st'" and "no_opcode_next r"
  shows "\<exists>f'. apply_diff_loop old_data target seen st f = (Inr (seen + length cs, st'), f') \<and> healthy f' \<and> remaining f' = r"
  using assms
proof (induction cs arbitrary: seen st f)
  case Nil
  obtain again f1 where m: "run_state (at_diff_opcode file_source) f = (again, f1)" by fastforce
  from fio.calm_run [OF fio.at_diff_opcode_sim Nil.prems(1) m] Nil.prems m show ?case
    by (auto simp: at_diff_opcode_list encode_opcodes_def no_opcode_next_def apply_diff_loop.simps)
next
  case (Cons c cs)
  obtain again f1 where m: "run_state (at_diff_opcode file_source) f = (again, f1)" by fastforce
  obtain rc f2 where d: "run_state (read_diff_opcode file_source) f1 = (rc, f2)" by fastforce
  note m' = fio.calm_run [OF fio.at_diff_opcode_sim Cons.prems(1) m]
  note d' = fio.calm_run [OF fio.read_diff_opcode_sim m'(1) d]
  have rem: "remaining f = encode_opcode c @ encode_opcodes cs @ r"
    using Cons.prems(2) by (simp add: encode_opcodes_def)
  have "valid_opcode c" using Cons.prems(3) by simp
  then have again: again and f1: "remaining f1 = remaining f"
    using m'(2) rem by (auto simp: at_diff_opcode_list encode_opcode_def valid_opcode_def)
  have rc: "rc = Inr c" "remaining f2 = encode_opcodes cs @ r"
    using d'(2) read_diff_opcode_encode [OF \<open>valid_opcode c\<close>] f1 rem by auto
  obtain st1 where st1: "apply_opcode old_data target c st = Inr st1" "apply_opcodes old_data target cs st1 = Inr st'"
    using Cons.prems(4) by (auto split: sum.splits)
  have "\<forall>c \<in> set cs. valid_opcode c" using Cons.prems(3) by simp
  from Cons.IH [OF d'(1) rc(2) this st1(2) Cons.prems(5), of "Suc seen"] show ?case
    using again rc st1 m d by (simp add: apply_diff_loop.simps [of _ _ _ _ f])
qed


lemma applyDiff_sound:
  assumes "applyDiff old_data target f = (r, f')" and "reading f"
  shows "reading f' \<and> (io_error f \<longrightarrow> io_error f') \<and> (healthy f \<longrightarrow> healthy f')"
    and "r = Inr p \<Longrightarrow> length p = target"
    and "\<not> io_error f' \<Longrightarrow> r = Inr p \<Longrightarrow> \<exists>cs st. remaining f = encode_opcodes cs @ remaining f' \<and> cs \<noteq> [] \<and>
      (\<forall>c \<in> set cs. valid_opcode c) \<and> apply_opcodes old_data target cs diff_start = Inr st \<and>
      diff_tail old_data target st = Inr p"
proof -
  obtain x f1 where l: "apply_diff_loop old_data target 0 diff_start f = (x, f1)" by fastforce
  have f': "f' = f1" using assms(1) l by (auto simp: applyDiff_def split: sum.splits)
  then show "reading f' \<and> (io_error f \<longrightarrow> io_error f') \<and> (healthy f \<longrightarrow> healthy f')"
    using apply_diff_loop_handle [OF l assms(2)] by simp
  show "r = Inr p \<Longrightarrow> length p = target"
    using assms(1) l by (auto simp: applyDiff_def split: sum.splits prod.splits if_splits)
  assume clean: "\<not> io_error f'" and r: "r = Inr p"
  obtain seen st where x: "x = Inr (seen, st)" "seen \<noteq> 0" "diff_tail old_data target st = Inr p"
    using assms(1) l r by (auto simp: applyDiff_def finish_diff_def split: sum.splits prod.splits if_splits)
  obtain n where "opcodes_read old_data target f f1 n diff_start st" "seen = n"
    using apply_diff_loop_sound [OF l [unfolded x(1)] assms(2)] clean f' by auto
  then show "\<exists>cs st. remaining f = encode_opcodes cs @ remaining f' \<and> cs \<noteq> [] \<and>
      (\<forall>c \<in> set cs. valid_opcode c) \<and> apply_opcodes old_data target cs diff_start = Inr st \<and>
      diff_tail old_data target st = Inr p"
    using x(2,3) f' by (auto simp: opcodes_read_def)
qed

lemma applyDiff_complete:
  assumes "healthy f" and "remaining f = encode_opcodes cs @ r" and "\<forall>c \<in> set cs. valid_opcode c" and "cs \<noteq> []"
    and "apply_opcodes old_data target cs diff_start = Inr st" and "diff_tail old_data target st = Inr p"
    and "no_opcode_next r"
  shows "\<exists>f'. applyDiff old_data target f = (Inr p, f') \<and> healthy f' \<and> remaining f' = r"
proof -
  obtain f' where f': "apply_diff_loop old_data target 0 diff_start f = (Inr (length cs, st), f')" "healthy f'" "remaining f' = r"
    using apply_diff_loop_complete [OF assms(1-3,5,7), of 0] by auto
  have "length p = target"
    using diff_tail_length [OF assms(6) apply_opcodes_inv [OF assms(5) diff_inv_start]] .
  then show ?thesis using f' assms(4,6) by (simp add: applyDiff_def finish_diff_def)
qed

section \<open>What an entry stands for\<close>

text \<open>The specification of the format: the bytes an entry denotes, given the digest function \<open>D\<close>, the
  bytes of the old file and its signed chunks.\<close>

inductive entry_output :: "(bytes \<Rightarrow> bytes) \<Rightarrow> bytes \<Rightarrow> SignedChunk list \<Rightarrow> delta_entry \<Rightarrow> bytes \<Rightarrow> bool"
  for D old cs where
  Original: "unat i < length cs \<Longrightarrow> sc_hash (cs ! unat i) = d \<Longrightarrow>
    entry_output D old cs (OriginalE i d) (chunk_bytes old (cs ! unat i))"
| Added: "length p \<le> DELTA_MAX_CHUNK_SIZE \<Longrightarrow> take DELTA_DIGEST_BYTES (D p) = d \<Longrightarrow>
    entry_output D old cs (AddedE d p) p"
| Modified: "unat i < length cs \<Longrightarrow> unat n \<le> DELTA_MAX_CHUNK_SIZE \<Longrightarrow> ops \<noteq> [] \<Longrightarrow> \<forall>c \<in> set ops. valid_opcode c \<Longrightarrow>
    apply_opcodes (chunk_bytes old (cs ! unat i)) (unat n) ops diff_start = Inr st \<Longrightarrow>
    diff_tail (chunk_bytes old (cs ! unat i)) (unat n) st = Inr p \<Longrightarrow> take DELTA_DIGEST_BYTES (D p) = d \<Longrightarrow>
    entry_output D old cs (ModifiedE i n d (encode_opcodes ops)) p"

inductive_cases entry_outputE: "entry_output D old cs e p"

text \<open>How entries lie on the wire: the header of the first parses, its body follows, and after the last
  one come the tag and the trailer.\<close>

inductive stream_wire :: "bytes \<Rightarrow> delta_entry list \<Rightarrow> bytes \<Rightarrow> bool" where
  End: "stream_wire (DELTA_TRAILER_TAG # trailer) [] trailer"
| Entry: "b \<noteq> DELTA_TRAILER_TAG \<Longrightarrow>
    run_state (read_entry_header list_source) (b # bs) = (Inr (entry_header e), entry_body e @ r) \<Longrightarrow>
    stream_wire r es trailer \<Longrightarrow> stream_wire (b # bs) (e # es) trailer"

inductive_cases stream_wire_endE: "stream_wire bs [] trailer"

inductive_cases stream_wire_entryE: "stream_wire bs (e # es) trailer"


section \<open>What is produced is what the entries stand for\<close>

text \<open>The state between two entries: the inputs can still be read or hold an error, the hash object has
  been fed what was written, and the count is its length.\<close>

definition apply_inv :: "('u \<Rightarrow> bytes option) \<Rightarrow> bytes \<Rightarrow> 'u apply_state \<Rightarrow> bool" where
  "apply_inv msg old s \<longleftrightarrow> reading (ap_old s) \<and> st_data (strm (ap_old s)) = old \<and> reading (ap_delta s) \<and>
     writing (ap_out s) \<and> msg (ap_whole s) = Some (written (ap_out s)) \<and>
     as_bytes_written (ap_stats s) = length (written (ap_out s))"

lemma read_chunk_at_far:
  "STREAMOFF_MAX < p \<Longrightarrow> read_chunk_at n p f = (bs, f') \<Longrightarrow> reading f \<Longrightarrow>
     reading f' \<and> io_error f' \<and> st_data (strm f') = st_data (strm f)"
  by (auto simp: read_chunk_at_def Let_def reading_def discard_read_buffer_def is_open_def split: if_splits)

lemma read_old_chunk_sound:
  assumes "read_old_chunk msg c s = (r, s')" and "reading (ap_old s)"
  shows "reading (ap_old s')" and "st_data (strm (ap_old s')) = st_data (strm (ap_old s))"
    and "s' = s\<lparr>ap_old := ap_old s'\<rparr>"
    and "r = Inr bs \<Longrightarrow> bs = chunk_bytes (st_data (strm (ap_old s))) c \<and> length bs = chunk_size c"
proof -
  obtain d f where rd: "read_chunk_at (chunk_size c) (start_offset c) (ap_old s) = (d, f)" by fastforce
  have s': "s' = s\<lparr>ap_old := f\<rparr>" and r: "r = Inr bs \<Longrightarrow> bs = d \<and> \<not> io_error f \<and> length d = chunk_size c"
    using assms(1) rd by (auto simp: read_old_chunk_def has_error_def split: if_splits)
  have "reading f \<and> st_data (strm f) = st_data (strm (ap_old s)) \<and>
      (\<not> io_error f \<longrightarrow> d = chunk_bytes (st_data (strm (ap_old s))) c)"
  proof (cases "start_offset c \<le> STREAMOFF_MAX")
    case True
    from read_chunk_at_delivers [OF rd assms(2) this] show ?thesis
      by (auto simp: delivers_def chunk_bytes_def)
  next
    case False
    then show ?thesis using read_chunk_at_far [OF _ rd assms(2)] by simp
  qed
  then show "reading (ap_old s')" and "st_data (strm (ap_old s')) = st_data (strm (ap_old s))"
    and "s' = s\<lparr>ap_old := ap_old s'\<rparr>"
    and "r = Inr bs \<Longrightarrow> bs = chunk_bytes (st_data (strm (ap_old s))) c \<and> length bs = chunk_size c"
    using s' r by auto
qed

lemma resize_take: "n \<le> length bs \<Longrightarrow> resize_bytes n bs = take n bs"
  by (simp add: resize_bytes_def)

lemma require_digest_sound:
  assumes "require_digest U msg ex p s = (r, s')" and "strong_hash_sound U D m" and "DELTA_DIGEST_BYTES \<le> sh_size U"
  shows "s' = s\<lparr>ap_hash := ap_hash s'\<rparr>" and "r = Inr q \<Longrightarrow> q = p \<and> take DELTA_DIGEST_BYTES (D p) = ex"
proof -
  have "resize_bytes DELTA_DIGEST_BYTES c = take DELTA_DIGEST_BYTES (D p)"
    if "sh_hash U (digest_buffer U) p h = Inr (c, h')" for c h h'
    using strong_hash_soundD(5) [OF assms(2) that] strong_hash_soundD(1) [OF assms(2), of p] assms(3)
    by (simp add: resize_take)
  then show "s' = s\<lparr>ap_hash := ap_hash s'\<rparr>" and "r = Inr q \<Longrightarrow> q = p \<and> take DELTA_DIGEST_BYTES (D p) = ex"
    using assms(1) by (auto simp: require_digest_def verifyDigest_def bind_sum_def split: sum.splits prod.splits if_splits)
qed

text \<open>What one entry of a delta promises: the state stays consistent, and a result that was read without an
  error of the device is the output of an entry with this header.\<close>

definition header_ok :: "DeltaEntryHeader \<Rightarrow> bool" where
  "header_ok h \<longleftrightarrow> unat (out_size h) \<le> DELTA_MAX_CHUNK_SIZE \<and> (type h = ORIGINAL_CHUNK \<longrightarrow> out_size h = 0) \<and>
     (type h = ADDED_CHUNK \<longrightarrow> old_index h = 0)"

definition entry_read ::
  "(bytes \<Rightarrow> bytes) \<Rightarrow> bytes \<Rightarrow> SignedChunk list \<Rightarrow> DeltaEntryHeader \<Rightarrow> fileio \<Rightarrow> fileio \<Rightarrow> bytes \<Rightarrow> bool" where
  "entry_read D old cs h d d' p \<longleftrightarrow>
     (\<exists>e. entry_header e = h \<and> remaining d = entry_body e @ remaining d' \<and> entry_output D old cs e p)"

definition produces ::
  "('u \<Rightarrow> bytes option) \<Rightarrow> (bytes \<Rightarrow> bytes) \<Rightarrow> bytes \<Rightarrow> SignedChunk list \<Rightarrow> DeltaEntryHeader \<Rightarrow> 'u apply_state \<Rightarrow>
   failure + bytes \<Rightarrow> 'u apply_state \<Rightarrow> bool" where
  "produces msg D old cs h s r s' \<longleftrightarrow>
     apply_inv msg old s' \<and> (io_error (ap_delta s) \<longrightarrow> io_error (ap_delta s')) \<and>
     (\<forall>p. r = Inr p \<longrightarrow> \<not> io_error (ap_delta s') \<longrightarrow> header_ok h \<longrightarrow>
          entry_read D old cs h (ap_delta s) (ap_delta s') p)"

lemma produces_failure:
  "apply_inv msg old s' \<Longrightarrow> (io_error (ap_delta s) \<Longrightarrow> io_error (ap_delta s')) \<Longrightarrow> produces msg D old cs h s (Inl e) s'"
  by (simp add: produces_def)

lemma apply_inv_handles:
  assumes "apply_inv msg old s"
  shows "reading (ap_old s)" and "reading (ap_delta s)" and "st_data (strm (ap_old s)) = old"
  using assms by (simp_all add: apply_inv_def)

lemma read_old_chunk_inv:
  assumes "read_old_chunk what c s = (r, s')" and "apply_inv msg old s"
  shows "apply_inv msg old s'" and "ap_delta s' = ap_delta s"
proof -
  note rs = read_old_chunk_sound [OF assms(1) apply_inv_handles(1) [OF assms(2)]]
  show "apply_inv msg old s'" using assms(2) rs(1,2) by (subst rs(3)) (simp add: apply_inv_def)
  show "ap_delta s' = ap_delta s" by (subst rs(3)) simp
qed

lemma require_digest_inv:
  assumes "require_digest U what dg q s = (r, s')" and "apply_inv msg old s"
    and "strong_hash_sound U D msg" and "DELTA_DIGEST_BYTES \<le> sh_size U"
  shows "apply_inv msg old s'" and "ap_delta s' = ap_delta s" and "r = Inr p \<Longrightarrow> p = q \<and> take DELTA_DIGEST_BYTES (D q) = dg"
proof -
  note rs = require_digest_sound [OF assms(1,3,4)]
  show "apply_inv msg old s'" using assms(2) by (subst rs(1)) (simp add: apply_inv_def)
  show "ap_delta s' = ap_delta s" by (subst rs(1)) simp
  show "r = Inr p \<Longrightarrow> p = q \<and> take DELTA_DIGEST_BYTES (D q) = dg" using rs(2) by simp
qed

lemma produce_original_sound:
  assumes "produce_original (cs ! unat (old_index h)) h s = (r, s')" and "apply_inv msg old s"
    and "type h = ORIGINAL_CHUNK" and "unat (old_index h) < length cs"
  shows "produces msg D old cs h s r s'"
proof (cases "sc_hash (cs ! unat (old_index h)) = digest h")
  case False
  then show ?thesis using assms(1,2) by (auto simp: produce_original_def produces_def)
next
  case True
  then have rd: "read_old_chunk ''Failed to read old chunk'' (cs ! unat (old_index h)) s = (r, s')"
    using assms(1) by (simp add: produce_original_def)
  note inv = apply_inv_handles [OF assms(2)]
  note ki = read_old_chunk_inv [OF rd assms(2)] and out = read_old_chunk_sound(4) [OF rd inv(1)]
  have "entry_read D old cs h (ap_delta s) (ap_delta s') p" if "r = Inr p" "header_ok h" for p
    unfolding entry_read_def
  proof (intro exI conjI)
    show "entry_header (OriginalE (old_index h) (digest h)) = h"
      using assms(3) that(2) by (cases h) (simp add: header_ok_def)
    show "entry_output D old cs (OriginalE (old_index h) (digest h)) p"
      using out [OF that(1)] inv(3) Original [OF assms(4) True, of D old] by simp
  qed (simp add: ki)
  then show ?thesis using ki by (simp add: produces_def)
qed

lemma produce_added_sound:
  assumes "produce_added U h s = (r, s')" and "apply_inv msg old s" and "type h = ADDED_CHUNK"
    and "strong_hash_sound U D msg" and "DELTA_DIGEST_BYTES \<le> sh_size U"
  shows "produces msg D old cs h s r s'"
proof -
  obtain x f where rd: "run_state (read_payload file_source (unat (out_size h))) (ap_delta s) = (x, f)" by fastforce
  note rs = simulatesD [OF fio.read_payload_sim apply_inv_handles(2) [OF assms(2)] rd]
  have i1: "apply_inv msg old (s\<lparr>ap_delta := f\<rparr>)" using assms(2) rs(1) by (simp add: apply_inv_def)
  show ?thesis
  proof (cases x)
    case (Inl m)
    then show ?thesis using assms(1) rd rs(2) i1 by (auto simp: produce_added_def intro!: produces_failure)
  next
    case (Inr q)
    then have rq: "require_digest U ''ADDED entry hash mismatch'' (digest h) q (s\<lparr>ap_delta := f\<rparr>) = (r, s')"
      using assms(1) rd by (simp add: produce_added_def)
    note ki = require_digest_inv [OF rq i1 assms(4,5)]
    have "entry_read D old cs h (ap_delta s) (ap_delta s') p"
      if r: "r = Inr p" and clean: "\<not> io_error (ap_delta s')" and ok: "header_ok h" for p
    proof -
      have "run_state (read_payload list_source (unat (out_size h))) (remaining (ap_delta s)) = (Inr q, remaining f)"
        using rs(4) clean ki(2) Inr by simp
      then have q: "length q = unat (out_size h)" "remaining (ap_delta s) = q @ remaining f"
        by (auto simp: read_payload_list split: if_splits) (metis append_take_drop_id)
      have "entry_header (AddedE (digest h) q) = h"
        using assms(3) ok q(1) by (cases h) (simp add: header_ok_def word_unat_eq_iff)
      moreover have "entry_output D old cs (AddedE (digest h) q) q"
        using ki(3) [OF r] ok q(1) by (intro Added) (simp_all add: header_ok_def)
      ultimately show ?thesis using ki(2) ki(3) [OF r] q(2) unfolding entry_read_def
        by (intro exI [of _ "AddedE (digest h) q"]) simp
    qed
    then show ?thesis using ki rs(2) by (simp add: produces_def)
  qed
qed

lemma produce_modified_sound:
  assumes "produce_modified U (cs ! unat (old_index h)) h s = (r, s')" and "apply_inv msg old s"
    and "type h = MODIFIED_CHUNK" and "unat (old_index h) < length cs"
    and "strong_hash_sound U D msg" and "DELTA_DIGEST_BYTES \<le> sh_size U"
  shows "produces msg D old cs h s r s'"
proof -
  let ?c = "cs ! unat (old_index h)"
  obtain y s1 where rd: "read_old_chunk ''Failed to read MODIFIED source chunk'' ?c s = (y, s1)" by fastforce
  note inv = apply_inv_handles [OF assms(2)] and k1 = read_old_chunk_inv [OF rd assms(2)]
  show ?thesis
  proof (cases y)
    case (Inl e)
    then show ?thesis using assms(1) rd k1 by (auto simp: produce_modified_def intro!: produces_failure)
  next
    case (Inr od)
    note od = read_old_chunk_sound(4) [OF rd inv(1) Inr]
    obtain x f where ad: "applyDiff od (unat (out_size h)) (ap_delta s1) = (x, f)" by fastforce
    note as = applyDiff_sound [OF ad apply_inv_handles(2) [OF k1(1)]]
    have i2: "apply_inv msg old (s1\<lparr>ap_delta := f\<rparr>)" using k1(1) as(1) by (simp add: apply_inv_def)
    show ?thesis
    proof (cases x)
      case (Inl m)
      then show ?thesis using assms(1) rd \<open>y = Inr od\<close> ad as(1) i2 k1(2)
        by (auto simp: produce_modified_def intro!: produces_failure)
    next
      case q: (Inr q)
      then have rq: "require_digest U ''MODIFIED entry hash mismatch'' (digest h) q (s1\<lparr>ap_delta := f\<rparr>) = (r, s')"
        using assms(1) rd \<open>y = Inr od\<close> ad by (simp add: produce_modified_def)
      note ki = require_digest_inv [OF rq i2 assms(5,6)]
      have "entry_read D old cs h (ap_delta s) (ap_delta s') p"
        if r: "r = Inr p" and clean: "\<not> io_error (ap_delta s')" and ok: "header_ok h" for p
      proof -
        obtain ops st where ops: "remaining (ap_delta s) = encode_opcodes ops @ remaining f" "ops \<noteq> []"
            "\<forall>c \<in> set ops. valid_opcode c" "apply_opcodes od (unat (out_size h)) ops diff_start = Inr st"
            "diff_tail od (unat (out_size h)) st = Inr q"
          using as(3) [OF _ q] clean ki(2) k1(2) by auto
        let ?e = "ModifiedE (old_index h) (out_size h) (digest h) (encode_opcodes ops)"
        have "entry_header ?e = h" using assms(3) by (cases h) simp
        moreover have "entry_output D old cs ?e q"
          using ops assms(4) ok ki(3) [OF r] od inv(3) by (intro Modified) (simp_all add: header_ok_def)
        ultimately show ?thesis using ki(2) ki(3) [OF r] ops(1) unfolding entry_read_def by (intro exI [of _ ?e]) simp
      qed
      then show ?thesis using ki as(1) k1(2) by (simp add: produces_def)
    qed
  qed
qed

lemma produce_sound:
  assumes "produce U cs h s = (r, s')" and "apply_inv msg old s"
    and "strong_hash_sound U D msg" and "DELTA_DIGEST_BYTES \<le> sh_size U"
  shows "produces msg D old cs h s r s'"
proof (cases "references_old h \<and> unat (old_index h) \<ge> length cs")
  case True
  then show ?thesis using assms(1,2) by (auto simp: produce_def produces_def)
next
  case idx: False
  then show ?thesis
    using assms produce_original_sound [of cs h s r s' msg old D] produce_added_sound [of U h s r s' msg old D cs]
      produce_modified_sound [of U cs h s r s' msg old D]
    by (cases "type h") (auto simp: produce_def references_old_def Let_def)
qed


lemma deliver_sound:
  assumes "deliver U m p s = (r, s')" and "apply_inv msg old s" and "strong_hash_sound U D msg"
  shows "r = Inr u \<Longrightarrow> apply_inv msg old s' \<and> written (ap_out s') = written (ap_out s) @ p \<and>
      as_entries_processed (ap_stats s') = Suc (as_entries_processed (ap_stats s))"
    and "r = Inr u \<Longrightarrow> length (written (ap_out s)) \<le> unat m \<Longrightarrow> length (written (ap_out s')) \<le> unat m"
    and "writing (ap_out s')"
proof -
  obtain ok f where w: "write_chunk p (ap_out s) = (ok, f)" by fastforce
  have wr: "writing (ap_out s)" and n: "as_bytes_written (ap_stats s) = length (written (ap_out s))"
    and m: "msg (ap_whole s) = Some (written (ap_out s))" using assms(2) by (simp_all add: apply_inv_def)
  note wa = write_chunk_appends [OF w wr]
  show "writing (ap_out s')" using assms(1) w wa(1) wr by (auto simp: deliver_def split: if_splits bool.splits sum.splits)
  assume r: "r = Inr u"
  then obtain h where lim: "length p \<le> size_sub (unat m) (length (written (ap_out s)))" and ok
    and up: "sh_update U p (ap_whole s) = Inr h"
    and s': "s' = s\<lparr>ap_out := f, ap_whole := h,
        ap_stats := \<lparr>as_entries_processed = Suc (as_entries_processed (ap_stats s)),
                     as_bytes_written = as_bytes_written (ap_stats s) + length p\<rparr>\<rparr>"
    using assms(1) w n by (auto simp: deliver_def split: if_splits bool.splits sum.splits)
  have "written f = written (ap_out s) @ p" using wa(4) \<open>ok\<close> by blast
  moreover have "msg h = Some (written (ap_out s) @ p)" by (rule strong_hash_soundD(3) [OF assms(3) m up])
  ultimately show "apply_inv msg old s' \<and> written (ap_out s') = written (ap_out s) @ p \<and>
      as_entries_processed (ap_stats s') = Suc (as_entries_processed (ap_stats s))"
    and "length (written (ap_out s)) \<le> unat m \<Longrightarrow> length (written (ap_out s')) \<le> unat m"
    using assms(2) wa(1) n lim by (auto simp: s' apply_inv_def)
qed

text \<open>An entry that was applied: it was in the stream, its output was written, and it was counted.\<close>

definition entry_applied ::
  "(bytes \<Rightarrow> bytes) \<Rightarrow> bytes \<Rightarrow> SignedChunk list \<Rightarrow> 'u apply_state \<Rightarrow> 'u apply_state \<Rightarrow> bool" where
  "entry_applied D old cs s s' \<longleftrightarrow>
     (\<exists>e p. run_state (read_entry_header list_source) (remaining (ap_delta s)) =
              (Inr (entry_header e), entry_body e @ remaining (ap_delta s')) \<and>
            entry_output D old cs e p \<and> written (ap_out s') = written (ap_out s) @ p)"

definition counted :: "u64 \<Rightarrow> nat \<Rightarrow> 'u apply_state \<Rightarrow> 'u apply_state \<Rightarrow> bool" where
  "counted m n s s' \<longleftrightarrow>
     as_entries_processed (ap_stats s') = as_entries_processed (ap_stats s) + n \<and>
     (length (written (ap_out s)) \<le> unat m \<longrightarrow> length (written (ap_out s')) \<le> unat m)"

lemma apply_entry_keeps:
  assumes "apply_entry U cs m s = (r, s')" and "apply_inv msg old s"
    and "strong_hash_sound U D msg" and "DELTA_DIGEST_BYTES \<le> sh_size U"
  shows "writing (ap_out s')" and "io_error (ap_delta s) \<Longrightarrow> io_error (ap_delta s')"
proof -
  have w: "writing (ap_out s)" using assms(2) by (simp add: apply_inv_def)
  obtain x f where h: "run_state (read_entry_header file_source) (ap_delta s) = (x, f)" by fastforce
  note rs = simulatesD [OF fio.read_entry_header_sim apply_inv_handles(2) [OF assms(2)] h]
  have i1: "apply_inv msg old (s\<lparr>ap_delta := f\<rparr>)" using assms(2) rs(1) by (simp add: apply_inv_def)
  have "writing (ap_out s') \<and> (io_error (ap_delta s) \<longrightarrow> io_error (ap_delta s'))"
  proof (cases x)
    case (Inl e)
    then show ?thesis using assms(1) h rs(2) w by (auto simp: apply_entry_def)
  next
    case (Inr hdr)
    obtain y s1 where p: "produce U cs hdr (s\<lparr>ap_delta := f\<rparr>) = (y, s1)" by fastforce
    have ps: "writing (ap_out s1)" "apply_inv msg old s1" "io_error (ap_delta s) \<longrightarrow> io_error (ap_delta s1)"
      using produce_sound [OF p i1 assms(3,4)] produce_keeps(2) [OF p] rs(2) w by (auto simp: produces_def)
    show ?thesis
    proof (cases y)
      case (Inl e)
      then show ?thesis using assms(1) h Inr p ps by (simp add: apply_entry_def)
    next
      case y: (Inr q)
      then have d: "deliver U m q s1 = (r, s')" using assms(1) h Inr p by (simp add: apply_entry_def)
      then show ?thesis using deliver_delta [OF d] deliver_sound(3) [OF d ps(2) assms(3)] ps(3) by simp
    qed
  qed
  then show "writing (ap_out s')" and "io_error (ap_delta s) \<Longrightarrow> io_error (ap_delta s')" by blast+
qed

lemma apply_entry_sound:
  assumes "apply_entry U cs m s = (Inr u, s')" and "apply_inv msg old s"
    and "strong_hash_sound U D msg" and "DELTA_DIGEST_BYTES \<le> sh_size U"
  shows "apply_inv msg old s'" and "counted m 1 s s'" and "\<not> io_error (ap_delta s') \<Longrightarrow> entry_applied D old cs s s'"
proof -
  obtain x f where h: "run_state (read_entry_header file_source) (ap_delta s) = (x, f)" by fastforce
  note rs = simulatesD [OF fio.read_entry_header_sim apply_inv_handles(2) [OF assms(2)] h]
  have i1: "apply_inv msg old (s\<lparr>ap_delta := f\<rparr>)" using assms(2) rs(1) by (simp add: apply_inv_def)
  obtain hdr where x: "x = Inr hdr" using assms(1) h by (cases x) (simp_all add: apply_entry_def)
  obtain y s1 where p: "produce U cs hdr (s\<lparr>ap_delta := f\<rparr>) = (y, s1)" by fastforce
  obtain q where y: "y = Inr q" and d: "deliver U m q s1 = (Inr u, s')"
    using assms(1) h x p by (cases y) (simp_all add: apply_entry_def)
  note ps = produce_sound [OF p i1 assms(3,4), unfolded produces_def y] and pk = produce_keeps(2-4) [OF p]
  note dk = deliver_delta [OF d] and ds = deliver_sound [OF d conjunct1 [OF ps] assms(3)]
  show "apply_inv msg old s'" and "counted m 1 s s'" using ds(1,2) pk by (simp_all add: counted_def)
  assume "\<not> io_error (ap_delta s')"
  then have c1: "\<not> io_error (ap_delta s1)" using dk by simp
  then have "run_state (read_entry_header list_source) (remaining (ap_delta s)) = (Inr hdr, remaining f)"
    using rs(4) ps x by auto
  moreover have "header_ok hdr" using read_entry_header_bounds [OF h [unfolded x]] by (simp add: header_ok_def)
  ultimately show "entry_applied D old cs s s'"
    using ps c1 dk ds(1) pk by (auto simp: entry_applied_def entry_read_def)
qed

lemma next_item_list_cases:
  "run_state (next_item list_source) bs = (case bs of [] \<Rightarrow> End
     | b # _ \<Rightarrow> if b = DELTA_TRAILER_TAG then Trailer else Entry, bs)"
  by (cases bs) (simp_all add: next_item_def)

lemma item_entry:
  "(case bs of [] \<Rightarrow> End | b # _ \<Rightarrow> if b = DELTA_TRAILER_TAG then Trailer else Entry) = Entry \<Longrightarrow>
     \<exists>b r. bs = b # r \<and> b \<noteq> DELTA_TRAILER_TAG"
  by (cases bs) (auto split: if_splits)

lemma apply_trailer_keeps:
  "apply_trailer U s = (r, s') \<Longrightarrow> ap_out s' = ap_out s \<and> ap_stats s' = ap_stats s \<and> ap_old s' = ap_old s"
  by (auto simp: apply_trailer_def split: prod.splits sum.splits)

lemma apply_trailer_sound:
  assumes "apply_trailer U s = (Inr u, s')" and "apply_inv msg old s" and "strong_hash_sound U D msg"
  shows "\<exists>b. remaining (ap_delta s) = b # D (written (ap_out s)) \<and> b = DELTA_TRAILER_TAG"
    and "\<not> io_error (ap_delta s')"
proof -
  have inv: "reading (ap_delta s)" "msg (ap_whole s) = Some (written (ap_out s))"
    using assms(2) by (simp_all add: apply_inv_def)
  obtain x f where t: "run_state (read_trailer file_source (sh_size U)) (ap_delta s) = (x, f)" by fastforce
  obtain tr h where x: "x = Inr tr" and fin: "sh_finalize U (digest_buffer U) (ap_whole s) = Inr (tr, h)"
    and df: "ap_delta s' = f"
    using assms(1) t by (auto simp: apply_trailer_def split: sum.splits if_splits)
  have tr: "tr = D (written (ap_out s))" by (rule strong_hash_soundD(4) [OF assms(3) inv(2) fin])
  have clean: "\<not> io_error f" using fio.read_trailer_clean [OF t [unfolded x]] by simp
  then show "\<not> io_error (ap_delta s')" using df by simp
  have rl: "run_state (read_trailer list_source (sh_size U)) (remaining (ap_delta s)) = (Inr tr, remaining f)"
    using simulatesD(4) [OF fio.read_trailer_sim inv(1) t] clean x by simp
  then obtain bs where bs: "remaining (ap_delta s) = DELTA_TRAILER_TAG # bs"
    by (cases "remaining (ap_delta s)") (auto simp: read_trailer_def split: if_splits)
  then have "bs = tr" using rl by (auto simp: read_trailer_list split: if_splits)
  then show "\<exists>b. remaining (ap_delta s) = b # D (written (ap_out s)) \<and> b = DELTA_TRAILER_TAG"
    using bs tr by simp
qed

text \<open>The rest of a stream was applied: its entries stand for what was written, its trailer for the whole.\<close>

definition stream_applied ::
  "(bytes \<Rightarrow> bytes) \<Rightarrow> bytes \<Rightarrow> SignedChunk list \<Rightarrow> u64 \<Rightarrow> 'u apply_state \<Rightarrow> 'u apply_state \<Rightarrow> bool" where
  "stream_applied D old cs m s s' \<longleftrightarrow>
     (\<exists>es ps. stream_wire (remaining (ap_delta s)) es (D (written (ap_out s'))) \<and>
        list_all2 (entry_output D old cs) es ps \<and> written (ap_out s') = written (ap_out s) @ concat ps \<and>
        counted m (length es) s s') \<and>
     \<not> io_error (ap_delta s') \<and> as_bytes_written (ap_stats s') = length (written (ap_out s'))"

lemma stream_applied_peek:
  "stream_applied D old cs m (s\<lparr>ap_delta := f\<rparr>) s' \<Longrightarrow> remaining f = remaining (ap_delta s) \<Longrightarrow> stream_applied D old cs m s s'"
  by (simp add: stream_applied_def counted_def)

lemma stream_applied_trailer:
  assumes "apply_trailer U s = (Inr u, s')" and "apply_inv msg old s" and "strong_hash_sound U D msg"
  shows "stream_applied D old cs m s s'" and "\<not> io_error (ap_delta s)"
proof -
  note ts = apply_trailer_sound [OF assms] and tk = apply_trailer_keeps [OF assms(1)]
  obtain y g where t: "run_state (read_trailer file_source (sh_size U)) (ap_delta s) = (y, g)" by fastforce
  have "g = ap_delta s'" using assms(1) t by (auto simp: apply_trailer_def split: sum.splits prod.splits)
  then show "\<not> io_error (ap_delta s)"
    using simulatesD(2) [OF fio.read_trailer_sim apply_inv_handles(2) [OF assms(2)] t] ts(2) by auto
  have "stream_wire (remaining (ap_delta s)) [] (D (written (ap_out s)))" using ts(1) stream_wire.End by auto
  then show "stream_applied D old cs m s s'"
    using tk ts(2) assms(2) by (auto simp: stream_applied_def counted_def apply_inv_def intro!: exI [of _ "[]"])
qed

lemma stream_applied_entry:
  assumes "entry_applied D old cs s s1" and "counted m 1 s s1" and "stream_applied D old cs m s1 s'"
    and "remaining (ap_delta s) = b # bs" and "b \<noteq> DELTA_TRAILER_TAG"
  shows "stream_applied D old cs m s s'"
proof -
  obtain e p where e: "run_state (read_entry_header list_source) (b # bs) = (Inr (entry_header e), entry_body e @ remaining (ap_delta s1))"
      "entry_output D old cs e p" "written (ap_out s1) = written (ap_out s) @ p"
    using assms(1,4) by (auto simp: entry_applied_def)
  obtain es ps where r: "stream_wire (remaining (ap_delta s1)) es (D (written (ap_out s')))"
      "list_all2 (entry_output D old cs) es ps" "written (ap_out s') = written (ap_out s1) @ concat ps" "counted m (length es) s1 s'"
    using assms(3) by (auto simp: stream_applied_def)
  have "stream_wire (b # bs) (e # es) (D (written (ap_out s')))" by (rule stream_wire.Entry [OF assms(5) e(1) r(1)])
  moreover have "counted m (length (e # es)) s s'" using assms(2) r(4) by (auto simp: counted_def)
  moreover have "list_all2 (entry_output D old cs) (e # es) (p # ps)" using e(2) r(2) by simp
  moreover have "written (ap_out s') = written (ap_out s) @ concat (p # ps)" using e(3) r(3) by simp
  ultimately show ?thesis using assms(3,4) unfolding stream_applied_def by metis
qed

lemma apply_loop_sound:
  assumes "apply_loop U cs m s = (r, s')" and "apply_inv msg old s"
    and "strong_hash_sound U D msg" and "DELTA_DIGEST_BYTES \<le> sh_size U"
  shows "writing (ap_out s') \<and> (r = Inr True \<longrightarrow> stream_applied D old cs m s s' \<and> \<not> io_error (ap_delta s))"
  using assms
proof (induction U cs m s rule: apply_loop.induct)
  case (1 U cs m s)
  obtain item f where n: "run_state (next_item file_source) (ap_delta s) = (item, f)" by fastforce
  note rs = simulatesD [OF fio.next_item_sim apply_inv_handles(2) [OF "1.prems"(2)] n]
  let ?s1 = "s\<lparr>ap_delta := f\<rparr>"
  have i1: "apply_inv msg old ?s1" and w: "writing (ap_out s)" using "1.prems"(2) rs(1) by (simp_all add: apply_inv_def)
  have peek: "\<not> io_error f \<Longrightarrow> remaining f = remaining (ap_delta s) \<and>
      item = (case remaining f of [] \<Rightarrow> End | b # _ \<Rightarrow> if b = DELTA_TRAILER_TAG then Trailer else Entry)"
    using rs(4) by (auto simp: next_item_list_cases)
  show ?case
  proof (cases item)
    case End
    then show ?thesis using "1.prems"(1) n w by (auto simp: apply_loop.simps Let_def)
  next
    case Trailer
    obtain x s2 where t: "apply_trailer U ?s1 = (x, s2)" by fastforce
    note st = stream_applied_trailer [where s = ?s1 and s' = s2, OF _ i1 "1.prems"(3)]
    have "writing (ap_out s2)" using apply_trailer_keeps [OF t] w by simp
    then show ?thesis
      using "1.prems"(1) n Trailer t st peek rs(2) stream_applied_peek [of D old cs m f s]
      by (cases x) (auto simp: apply_loop.simps Let_def)
  next
    case Entry
    obtain x s2 where e: "apply_entry U cs m ?s1 = (x, s2)" by fastforce
    note ek = apply_entry_keeps [OF e i1 "1.prems"(3,4)]
    show ?thesis
    proof (cases x)
      case (Inl y)
      then show ?thesis using "1.prems"(1) n Entry e ek(1) by (auto simp: apply_loop.simps Let_def)
    next
      case (Inr u)
      have l: "apply_loop U cs m s2 = (r, s')"
        using "1.prems"(1) n Entry e Inr by (subst (asm) apply_loop.simps) (simp add: Let_def)
      note es = apply_entry_sound [OF e [unfolded Inr] i1 "1.prems"(3,4)]
      have ih: "writing (ap_out s') \<and> (r = Inr True \<longrightarrow> stream_applied D old cs m s2 s' \<and> \<not> io_error (ap_delta s2))"
        using "1.IH" [OF n [symmetric] refl Entry, of x s2 u, OF _ Inr l es(1) "1.prems"(3,4)] e by simp
      have "stream_applied D old cs m s s' \<and> \<not> io_error (ap_delta s)" if r: "r = Inr True"
      proof -
        have c2: "\<not> io_error (ap_delta s2)" using ih r by blast
        then have cf: "\<not> io_error f" using ek(2) by auto
        obtain b bs where b: "remaining f = b # bs" "b \<noteq> DELTA_TRAILER_TAG"
          using item_entry [OF trans [OF sym [OF conjunct2 [OF peek [OF cf]]] Entry]] by blast
        have "stream_applied D old cs m ?s1 s'"
          using stream_applied_entry [OF es(3) [OF c2] es(2), of s' b bs] ih r b by simp
        then show ?thesis using stream_applied_peek [of D old cs m f s] peek [OF cf] rs(2) cf by auto
      qed
      then show ?thesis using ih by blast
    qed
  qed
qed

section \<open>A well-formed delta is applied\<close>

text \<open>On devices that do not fail, entries that stand for something produce it.\<close>

definition chunks_fit :: "bytes \<Rightarrow> SignedChunk list \<Rightarrow> bool" where
  "chunks_fit old cs \<longleftrightarrow> (\<forall>c \<in> set cs. start_offset c \<le> STREAMOFF_MAX \<and>
     start_offset c + chunk_size c \<le> length old \<and> chunk_size c \<le> DELTA_MAX_CHUNK_SIZE \<and>
     length (sc_hash c) = DELTA_DIGEST_BYTES)"

definition apply_ready ::
  "('u \<Rightarrow> bool) \<Rightarrow> ('u \<Rightarrow> bytes option) \<Rightarrow> bytes \<Rightarrow> 'u apply_state \<Rightarrow> bool" where
  "apply_ready live msg old s \<longleftrightarrow> healthy (ap_old s) \<and> st_data (strm (ap_old s)) = old \<and> healthy (ap_delta s) \<and>
     healthy_out (ap_out s) \<and> live (ap_hash s) \<and> live (ap_whole s) \<and>
     msg (ap_whole s) = Some (written (ap_out s)) \<and> as_bytes_written (ap_stats s) = length (written (ap_out s))"

lemma read_old_chunk_complete:
  assumes "healthy (ap_old s)" and "c \<in> set cs" and "chunks_fit (st_data (strm (ap_old s))) cs"
  shows "\<exists>f. read_old_chunk msg c s = (Inr (chunk_bytes (st_data (strm (ap_old s))) c), s\<lparr>ap_old := f\<rparr>) \<and>
    healthy f \<and> st_data (strm f) = st_data (strm (ap_old s))"
proof -
  have c: "start_offset c \<le> STREAMOFF_MAX" "start_offset c + chunk_size c \<le> length (st_data (strm (ap_old s)))"
    using assms(2,3) by (auto simp: chunks_fit_def)
  obtain d f where rd: "read_chunk_at (chunk_size c) (start_offset c) (ap_old s) = (d, f)" by fastforce
  have rdg: "reading (ap_old s)" using assms(1) by (simp add: healthy_def)
  note rs = read_chunk_at_delivers [OF rd rdg c(1)]
  have h: "healthy f" "st_data (strm f) = st_data (strm (ap_old s))" using rs(1) assms(1) by (auto simp: delivers_def)
  then have "d = chunk_bytes (st_data (strm (ap_old s))) c" "\<not> io_error f"
    using rs(3) by (auto simp: healthy_def chunk_bytes_def)
  then show ?thesis using rd h c(2)
    by (intro exI [of _ f]) (simp add: read_old_chunk_def has_error_def chunk_bytes_def)
qed

lemma require_digest_complete:
  assumes "strong_hash_sound U D m" and "strong_hash_total U m live" and "DELTA_DIGEST_BYTES \<le> sh_size U"
    and "live (ap_hash s)" and "take DELTA_DIGEST_BYTES (D p) = ex"
  shows "\<exists>h. require_digest U msg ex p s = (Inr p, s\<lparr>ap_hash := h\<rparr>) \<and> live h"
proof -
  obtain c h where h: "sh_hash U (digest_buffer U) p (ap_hash s) = Inr (c, h)" "live h"
    using strong_hash_totalD(5) [OF assms(2,4)] by blast
  have "c = D p" by (rule strong_hash_soundD(5) [OF assms(1) h(1)])
  moreover have "length (D p) = sh_size U" by (rule strong_hash_soundD(1) [OF assms(1)])
  ultimately show ?thesis
    using h assms(3,5) by (auto simp: require_digest_def verifyDigest_def resize_take)
qed

lemma produce_complete:
  assumes "entry_output D old cs e p" and "apply_ready live msg old s" and "chunks_fit old cs"
    and "remaining (ap_delta s) = entry_body e @ r" and "no_opcode_next r"
    and "strong_hash_sound U D msg" and "strong_hash_total U msg live" and "DELTA_DIGEST_BYTES \<le> sh_size U"
  shows "\<exists>s'. produce U cs (entry_header e) s = (Inr p, s') \<and> apply_ready live msg old s' \<and>
    remaining (ap_delta s') = r \<and> ap_out s' = ap_out s \<and> ap_stats s' = ap_stats s"
  using assms(1)
proof cases
  case (Original i d)
  have c: "cs ! unat i \<in> set cs" using Original by simp
  obtain f where f: "read_old_chunk ''Failed to read old chunk'' (cs ! unat i) s = (Inr p, s\<lparr>ap_old := f\<rparr>)"
      "healthy f" "st_data (strm f) = old"
    using read_old_chunk_complete [OF _ c, of s] assms(2,3) Original(2) by (auto simp: apply_ready_def)
  then show ?thesis using Original assms(2,4)
    by (auto simp: produce_def references_old_def produce_original_def apply_ready_def)
next
  case (Added d)
  obtain x f where pl: "run_state (read_payload file_source (length p)) (ap_delta s) = (x, f)" by fastforce
  have hd: "healthy (ap_delta s)" using assms(2) by (simp add: apply_ready_def)
  note pc = fio.calm_run [OF fio.read_payload_sim hd pl]
  have x: "x = Inr p" "remaining f = r" using pc(2) assms(4) Added(1) by (auto simp: read_payload_list)
  have "unat (of_nat (length p) :: u64) = length p"
    using Added(2) by (intro unat_u64_of_nat) (simp add: DELTA_MAX_CHUNK_SIZE_def)
  moreover obtain h where "require_digest U ''ADDED entry hash mismatch'' d p (s\<lparr>ap_delta := f\<rparr>) =
      (Inr p, s\<lparr>ap_delta := f, ap_hash := h\<rparr>)" "live h"
    using require_digest_complete [OF assms(6-8), of "s\<lparr>ap_delta := f\<rparr>" p d] assms(2) Added(3)
    by (auto simp: apply_ready_def)
  ultimately show ?thesis using pl x pc(1) Added(1) assms(2)
    by (auto simp: produce_def references_old_def produce_added_def apply_ready_def)
next
  case (Modified i n ops st d)
  have c: "cs ! unat i \<in> set cs" using Modified by simp
  let ?od = "chunk_bytes old (cs ! unat i)"
  obtain f where f: "read_old_chunk ''Failed to read MODIFIED source chunk'' (cs ! unat i) s = (Inr ?od, s\<lparr>ap_old := f\<rparr>)"
      "healthy f" "st_data (strm f) = old"
    using read_old_chunk_complete [OF _ c, of s] assms(2,3) by (auto simp: apply_ready_def)
  have hd: "healthy (ap_delta s)" using assms(2) by (simp add: apply_ready_def)
  obtain g where g: "applyDiff ?od (unat n) (ap_delta s) = (Inr p, g)" "healthy g" "remaining g = r"
    using applyDiff_complete [OF hd _ Modified(5,4,6,7) assms(5)] assms(4) Modified(1) by auto
  obtain h where "require_digest U ''MODIFIED entry hash mismatch'' d p (s\<lparr>ap_old := f, ap_delta := g\<rparr>) =
      (Inr p, s\<lparr>ap_old := f, ap_delta := g, ap_hash := h\<rparr>)" "live h"
    using require_digest_complete [OF assms(6-8), of "s\<lparr>ap_old := f, ap_delta := g\<rparr>" p d] assms(2) Modified(8)
    by (auto simp: apply_ready_def)
  then show ?thesis using f g Modified(1,2) assms(2)
    by (auto simp: produce_def references_old_def produce_modified_def apply_ready_def)
qed

lemma deliver_complete:
  assumes "apply_ready live msg old s" and "length (written (ap_out s)) + length p \<le> unat m"
    and "length p \<le> STREAMOFF_MAX" and "strong_hash_sound U D msg" and "strong_hash_total U msg live"
  shows "\<exists>s'. deliver U m p s = (Inr (), s') \<and> apply_ready live msg old s' \<and> ap_delta s' = ap_delta s \<and>
    written (ap_out s') = written (ap_out s) @ p \<and>
    as_entries_processed (ap_stats s') = Suc (as_entries_processed (ap_stats s))"
proof -
  have r: "healthy_out (ap_out s)" "live (ap_whole s)" "msg (ap_whole s) = Some (written (ap_out s))"
    "as_bytes_written (ap_stats s) = length (written (ap_out s))"
    using assms(1) by (simp_all add: apply_ready_def)
  have w: "writing (ap_out s)" using r(1) by (simp add: healthy_out_def)
  obtain ok f where f: "write_chunk p (ap_out s) = (ok, f)" by fastforce
  note wa = write_chunk_appends(4,5) [OF f w]
  have ok: ok and hf: "healthy_out f" using wa(2) r(1) assms(3) by auto
  then have wf: "written f = written (ap_out s) @ p" using wa(1) by blast
  obtain h where h: "sh_update U p (ap_whole s) = Inr h" "live h"
    using strong_hash_totalD(3) [OF assms(5) r(2,3)] by blast
  have "msg h = Some (written (ap_out s) @ p)" by (rule strong_hash_soundD(3) [OF assms(4) r(3) h(1)])
  then show ?thesis using f \<open>ok\<close> hf wf h assms(1,2) r(4)
    by (auto simp: deliver_def apply_ready_def)
qed

lemma entry_output_small:
  assumes "entry_output D old cs e p" and "chunks_fit old cs"
  shows "length p \<le> DELTA_MAX_CHUNK_SIZE"
  using assms(1)
proof cases
  case (Original i d)
  then have "cs ! unat i \<in> set cs" by simp
  then show ?thesis using assms(2) Original(2) by (auto simp: chunks_fit_def chunk_bytes_def)
next
  case (Modified i n ops st d)
  then show ?thesis using diff_tail_length [OF Modified(7) apply_opcodes_inv [OF Modified(6) diff_inv_start]] by simp
qed

lemma entry_output_ok:
  assumes "entry_output D old cs e p" and "chunks_fit old cs" and "\<forall>m. DELTA_DIGEST_BYTES \<le> length (D m)"
  shows "entry_ok e"
  using assms(1)
proof cases
  case (Original i d)
  then have "cs ! unat i \<in> set cs" by simp
  then show ?thesis using assms(2) Original by (auto simp: chunks_fit_def entry_ok_def)
next
  case (Added d)
  moreover have "unat (of_nat (length p) :: u64) = length p"
    using Added(2) by (intro unat_u64_of_nat) (simp add: DELTA_MAX_CHUNK_SIZE_def)
  ultimately show ?thesis using assms(3) by (auto simp: entry_ok_def)
next
  case (Modified i n ops st d)
  then show ?thesis using assms(3) by (auto simp: entry_ok_def)
qed

text \<open>What follows an entry's body is no opcode: the next byte is a tag.\<close>

lemma stream_wire_no_opcode: "stream_wire bs es trailer \<Longrightarrow> no_opcode_next bs"
proof (induction rule: stream_wire.induct)
  case (End trailer)
  then show ?case by (simp add: no_opcode_next_def DELTA_TRAILER_TAG_def is_diff_opcode_def)
next
  case (Entry b bs e r es trailer)
  then have "b < DELTA_ENTRY_TYPE_LIMIT" by (auto simp: read_entry_header_def run_try_then split: if_splits)
  then show ?case by (auto simp: no_opcode_next_def is_diff_opcode_def DELTA_ENTRY_TYPE_LIMIT_def)
qed

text \<open>The encoder's stream is one of the streams the relation admits.\<close>

lemma stream_wire_encode:
  assumes "\<forall>e \<in> set es. entry_ok e"
  shows "stream_wire (concat (map encode_entry es) @ DELTA_TRAILER_TAG # t) es t"
  using assms
proof (induction es)
  case (Cons e es)
  obtain b bs where b: "encode_entry e = b # bs" "b \<noteq> DELTA_TRAILER_TAG"
    by (cases e) (simp_all add: record_head_eq DELTA_TRAILER_TAG_def)
  have "run_state (read_entry_header list_source) (encode_entry e @ concat (map encode_entry es) @ DELTA_TRAILER_TAG # t) =
      (Inr (entry_header e), entry_body e @ concat (map encode_entry es) @ DELTA_TRAILER_TAG # t)"
    using Cons.prems by (intro read_entry_header_encode) simp
  then show ?case using stream_wire.Entry [OF b(2)] b(1) Cons by simp
qed (simp add: stream_wire.End)

lemma apply_loop_complete:
  assumes "list_all2 (entry_output D old cs) es ps" and "apply_ready live msg old s" and "chunks_fit old cs"
    and "stream_wire (remaining (ap_delta s)) es (D (written (ap_out s) @ concat ps))"
    and "length (written (ap_out s) @ concat ps) \<le> unat m"
    and "strong_hash_sound U D msg" and "strong_hash_total U msg live" and "DELTA_DIGEST_BYTES \<le> sh_size U"
  shows "\<exists>s'. apply_loop U cs m s = (Inr True, s') \<and> healthy (ap_old s') \<and> healthy (ap_delta s') \<and>
    healthy_out (ap_out s') \<and> written (ap_out s') = written (ap_out s) @ concat ps \<and>
    as_entries_processed (ap_stats s') = as_entries_processed (ap_stats s) + length es \<and>
    as_bytes_written (ap_stats s') = length (written (ap_out s'))"
  using assms(1,2,4,5)
proof (induction es ps arbitrary: s rule: list_all2_induct)
  case Nil
  have hd: "healthy (ap_delta s)" using Nil.prems(1) by (simp add: apply_ready_def)
  obtain item f where n: "run_state (next_item file_source) (ap_delta s) = (item, f)" by fastforce
  note nc = fio.calm_run [OF fio.next_item_sim hd n]
  have item: "item = Trailer" "remaining f = DELTA_TRAILER_TAG # D (written (ap_out s))"
    using nc(2) Nil.prems(2) by (auto simp: next_item_list_cases elim: stream_wire_endE)
  obtain x g where t: "run_state (read_trailer file_source (sh_size U)) f = (x, g)" by fastforce
  note tc = fio.calm_run [OF fio.read_trailer_sim nc(1) t]
  have x: "x = Inr (D (written (ap_out s)))"
    using tc(2) item(2) strong_hash_soundD(1) [OF assms(6)] by (auto simp: read_trailer_list)
  have w: "live (ap_whole s)" "msg (ap_whole s) = Some (written (ap_out s))"
    using Nil.prems(1) by (simp_all add: apply_ready_def)
  obtain c h where fin: "sh_finalize U (digest_buffer U) (ap_whole s) = Inr (c, h)"
    using strong_hash_totalD(4) [OF assms(7) w] by blast
  have "c = D (written (ap_out s))" by (rule strong_hash_soundD(4) [OF assms(6) w(2) fin])
  then show ?case using n item(1) t x fin tc(1) Nil.prems(1)
    by (simp add: apply_loop.simps [of U cs m s] Let_def apply_trailer_def apply_ready_def)
next
  case (Cons e es p ps)
  have hd: "healthy (ap_delta s)" using Cons.prems(1) by (simp add: apply_ready_def)
  obtain item f where n: "run_state (next_item file_source) (ap_delta s) = (item, f)" by fastforce
  note nc = fio.calm_run [OF fio.next_item_sim hd n]
  obtain b bs r where b: "remaining (ap_delta s) = b # bs" "b \<noteq> DELTA_TRAILER_TAG"
    "run_state (read_entry_header list_source) (b # bs) = (Inr (entry_header e), entry_body e @ r)"
    "stream_wire r es (D (written (ap_out s) @ concat (p # ps)))"
    using Cons.prems(2) by (auto elim: stream_wire_entryE)
  have item: "item = Entry" "remaining f = b # bs" using nc(2) b by (simp_all add: next_item_list_cases)
  obtain x g where h: "run_state (read_entry_header file_source) f = (x, g)" by fastforce
  note hc = fio.calm_run [OF fio.read_entry_header_sim nc(1) h]
  have x: "x = Inr (entry_header e)" "remaining g = entry_body e @ r" using hc(2) item(2) b(3) by auto
  have rdy: "apply_ready live msg old (s\<lparr>ap_delta := g\<rparr>)" using Cons.prems(1) hc(1) by (simp add: apply_ready_def)
  have nr: "no_opcode_next r" by (rule stream_wire_no_opcode [OF b(4)])
  obtain s1 where s1: "produce U cs (entry_header e) (s\<lparr>ap_delta := g\<rparr>) = (Inr p, s1)" "apply_ready live msg old s1"
      "remaining (ap_delta s1) = r" "ap_out s1 = ap_out s" "ap_stats s1 = ap_stats s"
    using produce_complete [OF Cons.hyps(1) rdy assms(3) _ nr assms(6-8)] x(2) by auto
  have "length p \<le> STREAMOFF_MAX"
    using entry_output_small [OF Cons.hyps(1) assms(3)] by (simp add: STREAMOFF_MAX_def DELTA_MAX_CHUNK_SIZE_def)
  then obtain s2 where s2: "deliver U m p s1 = (Inr (), s2)" "apply_ready live msg old s2"
      "ap_delta s2 = ap_delta s1" "written (ap_out s2) = written (ap_out s1) @ p"
      "as_entries_processed (ap_stats s2) = Suc (as_entries_processed (ap_stats s1))"
    using deliver_complete [OF s1(2), of p m U D] s1(4) Cons.prems(3) assms(6,7) by auto
  have e: "apply_entry U cs m (s\<lparr>ap_delta := f\<rparr>) = (Inr (), s2)"
    using h x(1) s1(1) s2(1) by (simp add: apply_entry_def)
  have "stream_wire (remaining (ap_delta s2)) es (D (written (ap_out s2) @ concat ps))"
    using s1(3,4) s2(3,4) b(4) by simp
  from Cons.IH [OF s2(2) this] Cons.prems(3) s1(4,5) s2(4,5) show ?case
    using n item(1) e by (auto simp: apply_loop.simps [of U cs m s] Let_def)
qed

lemma apply_stream_complete:
  assumes "list_all2 (entry_output D old cs) es ps" and "chunks_fit old cs"
    and "healthy f" and "st_data (strm f) = old" and "healthy d" and "healthy_out dst" and "written dst = []"
    and "stream_wire (remaining d) es (D (concat ps))"
    and "length (concat ps) \<le> unat m"
    and "strong_hash_sound U D msg" and "strong_hash_total U msg live" and "DELTA_DIGEST_BYTES \<le> sh_size U"
  shows "\<exists>stats f' d' dst'. apply_stream U cs m f d dst = (Inr stats, f', d', dst') \<and> healthy f' \<and> healthy d' \<and>
    healthy_out dst' \<and> written dst' = concat ps \<and>
    stats = \<lparr>as_entries_processed = length es, as_bytes_written = length (concat ps)\<rparr>"
proof -
  obtain u where u: "sh_new U = Inr u" "live u" using strong_hash_totalD(1) [OF assms(11)] by blast
  obtain v where v: "sh_init U u = Inr v" "live v" using strong_hash_totalD(2) [OF assms(11) u(2)] by blast
  have "msg v = Some []" by (rule strong_hash_soundD(2) [OF assms(10) v(1)])
  define s where "s = \<lparr>ap_old = f, ap_delta = d, ap_out = dst, ap_hash = u, ap_whole = v,
      ap_stats = \<lparr>as_entries_processed = 0, as_bytes_written = 0\<rparr>\<rparr>"
  have rdy: "apply_ready live msg old s"
    using assms(3-7) u v \<open>msg v = Some []\<close> by (simp add: apply_ready_def s_def)
  obtain s' where s': "apply_loop U cs m s = (Inr True, s')" "healthy (ap_old s')" "healthy (ap_delta s')"
      "healthy_out (ap_out s')" "written (ap_out s') = concat ps"
      "as_entries_processed (ap_stats s') = length es" "as_bytes_written (ap_stats s') = length (concat ps)"
    using apply_loop_complete [OF assms(1) rdy assms(2) _ _ assms(10-12), of m] assms(7-9)
    by (auto simp: s_def)
  obtain x g where fin: "run_state (finish file_source True) (ap_delta s') = (x, g)" by fastforce
  then have "x = Inr ()" "g = ap_delta s'"
    using s'(3) by (auto simp: finish_def run_try_then fail_if_error_def healthy_def split: if_splits)
  then show ?thesis using u v s' fin by (simp add: apply_stream_def s_def)
qed


section \<open>From the paths to the disk\<close>

lemma apply_stream_sound:
  assumes "apply_stream U cs m f d dst = (Inr stats, f', d', dst')" and "reading f" and "st_data (strm f) = old"
    and "reading d" and "writing dst" and "written dst = []"
    and "strong_hash_sound U D msg" and "DELTA_DIGEST_BYTES \<le> sh_size U"
  shows "\<exists>es ps. stream_wire (remaining d) es (D (concat ps)) \<and> list_all2 (entry_output D old cs) es ps \<and>
    written dst' = concat ps \<and> length (concat ps) \<le> unat m \<and>
    stats = \<lparr>as_entries_processed = length es, as_bytes_written = length (concat ps)\<rparr>"
    and "writing dst'" and "\<not> io_error d"
proof -
  obtain u v where u: "sh_new U = Inr u" and v: "sh_init U u = Inr v"
    using assms(1) by (auto simp: apply_stream_def bind_sum_def split: sum.splits)
  define s where "s = \<lparr>ap_old = f, ap_delta = d, ap_out = dst, ap_hash = u, ap_whole = v,
      ap_stats = \<lparr>as_entries_processed = 0, as_bytes_written = 0\<rparr>\<rparr>"
  have inv: "apply_inv msg old s"
    using assms(2-6) strong_hash_soundD(2) [OF assms(7) v] by (simp add: apply_inv_def s_def)
  obtain x s' where l: "apply_loop U cs m s = (x, s')" by fastforce
  obtain saw where x: "x = Inr saw" using assms(1) u v l by (cases x) (simp_all add: apply_stream_def s_def)
  obtain y g where fin: "run_state (finish file_source saw) (ap_delta s') = (y, g)" by fastforce
  have y: "\<exists>z. y = Inr z" and res: "stats = ap_stats s'" "dst' = ap_out s'"
    using assms(1) u v l x fin by (auto simp: apply_stream_def s_def split: sum.splits)
  then have saw: saw using fio.finish_clean(2) fin by blast
  note ls = apply_loop_sound [OF l inv assms(7,8)]
  show "writing dst'" using ls res by simp
  show "\<not> io_error d" using ls x saw by (auto simp: s_def)
  have "written (ap_out s) = []" "ap_delta s = d" "as_entries_processed (ap_stats s) = 0"
    using assms(6) by (simp_all add: s_def)
  then show "\<exists>es ps. stream_wire (remaining d) es (D (concat ps)) \<and> list_all2 (entry_output D old cs) es ps \<and>
      written dst' = concat ps \<and> length (concat ps) \<le> unat m \<and>
      stats = \<lparr>as_entries_processed = length es, as_bytes_written = length (concat ps)\<rparr>"
    using ls x saw res by (cases "ap_stats s'") (fastforce simp: stream_applied_def counted_def)
qed

lemma apply_opened_sound:
  assumes "apply_opened (rk_alg rk_default) U old_path m f d tx w = (Inr stats, tx', w')"
    and "reading f" and "reading d" and "writing (tx_file tx)" and "written (tx_file tx) = []"
    and "strong_hash_sound U D msg" and "DELTA_DIGEST_BYTES \<le> sh_size U"
  shows "\<exists>rest es ps tx1. remaining d = header_bytes @ rest \<and> stream_wire rest es (D (concat ps)) \<and>
    list_all2 (entry_output D (st_data (strm f)) (sign D (st_data (strm f)))) es ps \<and> length (concat ps) \<le> unat m \<and>
    stats = \<lparr>as_entries_processed = length es, as_bytes_written = length (concat ps)\<rparr> \<and>
    tx1 = tx\<lparr>tx_file := tx_file tx1\<rparr> \<and> is_open (tx_file tx1) \<and> written (tx_file tx1) = concat ps \<and>
    tx_commit tx1 w = (Inr (), tx', w')"
proof -
  obtain x d1 where h: "run_state (read_header file_source) d = (x, d1)" by fastforce
  obtain u where x: "x = Inr u" using assms(1) h by (cases x) (auto simp: apply_opened_def split: sum.splits)
  obtain sg f1 where g: "generate_signatures (rk_alg rk_default) U Skip f = Inr (True, sg, f1)"
    using assms(1) h x by (auto simp: apply_opened_def split: sum.splits bool.splits)
  obtain r f2 d2 dst where st: "apply_stream U (sg_chunks sg) m f1 d1 (tx_file tx) = (r, f2, d2, dst)"
    by (cases "apply_stream U (sg_chunks sg) m f1 d1 (tx_file tx)") auto
  have r: "r = Inr stats" and cm: "tx_commit (tx\<lparr>tx_file := dst\<rparr>) w = (Inr (), tx', w')"
    using assms(1) h x g st by (auto simp: apply_opened_def Let_def split: sum.splits if_splits prod.splits)
  note sg = shipped_correct [OF g assms(6,2)]
  have f1: "reading f1" "st_data (strm f1) = st_data (strm f)" using sg(3) by (simp_all add: file_kept_def)
  have cs: "sg_chunks sg = sign D (st_data (strm f))" using sg(1) by simp
  note hs = simulatesD [OF fio.read_header_sim assms(3) h]
  obtain es ps where ap: "stream_wire (remaining d1) es (D (concat ps))"
      "list_all2 (entry_output D (st_data (strm f)) (sign D (st_data (strm f)))) es ps"
      "written dst = concat ps" "length (concat ps) \<le> unat m"
      "stats = \<lparr>as_entries_processed = length es, as_bytes_written = length (concat ps)\<rparr>"
    and wr: "writing dst" and clean: "\<not> io_error d1"
    using apply_stream_sound [OF st [unfolded r] f1(1,2) hs(1) assms(4-7)] cs by auto
  have "remaining d = header_bytes @ remaining d1"
  proof (rule read_header_sound)
    show "run_state (read_header list_source) (remaining d) = (Inr u, remaining d1)" using hs(4) x clean by simp
  qed
  then show ?thesis using ap wr cm
    by (intro exI [of _ "remaining d1"] exI [of _ es] exI [of _ ps] exI [of _ "tx\<lparr>tx_file := dst\<rparr>"])
      (simp add: writing_def)
qed


lemma apply_delta_Inr: "apply_delta nr T U o1 d1 p m w = (Inr stats, w') \<longleftrightarrow>
    apply_delta_impl nr T U o1 d1 p m w = (Inr stats, w')"
  by (auto simp: apply_delta_def split: prod.splits sum.splits failure.splits)

text \<open>A world in which no staged file is registered: the invariant of the transaction starts here.\<close>

lemma staged_inv_start:
  assumes "wf_world w" and "\<forall>s \<in> set (w_slots w). s = None" and "same_disk w w'"
  shows "staged_inv w (tx_new, w')"
  using assms untouched_disk [OF untouched_refl [OF assms(1)] assms(3)]
  by (auto simp: staged_inv_def tx_new_def same_disk_def)

text \<open>A commit that succeeds changes the destination only, and the last that reached the disk for good is
  the sync of the complete output and then its rename.\<close>

definition published :: "world \<Rightarrow> world \<Rightarrow> path \<Rightarrow> bytes \<Rightarrow> bool" where
  "published w w' p bs \<longleftrightarrow> (\<exists>i J. w_names w' p = Some i \<and> nd_data (w_nodes w' i) = bs \<and> w_journal w' = Renamed i p # Synced i bs # J) \<and>
     (\<forall>q. q \<noteq> p \<longrightarrow> w_names w q \<noteq> None \<longrightarrow> w_names w' q = w_names w q) \<and>
     (\<forall>j < w_next w. w_nodes w' j = w_nodes w j)"

lemma commit_published:
  assumes "tx_commit tx w1 = (Inr u, tx', w2)" and "is_open (tx_file tx)" and "staged_inv w (tx, w1)"
    and "tx_temporary tx \<noteq> []" and "tx_destroy tx' w2 = (tx'', w3)"
  shows "published w w3 (tx_destination tx) (written (tx_file tx))"
proof -
  obtain i where i: "w_names w1 (tx_temporary tx) = Some i"
    "w_names w2 = ((w_names w1)(tx_temporary tx := None))(tx_destination tx \<mapsto> i)"
    "w_nodes w2 = (w_nodes w1)(i := (w_nodes w1 i)\<lparr>nd_data := written (tx_file tx)\<rparr>)"
    "w_journal w2 = Renamed i (tx_destination tx) # Synced i (written (tx_file tx)) # w_journal w1" "tx_temporary tx' = []"
    by (rule tx_commit_publishes [OF assms(1,2)])
  note d = tx_destroy_published [OF assms(5) i(5)]
  have un: "untouched w w1" and fresh: "w_names w (tx_temporary tx) = None"
    using assms(3,4) by (simp_all add: staged_inv_def)
  have "w_next w \<le> i" using un fresh i(1) unfolding untouched_def by blast
  moreover have "w_names w1 q = w_names w q" if "w_names w q \<noteq> None" for q
    using un that unfolding untouched_def by blast
  moreover have "w_nodes w1 j = w_nodes w j" if "j < w_next w" for j
    using un that unfolding untouched_def by blast
  ultimately show ?thesis
    unfolding published_def using i d fresh by (auto intro!: exI [of _ i])
qed

lemma apply_delta_impl_Inr:
  assumes "apply_delta_impl nr T U op1 dp out_path m w = (Inr stats, w')" and "wf_world w"
    and "\<forall>s \<in> set (w_slots w). s = None"
  obtains n d f g tx w3 tx1 w4 where "node_at w op1 = Some n" and "node_at w dp = Some d"
    and "reading f" and "st_data (strm f) = nd_data n" and "reading g" and "remaining g = nd_data d"
    and "staged_inv w (tx, w3)" and "staged_open (tx, w3)" and "tx_destination tx = out_path"
    and "apply_opened T U op1 m f g tx w3 = (Inr stats, tx1, w4)" and "w' = snd (tx_destroy tx1 w4)"
proof -
  obtain ok1 f w1 where o1: "fio_open nr op1 IN fio_default w = (ok1, f, w1)" by (cases "fio_open nr op1 IN fio_default w") auto
  obtain ok2 g w2 where o2: "fio_open nr dp IN fio_default w1 = (ok2, g, w2)" by (cases "fio_open nr dp IN fio_default w1") auto
  obtain r tx w3 where o3: "tx_open nr out_path [op1, dp] tx_new w2 = (r, tx, w3)" by (cases "tx_open nr out_path [op1, dp] tx_new w2") auto
  obtain r4 tx1 w4 where o4: "apply_opened T U op1 m f g tx w3 = (r4, tx1, w4)" by (cases "apply_opened T U op1 m f g tx w3") auto
  have ok: ok1 ok2 "r = Inr ()" "r4 = Inr stats" "w' = snd (tx_destroy tx1 w4)"
    using assms(1) o1 o2 o3 o4 by (auto simp: apply_delta_impl_def split: if_splits sum.splits)
  note i1 = fio_open_input [OF o1] and i2 = fio_open_input [OF o2]
  have sd: "same_disk w w2" using i1(1) i2(1) by (rule same_disk_trans)
  obtain n where n: "node_at w op1 = Some n" "reading f" "st_data (strm f) = nd_data n"
    using i1(2) ok by auto
  obtain d where d: "node_at w dp = Some d" "reading g" "remaining g = nd_data d"
    using i2(2) ok same_disk_node [OF i1(1)] by auto
  note tx = tx_open_inv [OF o3 staged_inv_start [OF assms(2,3) sd]]
  show ?thesis using that [OF n(1) d(1) n(2,3) d(2,3) tx(1)] tx(2) ok o4 by simp
qed

lemma apply_opened_inv:
  assumes "apply_opened T U p m f d tx w = (Inl e, tx', w')" and "staged_inv w0 (tx, w)"
  shows "staged_inv w0 (tx', w')"
proof -
  have fl: "staged_inv w0 (tx\<lparr>tx_file := h\<rparr>, w)" for h using assms(2) by (simp add: staged_inv_def)
  then show ?thesis
    using assms fl tx_commit_fails_inv [OF _ fl]
    by (auto simp: apply_opened_def Let_def split: sum.splits prod.splits bool.splits if_splits)
qed

section \<open>Properties of the applier\<close>

lemma apply_delta_untouched:
  assumes "apply_delta nr T U old_path delta_path out_path m w = (Inl e, w')"
    and "wf_world w" and "\<forall>s \<in> set (w_slots w). s = None"
  shows "untouched w w'"
proof -
  obtain x where x: "apply_delta_impl nr T U old_path delta_path out_path m w = (Inl x, w')"
    using assms(1) by (auto simp: apply_delta_def split: prod.splits sum.splits failure.splits)
  obtain ok1 f w1 where o1: "fio_open nr old_path IN fio_default w = (ok1, f, w1)" by (cases "fio_open nr old_path IN fio_default w") auto
  obtain ok2 g w2 where o2: "fio_open nr delta_path IN fio_default w1 = (ok2, g, w2)" by (cases "fio_open nr delta_path IN fio_default w1") auto
  obtain r tx w3 where o3: "tx_open nr out_path [old_path, delta_path] tx_new w2 = (r, tx, w3)" by (cases "tx_open nr out_path [old_path, delta_path] tx_new w2") auto
  note i1 = fio_open_input(1) [OF o1] and i2 = fio_open_input(1) [OF o2]
  have sd: "same_disk w w2" using i1 i2 by (rule same_disk_trans)
  have u: "untouched w w1" "untouched w w2"
    using untouched_disk [OF untouched_refl [OF assms(2)]] i1 sd by blast+
  note tx = tx_open_inv(1) [OF o3 staged_inv_start [OF assms(2,3) sd]]
  have destroyed: "untouched w (snd (tx_destroy t v))" if "staged_inv w (t, v)" for t v
    using tx_destroy_inv [OF _ that] by (cases "tx_destroy t v") (simp add: staged_inv_def)
  obtain r4 tx1 w4 where o4: "apply_opened T U old_path m f g tx w3 = (r4, tx1, w4)" by (cases "apply_opened T U old_path m f g tx w3") auto
  then have "r4 = Inl x \<Longrightarrow> untouched w (snd (tx_destroy tx1 w4))"
    using destroyed [of tx1 w4] apply_opened_inv [OF _ tx, of T U old_path m f g x tx1 w4] by simp
  then show ?thesis
    using x o1 o2 o3 o4 u destroyed [OF tx]
    by (auto simp: apply_delta_impl_def split: if_splits sum.splits prod.splits)
qed

text \<open>C14 The diff of two chunks, wherever it lies in a file that can be read, is applied to the old bytes and
  gives exactly the new ones; the reader is left behind its last opcode.\<close>

theorem diff_of_file_roundtrip:
  assumes "healthy f" and "remaining f = createDiff old new @ r" and "createDiff old new \<noteq> []"
    and "length old < 2 ^ 32" and "length new < 2 ^ 32" and "no_opcode_next r"
  shows "\<exists>f'. applyDiff old (length new) f = (Inr new, f') \<and> healthy f' \<and> remaining f' = r"
proof -
  obtain cs st where cs: "createDiff old new = encode_opcodes cs" "\<forall>c \<in> set cs. valid_opcode c"
      "apply_opcodes old (length new) cs diff_start = Inr st" "diff_tail old (length new) st = Inr new"
    by (rule emits_applies [OF createDiff_emits [OF assms(5,4)]])
  from applyDiff_complete [OF assms(1) _ cs(2) _ cs(3,4) assms(6)] assms(2,3) cs(1) show ?thesis by simp
qed

theorem diff_of_file_roundtrip_witness:
  "\<exists>f'. applyDiff [1, 2, 3] 3 (file_of (createDiff [1, 2, 3] [1, 9, 3] @ [250])) = (Inr [1, 9, 3], f') \<and>
     remaining f' = [250]"
proof -
  have "createDiff [1, 2, 3] [1, 9, 3] \<noteq> []" by code_simp
  moreover have "no_opcode_next [250]" by (simp add: no_opcode_next_def is_diff_opcode_def)
  ultimately show ?thesis
    using diff_of_file_roundtrip [of "file_of (createDiff [1, 2, 3] [1, 9, 3] @ [250])" "[1, 2, 3]" "[1, 9, 3]" "[250]"]
    by (auto simp: numeral_3_eq_3)
qed

text \<open>C35 Whatever bytes it reads, applying a diff gives the declared number of bytes or an error; and if the
  device did not fail, the result is that of a run of at least one well-formed opcode, applied in
  order, followed by the rest of the old chunk.\<close>

theorem diff_output_exact:
  assumes "applyDiff old target f = (Inr p, f')" and "reading f"
  shows "length p = target \<and> (\<not> io_error f' \<longrightarrow>
    (\<exists>cs st. remaining f = encode_opcodes cs @ remaining f' \<and> cs \<noteq> [] \<and>
       apply_opcodes old target cs diff_start = Inr st \<and> diff_tail old target st = Inr p))"
  using applyDiff_sound(2,3) [OF assms, of p] by blast

theorem diff_output_exact_witness:
  "\<exists>p f'. applyDiff [1, 2, 3] 3 (file_of (createDiff [1, 2, 3] [1, 9, 3])) = (Inr p, f') \<and> length p = 3"
proof -
  obtain cs st where cs: "createDiff [1, 2, 3] [1, 9, 3] = encode_opcodes cs" "\<forall>c \<in> set cs. valid_opcode c"
      "apply_opcodes [1, 2, 3] 3 cs diff_start = Inr st" "diff_tail [1, 2, 3] 3 st = Inr [1, 9, 3]"
    using emits_applies [OF createDiff_emits [of "[1, 9, 3]" "[1, 2, 3]"]]
    by (auto simp: numeral_3_eq_3)
  have "createDiff [1, 2, 3] [1, 9, 3] \<noteq> []" by code_simp
  then obtain f' where "applyDiff [1, 2, 3] 3 (file_of (createDiff [1, 2, 3] [1, 9, 3])) = (Inr [1, 9, 3], f')"
    using applyDiff_complete [of "file_of (createDiff [1, 2, 3] [1, 9, 3])" cs "[]" "[1, 2, 3]" 3 st "[1, 9, 3]"] cs
    by (auto simp: no_opcode_next_def is_diff_opcode_def)
  with diff_output_exact [OF this] show ?thesis by auto
qed

end
