(* ===== verification/Chunk_Index.thy ===== *)
theory Chunk_Index
  imports Signature_Gen
begin

text \<open>
  The content-addressed chunk index (\<^verbatim>\<open>src/src/ChunkIndex.hpp\<close>).  The unordered map is an
  association list keyed by content; the hash functor only decides in which bucket of the table a
  key is stored, so all the model needs of it is that equal chunks have equal hashes.
\<close>

section \<open>The hash functor\<close>

text \<open>\<open>memcpy\<close> of eight bytes on a little-endian machine.\<close>

definition load_word :: "bytes \<Rightarrow> u64" where
  "load_word bs = foldr (\<lambda>b acc. push_bit 8 acc OR ucast b) (take 8 bs) 0"

definition ChunkHash :: "SignedChunk \<Rightarrow> u64" where
  "ChunkHash c =
     (let lo = (if length (sc_hash c) \<ge> 8 then load_word (sc_hash c) else 0);
          hi = (if length (sc_hash c) \<ge> 16 then load_word (drop 8 (sc_hash c)) else 0)
      in lo XOR (hi + 0x9e3779b97f4a7c15 + push_bit 6 lo + drop_bit 2 lo))"

definition ChunkEqual :: "SignedChunk \<Rightarrow> SignedChunk \<Rightarrow> bool" where
  "ChunkEqual a b = same_content a b"

section \<open>The index\<close>

record Bucket =
  positions :: "nat list"
  cursor :: nat

type_synonym chunk_index = "(SignedChunk \<times> Bucket) list"

fun bucket_find :: "chunk_index \<Rightarrow> SignedChunk \<Rightarrow> Bucket option" where
  "bucket_find [] probe = None"
| "bucket_find ((k, b) # ix) probe = (if ChunkEqual k probe then Some b else bucket_find ix probe)"

fun bucket_put :: "chunk_index \<Rightarrow> SignedChunk \<Rightarrow> Bucket \<Rightarrow> chunk_index" where
  "bucket_put [] probe b = [(probe, b)]"
| "bucket_put ((k, c) # ix) probe b =
     (if ChunkEqual k probe then (k, b) # ix else (k, c) # bucket_put ix probe b)"

text \<open>\<open>buckets_[chunk].positions.push_back(i)\<close>: a missing bucket is created empty.\<close>

definition index_add :: "nat \<Rightarrow> SignedChunk \<Rightarrow> chunk_index \<Rightarrow> chunk_index" where
  "index_add i c ix =
     (let b = (case bucket_find ix c of None \<Rightarrow> \<lparr>positions = [], cursor = 0\<rparr> | Some b \<Rightarrow> b)
      in bucket_put ix c (b\<lparr>positions := positions b @ [i]\<rparr>))"

fun index_from :: "nat \<Rightarrow> SignedChunk list \<Rightarrow> chunk_index \<Rightarrow> chunk_index" where
  "index_from i [] ix = ix"
| "index_from i (c # cs) ix = index_from (Suc i) cs (index_add i c ix)"

definition make_index :: "SignedChunk list \<Rightarrow> chunk_index" where
  "make_index chunks = index_from 0 chunks []"

text \<open>The loop that moves the cursor past consumed positions.\<close>

function skip_used :: "bool list \<Rightarrow> nat list \<Rightarrow> nat \<Rightarrow> nat" where
  "skip_used used ps cur =
     (if cur < length ps \<and> used ! (ps ! cur) then skip_used used ps (Suc cur) else cur)"
  by pat_completeness auto
termination by (relation "measure (\<lambda>(used, ps, cur). length ps - cur)") auto

declare skip_used.simps [simp del]

definition find_unused :: "bool list \<Rightarrow> SignedChunk \<Rightarrow> chunk_index \<Rightarrow> nat option \<times> chunk_index" where
  "find_unused used probe ix =
     (case bucket_find ix probe of
        None \<Rightarrow> (None, ix)
      | Some b \<Rightarrow>
          let cur = skip_used used (positions b) (cursor b);
              ix' = bucket_put ix probe (b\<lparr>cursor := cur\<rparr>)
          in if cur = length (positions b) then (None, ix') else (Some (positions b ! cur), ix'))"

section \<open>The contract of a lookup\<close>

text \<open>
  What a client needs of an index over \<open>chunks\<close>: as long as the flags only go from unused to used,
  a lookup finds an unused chunk with the content asked for exactly when there is one, the first
  in file order.
\<close>

locale chunk_lookup =
  fixes find :: "bool list \<Rightarrow> SignedChunk \<Rightarrow> 'i \<Rightarrow> nat option \<times> 'i"
    and valid :: "SignedChunk list \<Rightarrow> bool list \<Rightarrow> 'i \<Rightarrow> bool"
  assumes find_valid: "valid cs used ix \<Longrightarrow> find used p ix = (r, ix') \<Longrightarrow> valid cs used ix'"
    and find_some: "valid cs used ix \<Longrightarrow> find used p ix = (Some i, ix') \<Longrightarrow>
      i < length cs \<and> same_content (cs ! i) p \<and> \<not> used ! i \<and>
      (\<forall>j < i. same_content (cs ! j) p \<longrightarrow> used ! j)"
    and find_none: "valid cs used ix \<Longrightarrow> find used p ix = (None, ix') \<Longrightarrow>
      (\<forall>j < length cs. same_content (cs ! j) p \<longrightarrow> used ! j)"
    and valid_mono: "valid cs used ix \<Longrightarrow> length used' = length used \<Longrightarrow>
      (\<forall>j < length used. used ! j \<longrightarrow> used' ! j) \<Longrightarrow> valid cs used' ix"
begin

text \<open>Asking again before marking the answer used gives the same answer.\<close>

lemma find_stable:
  assumes "valid cs used ix" and "find used p ix = (r, ix1)" and "find used p ix1 = (s, ix2)"
  shows "r = s"
proof (cases r)
  case None
  then show ?thesis
    using find_none [OF assms(1), of p ix1] assms(2) find_some [OF find_valid [OF assms(1,2)], of p _ ix2] assms(3)
    by (cases s) auto
next
  case (Some i)
  note i = find_some [OF assms(1) assms(2) [unfolded Some]]
  note v1 = find_valid [OF assms(1,2)]
  show ?thesis
  proof (cases s)
    case None
    then show ?thesis using find_none [OF v1, of p ix2] assms(3) i by auto
  next
    case (Some j)
    note j = find_some [OF v1 assms(3) [unfolded Some]]
    have "i = j" using i j by (metis linorder_less_linear)
    then show ?thesis using \<open>r = Some i\<close> Some by simp
  qed
qed

text \<open>Once the answer is marked used, the next answer lies behind it.\<close>

lemma find_advances:
  assumes "valid cs used ix" and "length used = length cs" and "find used p ix = (Some i, ix1)"
    and "find (used[i := True]) p ix1 = (Some j, ix2)"
  shows "i < j"
proof -
  note i = find_some [OF assms(1,3)]
  have "\<forall>j < length used. used ! j \<longrightarrow> used[i := True] ! j"
    by (metis nth_list_update_eq nth_list_update_neq)
  then have "valid cs (used[i := True]) ix1"
    by (intro valid_mono [OF find_valid [OF assms(1,3)]]) simp_all
  note j = find_some [OF this assms(4)]
  have "\<not> j < i" using i j assms(2) by (auto simp: nth_list_update)
  moreover have "j \<noteq> i" using j i assms(2) by auto
  ultimately show ?thesis by simp
qed

end

section \<open>The index meets the contract\<close>

lemma ChunkEqual_sym: "ChunkEqual a b = ChunkEqual b a"
  by (auto simp: ChunkEqual_def same_content_def)

lemma ChunkEqual_trans: "ChunkEqual a b \<Longrightarrow> ChunkEqual b c = ChunkEqual a c"
  by (auto simp: ChunkEqual_def same_content_def)

lemma ChunkEqual_refl [simp]: "ChunkEqual a a"
  by (simp add: ChunkEqual_def same_content_def)

lemma ChunkHash_respects: "ChunkEqual a b \<Longrightarrow> ChunkHash a = ChunkHash b"
  by (simp add: ChunkEqual_def same_content_def ChunkHash_def)

lemma bucket_find_put:
  "bucket_find (bucket_put ix c b) p = (if ChunkEqual c p then Some b else bucket_find ix p)"
proof (induction ix)
  case (Cons kb ix)
  obtain k d where kb: "kb = (k, d)" by fastforce
  show ?case using Cons ChunkEqual_trans [of k c p] ChunkEqual_trans [of k p c] ChunkEqual_sym [of p c]
    by (auto simp: kb)
qed simp

text \<open>The positions of the chunks equal to a probe, in file order.\<close>

definition occurrences :: "SignedChunk list \<Rightarrow> SignedChunk \<Rightarrow> nat list" where
  "occurrences cs p = filter (\<lambda>i. same_content (cs ! i) p) [0..<length cs]"

definition index_valid :: "SignedChunk list \<Rightarrow> bool list \<Rightarrow> chunk_index \<Rightarrow> bool" where
  "index_valid cs used ix \<longleftrightarrow> length used = length cs \<and>
     (\<forall>p. bucket_find ix p = None \<longrightarrow> occurrences cs p = []) \<and>
     (\<forall>p b. bucket_find ix p = Some b \<longrightarrow> positions b = occurrences cs p \<and>
        cursor b \<le> length (positions b) \<and> (\<forall>k < cursor b. used ! (positions b ! k)))"

lemma index_validD:
  assumes "index_valid cs used ix"
  shows "length used = length cs" and "bucket_find ix p = None \<Longrightarrow> occurrences cs p = []"
    and "bucket_find ix p = Some b \<Longrightarrow> positions b = occurrences cs p"
    and "bucket_find ix p = Some b \<Longrightarrow> cursor b \<le> length (positions b)"
    and "bucket_find ix p = Some b \<Longrightarrow> k < cursor b \<Longrightarrow> used ! (positions b ! k)"
  using assms unfolding index_valid_def by blast+

lemma skip_used_correct:
  fixes used :: "bool list"
  assumes "cur \<le> length ps"
  shows "cur \<le> skip_used used ps cur" and "skip_used used ps cur \<le> length ps"
    and "\<And>k. cur \<le> k \<Longrightarrow> k < skip_used used ps cur \<Longrightarrow> used ! (ps ! k)"
    and "skip_used used ps cur < length ps \<Longrightarrow> \<not> used ! (ps ! skip_used used ps cur)"
proof -
  have "cur \<le> skip_used used ps cur \<and> skip_used used ps cur \<le> length ps \<and>
    (\<forall>k. cur \<le> k \<longrightarrow> k < skip_used used ps cur \<longrightarrow> used ! (ps ! k)) \<and>
    (skip_used used ps cur < length ps \<longrightarrow> \<not> used ! (ps ! skip_used used ps cur))"
    using assms
  proof (induction used ps cur rule: skip_used.induct)
    case (1 used ps cur)
    show ?case
    proof (cases "cur < length ps \<and> used ! (ps ! cur)")
      case True
      then have e: "skip_used used ps cur = skip_used used ps (Suc cur)"
        by (subst skip_used.simps) simp
      have "used ! (ps ! k)" if "cur \<le> k" "k < skip_used used ps cur" for k
        using that 1 True e by (cases "k = cur") (auto simp: Suc_le_eq)
      then show ?thesis using 1 True e by auto
    next
      case False
      then have "skip_used used ps cur = cur" by (subst skip_used.simps) (rule if_not_P)
      then show ?thesis using 1 False by auto
    qed
  qed
  then show "cur \<le> skip_used used ps cur" and "skip_used used ps cur \<le> length ps"
    and "\<And>k. cur \<le> k \<Longrightarrow> k < skip_used used ps cur \<Longrightarrow> used ! (ps ! k)"
    and "skip_used used ps cur < length ps \<Longrightarrow> \<not> used ! (ps ! skip_used used ps cur)" by blast+
qed

text \<open>Construction indexes every position.\<close>

definition indexed :: "SignedChunk list \<Rightarrow> nat \<Rightarrow> chunk_index \<Rightarrow> bool" where
  "indexed cs n ix \<longleftrightarrow>
     (\<forall>p. bucket_find ix p = None \<longrightarrow> filter (\<lambda>i. same_content (cs ! i) p) [0..<n] = []) \<and>
     (\<forall>p b. bucket_find ix p = Some b \<longrightarrow>
        positions b = filter (\<lambda>i. same_content (cs ! i) p) [0..<n] \<and> cursor b = 0)"

lemma indexedD:
  assumes "indexed cs n ix"
  shows "bucket_find ix p = None \<Longrightarrow> filter (\<lambda>i. same_content (cs ! i) p) [0..<n] = []"
    and "bucket_find ix p = Some b \<Longrightarrow>
      positions b = filter (\<lambda>i. same_content (cs ! i) p) [0..<n] \<and> cursor b = 0"
  using assms unfolding indexed_def by blast+

lemma same_content_eq: "same_content a b \<longleftrightarrow> ChunkEqual a b"
  by (simp add: ChunkEqual_def)

lemma indexed_add:
  assumes "indexed cs n ix"
  shows "indexed cs (Suc n) (index_add n (cs ! n) ix)"
proof -
  define b0 where "b0 = (case bucket_find ix (cs ! n) of None \<Rightarrow> \<lparr>positions = [], cursor = 0\<rparr> | Some b \<Rightarrow> b)"
  have add: "index_add n (cs ! n) ix = bucket_put ix (cs ! n) (b0\<lparr>positions := positions b0 @ [n]\<rparr>)"
    by (simp add: index_add_def b0_def Let_def)
  have b0: "positions b0 = filter (\<lambda>i. same_content (cs ! i) (cs ! n)) [0..<n]" "cursor b0 = 0"
    using indexedD [OF assms, of "cs ! n"] by (auto simp: b0_def split: option.splits)
  have same: "same_content (cs ! i) (cs ! n) = same_content (cs ! i) p" if "ChunkEqual (cs ! n) p" for i p
    using that ChunkEqual_trans ChunkEqual_sym unfolding same_content_eq by blast
  have "filter (\<lambda>i. same_content (cs ! i) p) [0..<Suc n] =
      filter (\<lambda>i. same_content (cs ! i) p) [0..<n] @ (if ChunkEqual (cs ! n) p then [n] else [])" for p
    by (simp add: same_content_eq)
  then show ?thesis
    unfolding indexed_def add bucket_find_put
    using indexedD [OF assms] b0 same by (simp split: if_split)
qed

lemma indexed_from:
  assumes "indexed cs n ix" and "drop n cs = ds" and "n \<le> length cs"
  shows "indexed cs (length cs) (index_from n ds ix)"
  using assms
proof (induction ds arbitrary: n ix)
  case Nil
  then show ?case by simp
next
  case (Cons d ds)
  then have "d = cs ! n" "drop (Suc n) cs = ds" "Suc n \<le> length cs"
    using drop_eq_Cons_nth [of n cs d ds] by auto
  then show ?case using Cons.IH [of "Suc n" "index_add n d ix"] Cons.prems(1) indexed_add [of cs n ix] by simp
qed

lemma make_index_valid:
  assumes "length used = length cs"
  shows "index_valid cs used (make_index cs)"
proof -
  have "indexed cs 0 []" by (simp add: indexed_def)
  then have "indexed cs (length cs) (make_index cs)"
    unfolding make_index_def by (rule indexed_from) simp_all
  then show ?thesis using assms unfolding index_valid_def indexed_def occurrences_def by simp
qed

lemma occurrences_nth:
  "k < length (occurrences cs p) \<Longrightarrow> occurrences cs p ! k < length cs \<and>
     same_content (cs ! (occurrences cs p ! k)) p"
  using nth_mem [of k "occurrences cs p"] by (auto simp: occurrences_def)

lemma occurrences_all: "j < length cs \<Longrightarrow> same_content (cs ! j) p \<Longrightarrow> j \<in> set (occurrences cs p)"
  by (simp add: occurrences_def)

lemma occurrences_sorted: "sorted_wrt (<) (occurrences cs p)"
  unfolding occurrences_def by (rule sorted_wrt_filter) simp

lemma occurrences_cong: "ChunkEqual p q \<Longrightarrow> occurrences cs p = occurrences cs q"
proof -
  assume "ChunkEqual p q"
  then have "same_content (cs ! i) p = same_content (cs ! i) q" for i
    unfolding same_content_eq using ChunkEqual_trans ChunkEqual_sym by blast
  then show ?thesis by (simp add: occurrences_def)
qed

lemma find_unused_valid:
  assumes v: "index_valid cs used ix" and f: "find_unused used p ix = (r, ix')"
  shows "index_valid cs used ix'"
proof (cases "bucket_find ix p")
  case None
  then show ?thesis using v f by (simp add: find_unused_def)
next
  case (Some b)
  define cur where "cur = skip_used used (positions b) (cursor b)"
  have ix': "ix' = bucket_put ix p (b\<lparr>cursor := cur\<rparr>)"
    using f Some by (auto simp: find_unused_def Let_def cur_def split: if_splits)
  have b: "positions b = occurrences cs p" "cursor b \<le> length (positions b)"
    "\<forall>k < cursor b. used ! (positions b ! k)"
    using index_validD [OF v] Some by blast+
  note sk = skip_used_correct [OF b(2), where used = used, folded cur_def]
  have "\<forall>k < cur. used ! (positions b ! k)"
    using b(3) sk(3) by (metis not_le)
  then have new: "positions b = occurrences cs q \<and> cur \<le> length (occurrences cs q) \<and>
      (\<forall>k < cur. used ! (occurrences cs q ! k))" if "ChunkEqual p q" for q
    using occurrences_cong [OF that, of cs] b(1) sk(2) by simp
  show ?thesis
    unfolding index_valid_def ix' bucket_find_put
    using index_validD [OF v] new by simp
qed

lemma find_unused_some:
  assumes v: "index_valid cs used ix" and f: "find_unused used p ix = (Some i, ix')"
  shows "i < length cs \<and> same_content (cs ! i) p \<and> \<not> used ! i \<and>
    (\<forall>j < i. same_content (cs ! j) p \<longrightarrow> used ! j)"
proof -
  obtain b where bf: "bucket_find ix p = Some b" using f by (auto simp: find_unused_def split: option.splits)
  define cur where "cur = skip_used used (positions b) (cursor b)"
  have b: "positions b = occurrences cs p" "cursor b \<le> length (positions b)"
    "\<forall>k < cursor b. used ! (positions b ! k)"
    using index_validD [OF v] bf by blast+
  note sk = skip_used_correct [OF b(2), where used = used, folded cur_def]
  have i: "i = positions b ! cur" and lt: "cur < length (positions b)"
    using f bf sk(2) by (auto simp: find_unused_def Let_def cur_def split: if_splits)
  have "used ! j" if ji: "j < i" and same: "same_content (cs ! j) p" for j
  proof -
    have "j < length cs" using ji occurrences_nth lt unfolding i b(1) by (meson less_trans)
    then obtain k where k: "k < length (positions b)" "positions b ! k = j"
      using occurrences_all [OF _ same] unfolding b(1) in_set_conv_nth by blast
    have "k < cur"
    proof (rule ccontr)
      assume "\<not> k < cur"
      then have "i \<le> j" using occurrences_sorted k lt unfolding i b(1)
        by (metis le_less linorder_neqE_nat order_refl sorted_wrt_nth_less)
      with ji show False by simp
    qed
    then show ?thesis using k b(3) sk(3) by (metis not_le)
  qed
  then show "i < length cs \<and> same_content (cs ! i) p \<and> \<not> used ! i \<and>
      (\<forall>j < i. same_content (cs ! j) p \<longrightarrow> used ! j)"
    using occurrences_nth lt sk(4) unfolding i b(1) by simp
qed

lemma find_unused_none:
  assumes v: "index_valid cs used ix" and f: "find_unused used p ix = (None, ix')"
  shows "\<forall>j < length cs. same_content (cs ! j) p \<longrightarrow> used ! j"
proof (cases "bucket_find ix p")
  case None
  then have "occurrences cs p = []" by (rule index_validD(2) [OF v])
  then show ?thesis using occurrences_all by (metis empty_iff list.set(1))
next
  case (Some b)
  have b: "positions b = occurrences cs p" "cursor b \<le> length (positions b)"
    "\<forall>k < cursor b. used ! (positions b ! k)"
    using index_validD [OF v] Some by blast+
  note sk = skip_used_correct [OF b(2), where used = used]
  have all: "skip_used used (positions b) (cursor b) = length (positions b)"
    using f Some by (auto simp: find_unused_def Let_def split: if_splits)
  show ?thesis
  proof (intro allI impI)
    fix j assume "j < length cs" "same_content (cs ! j) p"
    then obtain k where "k < length (positions b)" "positions b ! k = j"
      using occurrences_all unfolding b(1) in_set_conv_nth by blast
    then show "used ! j" using b(3) sk(3) all by (metis not_le)
  qed
qed

lemma index_valid_mono:
  assumes v: "index_valid cs used ix" and len: "length used' = length used"
    and mono: "\<forall>j < length used. used ! j \<longrightarrow> used' ! j"
  shows "index_valid cs used' ix"
proof -
  have "used' ! (positions b ! k)" if "bucket_find ix p = Some b" "k < cursor b" for p b k
  proof -
    note d = index_validD(3-5) [OF v that(1)]
    have "positions b ! k < length cs" using d(1,2) that(2) occurrences_nth [of k cs p] by simp
    then show ?thesis using mono d(3) that(2) index_validD(1) [OF v] by simp
  qed
  then show "index_valid cs used' ix"
    using index_validD [OF v] len unfolding index_valid_def by simp
qed

interpretation index: chunk_lookup find_unused index_valid
  by unfold_locales (fact find_unused_valid find_unused_some find_unused_none index_valid_mono)+

section \<open>Sequences of lookups\<close>

text \<open>A run of lookups, each with the flags as they are then.\<close>

fun lookups :: "(bool list \<times> SignedChunk) list \<Rightarrow> chunk_index \<Rightarrow> nat option list" where
  "lookups [] ix = []"
| "lookups ((used, p) # qs) ix = (case find_unused used p ix of (r, ix') \<Rightarrow> r # lookups qs ix')"

text \<open>The specification: the first chunk with the probe's content that is not used.\<close>

definition first_unused :: "SignedChunk list \<Rightarrow> bool list \<Rightarrow> SignedChunk \<Rightarrow> nat option" where
  "first_unused cs used p = List.find (\<lambda>i. same_content (cs ! i) p \<and> \<not> used ! i) [0..<length cs]"

lemma find_skip: "List.find P xs = None \<Longrightarrow> List.find P (xs @ ys) = List.find P ys"
  by (induction xs) (auto split: if_splits)

lemma find_unused_first:
  assumes "index_valid cs used ix" and "find_unused used p ix = (r, ix')"
  shows "r = first_unused cs used p"
proof (cases r)
  case None
  with index.find_none [OF assms(1), of p ix'] assms(2) show ?thesis
    by (auto simp: first_unused_def find_None_iff intro!: sym [of _ None])
next
  case (Some i)
  note i = index.find_some [OF assms(1) assms(2) [unfolded Some]]
  have "[0..<length cs] = [0..<i] @ i # [Suc i..<length cs]"
    using i by (metis upt_conv_Cons upt_add_eq_append [of 0 i "length cs - i"] le_add_diff_inverse less_imp_le zero_le)
  moreover have "List.find (\<lambda>i. same_content (cs ! i) p \<and> \<not> used ! i) [0..<i] = None"
    using i by (auto simp: find_None_iff)
  ultimately show ?thesis using i Some by (simp add: first_unused_def find_skip)
qed

definition flags_grow :: "(bool list \<times> SignedChunk) list \<Rightarrow> bool" where
  "flags_grow = sorted_wrt (\<lambda>(u, _) (v, _). length v = length u \<and> (\<forall>j < length u. u ! j \<longrightarrow> v ! j))"

lemma lookups_first:
  assumes "index_valid cs used ix" and "flags_grow ((used, p) # qs)"
  shows "lookups ((used, p) # qs) ix = map (\<lambda>(u, q). first_unused cs u q) ((used, p) # qs)"
  using assms
proof (induction qs arbitrary: used p ix)
  case Nil
  then show ?case using find_unused_first by (auto split: prod.split)
next
  case (Cons q qs)
  obtain r ix' where f: "find_unused used p ix = (r, ix')" by fastforce
  obtain u' p' where q: "q = (u', p')" by fastforce
  have "index_valid cs u' ix'"
    using index.valid_mono [OF index.find_valid [OF Cons.prems(1) f], of u'] Cons.prems(2)
    by (simp add: flags_grow_def q)
  moreover have "flags_grow ((u', p') # qs)"
    using Cons.prems(2) unfolding flags_grow_def q sorted_wrt.simps(2) [where x = "(used, p)"] by (rule conjunct2)
  ultimately have "lookups (q # qs) ix' = map (\<lambda>(u, q). first_unused cs u q) (q # qs)"
    using Cons.IH [of u' ix' p'] by (simp only: q)
  moreover have "lookups ((used, p) # q # qs) ix = r # lookups (q # qs) ix'"
    by (simp only: lookups.simps f prod.case)
  ultimately show ?case using find_unused_first [OF Cons.prems(1) f] by simp
qed

text \<open>C27 Any sequence of lookups on an index built from a signature, with consumption flags that only ever
  grow, answers each probe with the first unconsumed chunk of equal content in file order, and with
  none exactly when there is none: the buckets and their cursors compute what a linear scan would.\<close>

theorem lookups_are_first_matches:
  assumes "flags_grow qs" and "\<forall>(used, p) \<in> set qs. length used = length cs"
  shows "lookups qs (make_index cs) = map (\<lambda>(used, p). first_unused cs used p) qs"
proof (cases qs)
  case (Cons q ps)
  obtain used p where q: "q = (used, p)" by fastforce
  have "index_valid cs used (make_index cs)" using assms(2) by (intro make_index_valid) (simp add: Cons q)
  from lookups_first [OF this] assms(1) show ?thesis by (simp only: Cons q)
qed simp

theorem lookups_are_first_matches_witness:
  "\<exists>a b c. lookups [([False, False, False], a), ([True, False, False], a), ([True, True, True], a)] (make_index [a, b, c])
     = [Some 0, Some 2, None] \<and> \<not> same_content a b"
proof -
  define a where "a = \<lparr>signature = 0, sc_hash = replicate 16 1, start_offset = 0, chunk_size = 2\<rparr>"
  define b where "b = \<lparr>signature = 0, sc_hash = replicate 16 2, start_offset = 2, chunk_size = 2\<rparr>"
  define c where "c = \<lparr>signature = 0, sc_hash = replicate 16 1, start_offset = 4, chunk_size = 2\<rparr>"
  have "lookups [([False, False, False], a), ([True, False, False], a), ([True, True, True], a)] (make_index [a, b, c])
      = map (\<lambda>(used, p). first_unused [a, b, c] used p)
          [([False, False, False], a), ([True, False, False], a), ([True, True, True], a)]"
    by (rule lookups_are_first_matches) (auto simp: flags_grow_def less_Suc_eq)
  moreover have "\<dots> = [Some 0, Some 2, None]"
    by (simp add: first_unused_def upt_rec same_content_def a_def b_def c_def)
  ultimately show ?thesis by (intro exI [of _ a] exI [of _ b] exI [of _ c]) (simp add: same_content_def a_def b_def)
qed

end
