(* ===== verification/Delta_Gen.thy ===== *)
theory Delta_Gen
  imports Apply_Delta Chunk_Index
begin

text \<open>
  Delta generation (\<^verbatim>\<open>generateImpl\<close> and its helpers in \<^verbatim>\<open>src/src/Delta.hpp\<close>): the check that a
  signature covers its file, the loop over the new chunks, the verification of the old file, and
  the trailer.  A step that reads, hashes or writes returns what it found together with the state
  it leaves, so that exceptions of the hash backend reach the destructor of the transaction.
\<close>

section \<open>Signed chunks of a file\<close>

fun covers_loop :: "SignedChunk list \<Rightarrow> nat \<Rightarrow> nat \<Rightarrow> bool" where
  "covers_loop [] sz covered \<longleftrightarrow> covered = sz"
| "covers_loop (c # cs) sz covered \<longleftrightarrow>
     (if start_offset c \<noteq> covered \<or> chunk_size c = 0 \<or> chunk_size c > DELTA_MAX_CHUNK_SIZE \<or>
         chunk_size c > size_sub sz covered
      then False else covers_loop cs sz (covered + chunk_size c))"

definition coversExactly :: "SignedChunk list \<Rightarrow> nat \<Rightarrow> bool" where
  "coversExactly chunks sz = covers_loop chunks sz 0"

definition readSignedChunk ::
  "'u strong_hash \<Rightarrow> SignedChunk \<Rightarrow> 'u \<Rightarrow> fileio \<Rightarrow> (failure, bytes \<times> 'u, fileio) outcome" where
  "readSignedChunk U chunk hasher f =
     (case read_chunk_at (chunk_size chunk) (start_offset chunk) f of (data, f1) \<Rightarrow>
        if has_error f1 \<or> length data \<noteq> chunk_size chunk
        then (Inl (Failed (delta_error io_err ''Failed to read signed input chunk'')), f1)
        else case sh_hash U (digest_buffer U) data hasher of
            Inl e \<Rightarrow> (Inl (Thrown e), f1)
          | Inr (dig, hasher1) \<Rightarrow>
              (if length (sc_hash chunk) \<noteq> DELTA_DIGEST_BYTES \<or> length dig < DELTA_DIGEST_BYTES \<or>
                  sc_hash chunk \<noteq> take (length (sc_hash chunk)) dig
               then Inl (Failed (delta_error integrity_mismatch ''Input changed since signature generation''))
               else Inr (data, hasher1), f1))"

text \<open>Nothing may follow the last chunk.\<close>

definition at_file_end :: "string \<Rightarrow> fileio \<Rightarrow> (failure, unit, fileio) outcome" where
  "at_file_end msg f =
     (case read_chunk_at 1 (fsize f) f of (data, f1) \<Rightarrow>
        (if data \<noteq> [] \<or> has_error f1 then Inl (Failed (delta_error integrity_mismatch msg)) else Inr (), f1))"

fun verify_chunks ::
  "'u strong_hash \<Rightarrow> SignedChunk list \<Rightarrow> 'u \<Rightarrow> fileio \<Rightarrow> (failure, unit, fileio) outcome" where
  "verify_chunks U [] hasher f = (Inr (), f)"
| "verify_chunks U (c # cs) hasher f =
     proceed (readSignedChunk U c hasher f) (\<lambda>(_, hasher1) f1. verify_chunks U cs hasher1 f1)"

definition verifyOldFile :: "'u strong_hash \<Rightarrow> SignedChunk list \<Rightarrow> fileio \<Rightarrow> (failure, unit, fileio) outcome" where
  "verifyOldFile U original_chunks old =
     (case sh_new U of
        Inl e \<Rightarrow> (Inl (Thrown e), old)
      | Inr hasher \<Rightarrow>
          proceed (verify_chunks U original_chunks hasher old)
            (\<lambda>_ old1. at_file_end ''Old input changed or failed while reading'' old1))"

section \<open>The state of a generation\<close>

record gen_state =
  gs_old :: fileio
  gs_new :: fileio
  gs_writer :: DeltaWriter
  gs_index :: chunk_index
  gs_processed :: nat

text \<open>Write one record and count it.\<close>

definition write_record ::
  "(DeltaWriter \<Rightarrow> bool \<times> DeltaWriter) \<Rightarrow> gen_state \<Rightarrow> (failure, unit, gen_state) outcome" where
  "write_record wr s =
     (case wr (gs_writer s) of
        (True, w) \<Rightarrow> (Inr (), s\<lparr>gs_writer := w, gs_processed := Suc (gs_processed s)\<rparr>)
      | (False, w) \<Rightarrow> (Inl (Failed (delta_error io_err (werror w))), s\<lparr>gs_writer := w\<rparr>))"

text \<open>The old chunk a new one can be copied from: the same position first, then the index.\<close>

definition reuse_source ::
  "SignedChunk list \<Rightarrow> nat \<Rightarrow> SignedChunk \<Rightarrow> chunk_index \<Rightarrow> nat option \<times> chunk_index" where
  "reuse_source original_chunks i chunk ix =
     (if i < length original_chunks \<and> same_content (original_chunks ! i) chunk then (Some i, ix)
      else find_unused (replicate (length original_chunks) False) chunk ix)"

text \<open>A chunk that cannot be copied: a diff against the old chunk of the same position if the whole
  record is smaller than the literal one, else the bytes.\<close>

definition encode_changed ::
  "SignedChunk list \<Rightarrow> nat \<Rightarrow> SignedChunk \<Rightarrow> bytes \<Rightarrow> gen_state \<Rightarrow> (failure, unit, gen_state) outcome" where
  "encode_changed original_chunks i chunk new_data s =
     (if i < length original_chunks
      then case read_chunk_at (chunk_size (original_chunks ! i)) (start_offset (original_chunks ! i)) (gs_old s) of
          (old_data, f) \<Rightarrow>
            let s1 = s\<lparr>gs_old := f\<rparr> in
            if has_error f \<or> length old_data \<noteq> chunk_size (original_chunks ! i)
            then (Inl (Failed (delta_error io_err ''Failed to read old chunk'')), s1)
            else let diff = createDiff old_data new_data in
              if diff \<noteq> [] \<and> modified_size (of_nat i) (length new_data) (length diff) < added_size (length new_data)
              then write_record (write_modified (of_nat i) (of_nat (length new_data)) (sc_hash chunk) diff) s1
              else write_record (write_added (sc_hash chunk) new_data) s1
      else write_record (write_added (sc_hash chunk) new_data) s)"

definition process_chunk ::
  "'u strong_hash \<Rightarrow> SignedChunk list \<Rightarrow> nat \<Rightarrow> SignedChunk \<Rightarrow> 'u \<Rightarrow> gen_state \<Rightarrow> (failure, 'u, gen_state) outcome" where
  "process_chunk U original_chunks i chunk hasher s =
     (case reuse_source original_chunks i chunk (gs_index s) of
        (Some source, ix) \<Rightarrow>
          proceed (write_record (write_original (of_nat source) (sc_hash chunk)) (s\<lparr>gs_index := ix\<rparr>))
            (\<lambda>_ s1. (Inr hasher, s1))
      | (None, ix) \<Rightarrow>
          (case readSignedChunk U chunk hasher (gs_new s) of
             (Inl e, f) \<Rightarrow> (Inl e, s\<lparr>gs_index := ix, gs_new := f\<rparr>)
           | (Inr (new_data, hasher1), f) \<Rightarrow>
               proceed (encode_changed original_chunks i chunk new_data (s\<lparr>gs_index := ix, gs_new := f\<rparr>))
                 (\<lambda>_ s1. (Inr hasher1, s1))))"

fun process_chunks ::
  "'u strong_hash \<Rightarrow> SignedChunk list \<Rightarrow> nat \<Rightarrow> SignedChunk list \<Rightarrow> 'u \<Rightarrow> gen_state \<Rightarrow> (failure, unit, gen_state) outcome" where
  "process_chunks U original_chunks i [] hasher s = (Inr (), s)"
| "process_chunks U original_chunks i (c # cs) hasher s =
     proceed (process_chunk U original_chunks i c hasher s)
       (\<lambda>hasher1 s1. process_chunks U original_chunks (Suc i) cs hasher1 s1)"

definition processMultipleChunks ::
  "'u strong_hash \<Rightarrow> SignedChunk list \<Rightarrow> SignedChunk list \<Rightarrow> gen_state \<Rightarrow> (failure, unit, gen_state) outcome" where
  "processMultipleChunks U original_chunks new_chunks s =
     (case sh_new U of
        Inl e \<Rightarrow> (Inl (Thrown e), s)
      | Inr hasher \<Rightarrow> process_chunks U original_chunks 0 new_chunks hasher s)"

section \<open>The trailer\<close>

fun rehash_chunks ::
  "'u strong_hash \<Rightarrow> SignedChunk list \<Rightarrow> 'u \<Rightarrow> 'u \<Rightarrow> fileio \<Rightarrow> (failure, 'u, fileio) outcome" where
  "rehash_chunks U [] hash_func chunk_hash f = (Inr hash_func, f)"
| "rehash_chunks U (c # cs) hash_func chunk_hash f =
     proceed (readSignedChunk U c chunk_hash f) (\<lambda>(data, chunk_hash1) f1.
       case sh_update U data hash_func of
         Inl e \<Rightarrow> (Inl (Thrown e), f1)
       | Inr hash_func1 \<Rightarrow> rehash_chunks U cs hash_func1 chunk_hash1 f1)"

definition trailer_digest ::
  "'u strong_hash \<Rightarrow> SignedChunk list \<Rightarrow> bytes \<Rightarrow> fileio \<Rightarrow> (failure, bytes, fileio) outcome" where
  "trailer_digest U new_chunks precomputed f =
     (if precomputed \<noteq> [] then (Inr precomputed, f)
      else case bind_sum (sh_new U) (\<lambda>h. bind_sum (sh_new U) (\<lambda>ch. bind_sum (sh_init U h) (\<lambda>h1. Inr (h1, ch)))) of
          Inl e \<Rightarrow> (Inl (Thrown e), f)
        | Inr (hash_func, chunk_hash) \<Rightarrow>
            proceed (rehash_chunks U new_chunks hash_func chunk_hash f) (\<lambda>h f1.
              case sh_finalize U (digest_buffer U) h of
                Inl e \<Rightarrow> (Inl (Thrown e), f1)
              | Inr (dig, _) \<Rightarrow> (Inr dig, f1)))"

definition writeTrailer ::
  "'u strong_hash \<Rightarrow> SignedChunk list \<Rightarrow> bytes \<Rightarrow> gen_state \<Rightarrow> (failure, unit, gen_state) outcome" where
  "writeTrailer U new_chunks precomputed s =
     (case trailer_digest U new_chunks precomputed (gs_new s) of
        (Inl e, f) \<Rightarrow> (Inl e, s\<lparr>gs_new := f\<rparr>)
      | (Inr dig, f) \<Rightarrow>
          (case at_file_end ''New input changed or failed while reading'' f of
             (Inl e, f1) \<Rightarrow> (Inl e, s\<lparr>gs_new := f1\<rparr>)
           | (Inr _, f1) \<Rightarrow>
               (case write_trailer dig (gs_writer s) of
                  (True, w) \<Rightarrow> (Inr (), s\<lparr>gs_new := f1, gs_writer := w\<rparr>)
                | (False, w) \<Rightarrow> (Inl (Failed (delta_error io_err (werror w))), s\<lparr>gs_new := f1, gs_writer := w\<rparr>))))"

section \<open>The whole operation\<close>

text \<open>The records, the check of the old file and the trailer, in the order of the code.\<close>

definition verify_old_state ::
  "'u strong_hash \<Rightarrow> SignedChunk list \<Rightarrow> gen_state \<Rightarrow> (failure, unit, gen_state) outcome" where
  "verify_old_state U original_chunks s =
     (case verifyOldFile U original_chunks (gs_old s) of (r, f) \<Rightarrow> (r, s\<lparr>gs_old := f\<rparr>))"

definition generate_records ::
  "'u strong_hash \<Rightarrow> Signature \<Rightarrow> Signature \<Rightarrow> gen_state \<Rightarrow> (failure, unit, gen_state) outcome" where
  "generate_records U original newfile s =
     proceed (processMultipleChunks U (sg_chunks original) (sg_chunks newfile) s) (\<lambda>_ s1.
     proceed (verify_old_state U (sg_chunks original) s1) (\<lambda>_ s2.
       writeTrailer U (sg_chunks newfile) (sg_whole newfile) s2))"

text \<open>What follows the opening of the output.\<close>

definition generate_opened ::
  "'u strong_hash \<Rightarrow> Signature \<Rightarrow> Signature \<Rightarrow> fileio \<Rightarrow> fileio \<Rightarrow> transaction \<Rightarrow> world \<Rightarrow>
   (failure + DeltaStats) \<times> transaction \<times> world" where
  "generate_opened U original newfile old file1 tx w =
     (if \<not> coversExactly (sg_chunks original) (fsize old) \<or> \<not> coversExactly (sg_chunks newfile) (fsize file1)
      then (Inl (Failed (delta_error integrity_mismatch ''Input size changed since signature generation'')), tx, w)
      else case write_header (new_writer (tx_file tx)) of
          (False, wr) \<Rightarrow> (Inl (Failed (delta_error io_err (werror wr))), tx\<lparr>tx_file := out wr\<rparr>, w)
        | (True, wr) \<Rightarrow>
            (case generate_records U original newfile
                    \<lparr>gs_old = old, gs_new = file1, gs_writer = wr,
                     gs_index = make_index (sg_chunks original), gs_processed = 0\<rparr> of
               (r, s) \<Rightarrow>
                 let tx1 = tx\<lparr>tx_file := out (gs_writer s)\<rparr> in
                 case r of
                   Inl e \<Rightarrow> (Inl e, tx1, w)
                 | Inr _ \<Rightarrow>
                     if \<not> fst (fio_close (gs_old s)) \<or> \<not> fst (fio_close (gs_new s))
                     then (Inl (Failed (delta_error io_err ''Failed to read input files'')), tx1, w)
                     else (case tx_commit tx1 w of
                             (Inl e, tx2, w1) \<Rightarrow> (Inl (Failed e), tx2, w1)
                           | (Inr _, tx2, w1) \<Rightarrow>
                               (Inr \<lparr>ds_chunks_processed = gs_processed s,
                                     ds_bytes_written = bytes_written (gs_writer s)\<rparr>, tx2, w1))))"

definition openFiles ::
  "bool \<Rightarrow> path \<Rightarrow> path \<Rightarrow> world \<Rightarrow> (DeltaError + fileio \<times> fileio) \<times> world" where
  "openFiles nr oldfile file_to_check w =
     (case fio_open nr oldfile IN fio_default w of (old_ok, old, w1) \<Rightarrow>
      if \<not> old_ok then (Inl (delta_error io_err (''Failed to open old file: '' @ oldfile)), w1)
      else case fio_open nr file_to_check IN fio_default w1 of (new_ok, file1, w2) \<Rightarrow>
      if \<not> new_ok then (Inl (delta_error io_err (''Failed to open new file: '' @ file_to_check)), w2)
      else (Inr (old, file1), w2))"

definition generateImpl ::
  "bool \<Rightarrow> 'u strong_hash \<Rightarrow> Signature \<Rightarrow> Signature \<Rightarrow> path \<Rightarrow> path \<Rightarrow> path \<Rightarrow> world \<Rightarrow>
   (failure + DeltaStats) \<times> world" where
  "generateImpl nr U original newfile oldfile file_to_check delta_file w =
     (case openFiles nr oldfile file_to_check w of
        (Inl e, w1) \<Rightarrow> (Inl (Failed e), w1)
      | (Inr (old, file1), w1) \<Rightarrow>
          (case tx_open nr delta_file [oldfile, file_to_check] tx_new w1 of
             (Inl e, tx, w2) \<Rightarrow> (Inl (Failed e), snd (tx_destroy tx w2))
           | (Inr _, tx, w2) \<Rightarrow>
               (case generate_opened U original newfile old file1 tx w2 of
                  (r, tx1, w3) \<Rightarrow> (r, snd (tx_destroy tx1 w3)))))"

definition generate_delta ::
  "bool \<Rightarrow> 'u strong_hash \<Rightarrow> Signature \<Rightarrow> Signature \<Rightarrow> path \<Rightarrow> path \<Rightarrow> path \<Rightarrow> world \<Rightarrow>
   (DeltaError + DeltaStats) \<times> world" where
  "generate_delta nr U original newfile oldfile file_to_check delta_file w =
     (case generateImpl nr U original newfile oldfile file_to_check delta_file w of
        (Inl (Thrown e), w1) \<Rightarrow> (Inl (delta_error internal_error e), w1)
      | (Inl (Failed e), w1) \<Rightarrow> (Inl e, w1)
      | (Inr stats, w1) \<Rightarrow> (Inr stats, w1))"

section \<open>Coverage\<close>

text \<open>The specification of \<open>coversExactly\<close>: the chunks lie end to end from 0 to the size, none is empty
  and none exceeds the format's maximum.\<close>

definition tiling :: "SignedChunk list \<Rightarrow> nat \<Rightarrow> nat \<Rightarrow> bool" where
  "tiling cs sz covered \<longleftrightarrow>
     (\<forall>i < length cs. start_offset (cs ! i) = covered + sum_list (map chunk_size (take i cs)) \<and>
        0 < chunk_size (cs ! i) \<and> chunk_size (cs ! i) \<le> DELTA_MAX_CHUNK_SIZE) \<and>
     covered + sum_list (map chunk_size cs) = sz"

lemma tiling_Cons: "tiling (c # cs) sz covered \<longleftrightarrow>
    start_offset c = covered \<and> 0 < chunk_size c \<and> chunk_size c \<le> DELTA_MAX_CHUNK_SIZE \<and>
    tiling cs sz (covered + chunk_size c)"
  unfolding tiling_def by (auto simp: nth_Cons less_Suc_eq_0_disj add.assoc split: nat.splits)

lemma tiling_le: "tiling cs sz covered \<Longrightarrow> covered \<le> sz"
  by (auto simp: tiling_def)

lemma covers_loop_iff: "covered \<le> sz \<Longrightarrow> covers_loop cs sz covered \<longleftrightarrow> tiling cs sz covered"
proof (induction cs arbitrary: covered)
  case Nil
  then show ?case by (simp add: tiling_def)
next
  case (Cons c cs)
  show ?case
  proof (cases "chunk_size c \<le> sz - covered")
    case True
    then show ?thesis using Cons.prems Cons.IH [of "covered + chunk_size c"] by (auto simp: tiling_Cons)
  next
    case False
    then have "\<not> tiling cs sz (covered + chunk_size c)" using tiling_le by fastforce
    then show ?thesis using False Cons.prems by (simp add: tiling_Cons)
  qed
qed

lemma coversExactly_iff: "coversExactly cs sz \<longleftrightarrow> tiling cs sz 0"
  unfolding coversExactly_def by (rule covers_loop_iff) simp

lemma tiling_chunks:
  assumes "tiling cs sz covered" and "c \<in> set cs"
  shows "start_offset c + chunk_size c \<le> sz" and "0 < chunk_size c" and "chunk_size c \<le> DELTA_MAX_CHUNK_SIZE"
proof -
  have "start_offset c + chunk_size c \<le> sz \<and> 0 < chunk_size c \<and> chunk_size c \<le> DELTA_MAX_CHUNK_SIZE"
    using assms
  proof (induction cs arbitrary: covered)
    case (Cons x cs)
    then show ?case using tiling_le [of cs sz "covered + chunk_size x"] by (auto simp: tiling_Cons)
  qed simp
  then show "start_offset c + chunk_size c \<le> sz" and "0 < chunk_size c" and "chunk_size c \<le> DELTA_MAX_CHUNK_SIZE"
    by simp_all
qed

lemma tiling_bytes: "tiling cs sz covered \<Longrightarrow> length data = sz \<Longrightarrow>
    concat (map (chunk_bytes data) cs) = drop covered data"
proof (induction cs arbitrary: covered)
  case (Cons c cs)
  then have "concat (map (chunk_bytes data) cs) = drop (covered + chunk_size c) data"
    and "start_offset c = covered" by (simp_all add: tiling_Cons)
  moreover from this have "chunk_bytes data c = take (chunk_size c) (drop covered data)"
    by (simp add: chunk_bytes_def)
  ultimately show ?case
    using append_take_drop_id [of "chunk_size c" "drop covered data"] by (simp add: add.commute)
qed (simp add: tiling_def)

lemma tiling_length: "tiling cs sz covered \<Longrightarrow> covered + length cs \<le> sz"
proof (induction cs arbitrary: covered)
  case (Cons c cs)
  then have c: "tiling cs sz (covered + chunk_size c)" "0 < chunk_size c" by (simp_all add: tiling_Cons)
  from Cons.IH [OF c(1)] c(2) show ?case by simp
qed (simp add: tiling_def)

lemma tiling_sign_from:
  "\<forall>c \<in> set cs. 0 < length c \<and> length c \<le> DELTA_MAX_CHUNK_SIZE \<Longrightarrow>
     tiling (sign_from D hv w off cs) (off + length (concat cs)) off"
  by (induction cs arbitrary: off) (simp add: tiling_def, simp add: tiling_Cons add.assoc [symmetric])

lemma sign_tiling: "tiling (sign D data) (length data) 0"
proof -
  have "\<forall>c \<in> set (chunks_of data). 0 < length c \<and> length c \<le> DELTA_MAX_CHUNK_SIZE"
    using chunk_list_sizes [of 48 "rk_value rk_default" data] by (simp add: chunks_of_def DELTA_MAX_CHUNK_SIZE_def)
  from tiling_sign_from [OF this, of D "rk_value rk_default" 48 0] show ?thesis by (simp add: sign_def)
qed

section \<open>Reading signed chunks\<close>

text \<open>The chunk describes bytes of the file: they have its size and its digest.\<close>

definition chunk_matches :: "(bytes \<Rightarrow> bytes) \<Rightarrow> bytes \<Rightarrow> SignedChunk \<Rightarrow> bool" where
  "chunk_matches D data c \<longleftrightarrow> length (chunk_bytes data c) = chunk_size c \<and>
     length (sc_hash c) = DELTA_DIGEST_BYTES \<and> sc_hash c = take DELTA_DIGEST_BYTES (D (chunk_bytes data c))"

lemma sign_matches:
  assumes "c \<in> set (sign D data)" and "\<And>m. DELTA_DIGEST_BYTES \<le> length (D m)"
  shows "chunk_matches D data c"
proof -
  obtain i where i: "i < length (sign D data)" "c = sign D data ! i" using assms(1) by (auto simp: in_set_conv_nth)
  have i': "i < length (chunks_of data)" using i(1) by (simp add: sign_def)
  have "map (chunk_bytes data) (sign D data) = chunks_of data"
    using sign_from_bytes [of "[]" "chunks_of data" D "rk_value rk_default" 48] by (simp add: sign_def)
  then have b: "chunk_bytes data c = chunks_of data ! i" using nth_map [OF i(1), of "chunk_bytes data"] i(2) by simp
  have "start_offset c + chunk_size c \<le> length data" by (rule tiling_chunks(1) [OF sign_tiling assms(1)])
  moreover have "sc_hash c = take DELTA_DIGEST_BYTES (D (chunk_bytes data c))"
    unfolding b using sign_from_nth [OF i', of D "rk_value rk_default" 48 0] i(2) by (simp add: sign_def)
  ultimately show ?thesis using assms(2) by (simp add: chunk_matches_def chunk_bytes_def)
qed

lemma read_at_sound:
  assumes "read_chunk_at (chunk_size c) (start_offset c) f = (d, f')" and "reading f"
  shows "reading f'" and "st_data (strm f') = st_data (strm f)" and "fsize f' = fsize f"
    and "\<not> io_error f' \<Longrightarrow> d = chunk_bytes (st_data (strm f)) c"
proof -
  have "reading f' \<and> st_data (strm f') = st_data (strm f) \<and> fsize f' = fsize f \<and>
      (\<not> io_error f' \<longrightarrow> d = chunk_bytes (st_data (strm f)) c)"
  proof (cases "start_offset c \<le> STREAMOFF_MAX")
    case True
    from read_chunk_at_delivers [OF assms this] show ?thesis by (auto simp: delivers_def chunk_bytes_def)
  next
    case False
    moreover have "fsize f' = fsize f"
      using False assms by (auto simp: read_chunk_at_def Let_def discard_read_buffer_def split: if_splits)
    ultimately show ?thesis using read_chunk_at_far [OF _ assms] by simp
  qed
  then show "reading f'" and "st_data (strm f') = st_data (strm f)" and "fsize f' = fsize f"
    and "\<not> io_error f' \<Longrightarrow> d = chunk_bytes (st_data (strm f)) c" by simp_all
qed

lemma readSignedChunk_sound:
  assumes "readSignedChunk U c h f = (r, f')" and "reading f" and "strong_hash_sound U D msg"
  shows "reading f'" and "st_data (strm f') = st_data (strm f)" and "fsize f' = fsize f"
    and "r = Inr (bs, h') \<Longrightarrow> bs = chunk_bytes (st_data (strm f)) c \<and> chunk_matches D (st_data (strm f)) c"
proof -
  obtain d f1 where rd: "read_chunk_at (chunk_size c) (start_offset c) f = (d, f1)" by fastforce
  have f': "f' = f1" using assms(1) rd by (auto simp: readSignedChunk_def split: if_splits sum.splits)
  note ra = read_at_sound [OF rd assms(2)]
  show "reading f'" and "st_data (strm f') = st_data (strm f)" and "fsize f' = fsize f" using ra f' by simp_all
  assume r: "r = Inr (bs, h')"
  then obtain dg where dg: "sh_hash U (digest_buffer U) d h = Inr (dg, h')" "\<not> io_error f1" "length d = chunk_size c"
      "bs = d" "length (sc_hash c) = DELTA_DIGEST_BYTES" "sc_hash c = take DELTA_DIGEST_BYTES dg"
    using assms(1) rd by (auto simp: readSignedChunk_def has_error_def split: if_splits sum.splits)
  have "dg = D d" by (rule strong_hash_soundD(5) [OF assms(3) dg(1)])
  then show "bs = chunk_bytes (st_data (strm f)) c \<and> chunk_matches D (st_data (strm f)) c"
    using ra(4) dg by (auto simp: chunk_matches_def)
qed

lemma verify_chunks_sound:
  assumes "verify_chunks U cs h f = (r, f')" and "reading f" and "strong_hash_sound U D msg"
  shows "reading f' \<and> st_data (strm f') = st_data (strm f) \<and> fsize f' = fsize f \<and>
    (r = Inr u \<longrightarrow> (\<forall>c \<in> set cs. chunk_matches D (st_data (strm f)) c))"
  using assms(1,2)
proof (induction cs arbitrary: h f)
  case (Cons c cs)
  obtain x f1 where x: "readSignedChunk U c h f = (x, f1)" by fastforce
  note rs = readSignedChunk_sound [OF x Cons.prems(2) assms(3)]
  show ?case
  proof (cases x)
    case (Inl e)
    then show ?thesis using Cons.prems(1) x rs by auto
  next
    case (Inr p)
    obtain bs h1 where p: "p = (bs, h1)" by fastforce
    have "verify_chunks U cs h1 f1 = (r, f')" using Cons.prems(1) x Inr p by simp
    from Cons.IH [OF this rs(1)] rs Inr p show ?thesis by auto
  qed
qed simp

lemma at_file_end_sound:
  assumes "at_file_end msg f = (r, f')" and "reading f"
  shows "reading f'" and "st_data (strm f') = st_data (strm f)" and "fsize f' = fsize f"
    and "r = Inr u \<Longrightarrow> length (st_data (strm f)) \<le> fsize f"
proof -
  define c where "c = \<lparr>signature = 0, sc_hash = [], start_offset = fsize f, chunk_size = 1\<rparr>"
  obtain d f1 where rd: "read_chunk_at (chunk_size c) (start_offset c) f = (d, f1)" by fastforce
  note ra = read_at_sound [OF rd assms(2)]
  have f': "f' = f1" and r: "r = Inr u \<Longrightarrow> d = [] \<and> \<not> io_error f1"
    using assms(1) rd by (auto simp: at_file_end_def c_def has_error_def split: if_splits)
  show "reading f'" and "st_data (strm f') = st_data (strm f)" and "fsize f' = fsize f" using ra f' by simp_all
  show "r = Inr u \<Longrightarrow> length (st_data (strm f)) \<le> fsize f"
    using r ra(4) by (auto simp: c_def chunk_bytes_def)
qed


section \<open>What is emitted for a chunk\<close>

text \<open>The entry chosen for the new chunk at position \<open>i\<close>, and the bytes it stands for: content the old
  file has is copied; other content is shipped, or rebuilt from the old chunk of the same position
  when that makes the record smaller.\<close>

inductive gen_entry ::
  "(bytes \<Rightarrow> bytes) \<Rightarrow> bytes \<Rightarrow> bytes \<Rightarrow> SignedChunk list \<Rightarrow> nat \<Rightarrow> SignedChunk \<Rightarrow> delta_entry \<Rightarrow> bytes \<Rightarrow> bool"
  for D old new ocs where
  Reuse: "j < length ocs \<Longrightarrow> same_content (ocs ! j) c \<Longrightarrow>
    gen_entry D old new ocs i c (OriginalE (of_nat j) (sc_hash c)) (chunk_bytes old (ocs ! j))"
| Literal: "\<forall>j < length ocs. \<not> same_content (ocs ! j) c \<Longrightarrow> chunk_matches D new c \<Longrightarrow>
    gen_entry D old new ocs i c (AddedE (sc_hash c) (chunk_bytes new c)) (chunk_bytes new c)"
| Diff: "\<forall>j < length ocs. \<not> same_content (ocs ! j) c \<Longrightarrow> chunk_matches D new c \<Longrightarrow> i < length ocs \<Longrightarrow>
    length (chunk_bytes old (ocs ! i)) = chunk_size (ocs ! i) \<Longrightarrow>
    diff = createDiff (chunk_bytes old (ocs ! i)) (chunk_bytes new c) \<Longrightarrow> diff \<noteq> [] \<Longrightarrow>
    e = ModifiedE (of_nat i) (of_nat (length (chunk_bytes new c))) (sc_hash c) diff \<Longrightarrow>
    length (encode_entry e) < length (encode_entry (AddedE (sc_hash c) (chunk_bytes new c))) \<Longrightarrow>
    gen_entry D old new ocs i c e (chunk_bytes new c)"

inductive_cases gen_entryE: "gen_entry D old new ocs i c e p"

definition gen_inv :: "bytes \<Rightarrow> bytes \<Rightarrow> SignedChunk list \<Rightarrow> gen_state \<Rightarrow> bool" where
  "gen_inv old new ocs s \<longleftrightarrow> reading (gs_old s) \<and> st_data (strm (gs_old s)) = old \<and> reading (gs_new s) \<and>
     st_data (strm (gs_new s)) = new \<and> writing (out (gs_writer s)) \<and>
     index_valid ocs (replicate (length ocs) False) (gs_index s) \<and>
     bytes_written (gs_writer s) = length (written (out (gs_writer s)))"

definition gs_written :: "gen_state \<Rightarrow> bytes" where
  "gs_written s = written (out (gs_writer s))"

lemma write_record_sound:
  assumes "write_record (write_entry e) s = (Inr u, s')" and "gen_inv old new ocs s"
  shows "gen_inv old new ocs s'" and "gs_written s' = gs_written s @ encode_entry e"
    and "gs_processed s' = Suc (gs_processed s)" and "length (entry_digest e) = DELTA_DIGEST_BYTES"
    and "gs_old s' = gs_old s" and "gs_new s' = gs_new s"
proof -
  have inv: "writing (out (gs_writer s))" using assms(2) by (simp add: gen_inv_def)
  obtain ok w where w: "write_entry e (gs_writer s) = (ok, w)" by fastforce
  have ok: ok and s': "s' = s\<lparr>gs_writer := w, gs_processed := Suc (gs_processed s)\<rparr>"
    using assms(1) w by (auto simp: write_record_def split: bool.splits)
  note wa = write_entry_appends(1,2) [OF w inv]
  show "gen_inv old new ocs s'" and "gs_written s' = gs_written s @ encode_entry e"
    and "gs_processed s' = Suc (gs_processed s)" and "length (entry_digest e) = DELTA_DIGEST_BYTES"
    and "gs_old s' = gs_old s" and "gs_new s' = gs_new s"
    using wa(1) wa(2) [OF \<open>ok\<close>] assms(2) s' by (simp_all add: gen_inv_def gs_written_def)
qed

lemma write_forms:
  "write_original j d = write_entry (OriginalE j d)" "write_added d p = write_entry (AddedE d p)"
  "write_modified j n d ops = write_entry (ModifiedE j n d ops)"
  by simp_all

lemma entry_lengths:
  assumes "length d = DELTA_DIGEST_BYTES"
  shows "length (encode_entry (AddedE d p)) = added_size (length p)"
    and "length (encode_entry (ModifiedE j (of_nat n) d ops)) = modified_size j n (length ops)"
  using assms by (simp_all add: length_record_head added_size_def modified_size_def)

lemma encode_changed_sound:
  assumes "encode_changed ocs i c bs s = (Inr u, s')" and "gen_inv old new ocs s"
    and "bs = chunk_bytes new c" and "chunk_matches D new c" and "\<forall>j < length ocs. \<not> same_content (ocs ! j) c"
  shows "gen_inv old new ocs s' \<and> gs_processed s' = Suc (gs_processed s) \<and>
    (\<exists>e p. gen_entry D old new ocs i c e p \<and> gs_written s' = gs_written s @ encode_entry e)"
proof (cases "i < length ocs")
  case False
  then have w: "write_record (write_entry (AddedE (sc_hash c) bs)) s = (Inr u, s')"
    using assms(1) by (simp add: encode_changed_def write_forms del: write_entry.simps)
  from write_record_sound [OF w assms(2)] Literal [OF assms(5,4), of old i] assms(3) show ?thesis by blast
next
  case True
  obtain od f where rd: "read_chunk_at (chunk_size (ocs ! i)) (start_offset (ocs ! i)) (gs_old s) = (od, f)" by fastforce
  have inv: "reading (gs_old s)" "st_data (strm (gs_old s)) = old" using assms(2) by (simp_all add: gen_inv_def)
  note ra = read_at_sound [OF rd inv(1)]
  define s1 where "s1 = s\<lparr>gs_old := f\<rparr>"
  define diff where "diff = createDiff od bs"
  have i1: "gen_inv old new ocs s1" using assms(2) ra inv(2) by (simp add: gen_inv_def s1_def)
  have ok: "\<not> io_error f" "length od = chunk_size (ocs ! i)"
    using assms(1) True rd by (auto simp: encode_changed_def Let_def has_error_def split: if_splits)
  have od: "od = chunk_bytes old (ocs ! i)" using ra(4) ok(1) inv(2) by simp
  have s1: "gs_written s1 = gs_written s" "gs_processed s1 = gs_processed s" by (simp_all add: s1_def gs_written_def)
  have len: "length (sc_hash c) = DELTA_DIGEST_BYTES" using assms(4) unfolding chunk_matches_def by blast
  show ?thesis
  proof (cases "diff \<noteq> [] \<and> modified_size (of_nat i) (length bs) (length diff) < added_size (length bs)")
    case small: True
    let ?e = "ModifiedE (of_nat i) (of_nat (length bs)) (sc_hash c) diff"
    have w: "write_record (write_entry ?e) s1 = (Inr u, s')"
      using assms(1) True rd ok small
      by (simp add: encode_changed_def Let_def has_error_def write_forms s1_def [symmetric] diff_def [symmetric]
          del: write_entry.simps)
    have "gen_entry D old new ocs i c ?e (chunk_bytes new c)"
    proof (rule Diff)
      show "length (encode_entry ?e) < length (encode_entry (AddedE (sc_hash c) (chunk_bytes new c)))"
        unfolding entry_lengths [OF len] using small assms(3) by simp
    qed (use assms(3-5) True ok(2) small od in \<open>simp_all add: diff_def\<close>)
    with write_record_sound [OF w i1] s1 show ?thesis by metis
  next
    case False
    have w: "write_record (write_entry (AddedE (sc_hash c) bs)) s1 = (Inr u, s')"
      using assms(1) True rd ok False
      by (auto simp: encode_changed_def Let_def has_error_def write_forms s1_def [symmetric] diff_def [symmetric]
          simp del: write_entry.simps)
    from write_record_sound [OF w i1] s1 Literal [OF assms(5,4), of old i] assms(3) show ?thesis by metis
  qed
qed

lemma reuse_source_sound:
  assumes "reuse_source ocs i c ix = (r, ix')" and "index_valid ocs (replicate (length ocs) False) ix"
  shows "index_valid ocs (replicate (length ocs) False) ix'"
    and "r = Some j \<Longrightarrow> j < length ocs \<and> same_content (ocs ! j) c"
    and "r = None \<Longrightarrow> \<forall>j < length ocs. \<not> same_content (ocs ! j) c"
proof -
  obtain x ix1 where f: "find_unused (replicate (length ocs) False) c ix = (x, ix1)" by fastforce
  have some: "x = Some k \<Longrightarrow> k < length ocs \<and> same_content (ocs ! k) c" for k
    using index.find_some [OF assms(2), of c k ix1] f by blast
  have none: "x = None \<Longrightarrow> \<forall>j < length ocs. \<not> same_content (ocs ! j) c"
    using index.find_none [OF assms(2), of c ix1] f by auto
  show "index_valid ocs (replicate (length ocs) False) ix'"
    and "r = Some j \<Longrightarrow> j < length ocs \<and> same_content (ocs ! j) c"
    and "r = None \<Longrightarrow> \<forall>j < length ocs. \<not> same_content (ocs ! j) c"
    using assms f index.find_valid [OF assms(2) f] some [of j] none by (auto simp: reuse_source_def split: if_splits)
qed

lemma process_chunk_sound:
  assumes "process_chunk U ocs i c h s = (Inr h', s')" and "gen_inv old new ocs s" and "strong_hash_sound U D msg"
  shows "gen_inv old new ocs s' \<and> gs_processed s' = Suc (gs_processed s) \<and>
    (\<exists>e p. gen_entry D old new ocs i c e p \<and> gs_written s' = gs_written s @ encode_entry e)"
proof -
  obtain r ix where src: "reuse_source ocs i c (gs_index s) = (r, ix)" by fastforce
  have ix: "index_valid ocs (replicate (length ocs) False) (gs_index s)" using assms(2) by (simp add: gen_inv_def)
  note rs = reuse_source_sound [OF src ix]
  have i1: "gen_inv old new ocs (s\<lparr>gs_index := ix\<rparr>)" using assms(2) rs(1) by (simp add: gen_inv_def)
  show ?thesis
  proof (cases r)
    case (Some j)
    obtain u where w: "write_record (write_entry (OriginalE (of_nat j) (sc_hash c))) (s\<lparr>gs_index := ix\<rparr>) = (Inr u, s')"
      using assms(1) src Some by (auto simp: process_chunk_def proceed_Inr write_forms simp del: write_entry.simps)
    have e: "gen_entry D old new ocs i c (OriginalE (of_nat j) (sc_hash c)) (chunk_bytes old (ocs ! j))"
      by (rule Reuse [OF conjunct1 [OF rs(2) [OF Some]] conjunct2 [OF rs(2) [OF Some]]])
    have "gs_written (s\<lparr>gs_index := ix\<rparr>) = gs_written s" "gs_processed (s\<lparr>gs_index := ix\<rparr>) = gs_processed s"
      by (simp_all add: gs_written_def)
    with write_record_sound [OF w i1] e show ?thesis by metis
  next
    case None
    obtain x f where rd: "readSignedChunk U c h (gs_new s) = (x, f)" by fastforce
    obtain bs h1 where x: "x = Inr (bs, h1)" using assms(1) src None rd
      by (cases x) (auto simp: process_chunk_def)
    have inv: "reading (gs_new s)" "st_data (strm (gs_new s)) = new" using assms(2) by (simp_all add: gen_inv_def)
    note ra = readSignedChunk_sound [OF rd inv(1) assms(3)]
    have i2: "gen_inv old new ocs (s\<lparr>gs_index := ix, gs_new := f\<rparr>)" using i1 ra(1,2) inv(2) by (simp add: gen_inv_def)
    obtain u where e: "encode_changed ocs i c bs (s\<lparr>gs_index := ix, gs_new := f\<rparr>) = (Inr u, s')"
      using assms(1) src None rd x by (auto simp: process_chunk_def proceed_Inr)
    from encode_changed_sound [OF e i2 _ _ rs(3) [OF None], of D] ra(4) [OF x] inv(2)
    show ?thesis by (simp add: gs_written_def)
  qed
qed

text \<open>All chunks: one entry each, in order.\<close>

inductive gen_entries ::
  "(bytes \<Rightarrow> bytes) \<Rightarrow> bytes \<Rightarrow> bytes \<Rightarrow> SignedChunk list \<Rightarrow> nat \<Rightarrow> SignedChunk list \<Rightarrow> delta_entry list \<Rightarrow> bytes list \<Rightarrow> bool"
  for D old new ocs where
  Nil: "gen_entries D old new ocs i [] [] []"
| Cons: "gen_entry D old new ocs i c e p \<Longrightarrow> gen_entries D old new ocs (Suc i) cs es ps \<Longrightarrow>
    gen_entries D old new ocs i (c # cs) (e # es) (p # ps)"

lemma process_chunks_sound:
  assumes "process_chunks U ocs i cs h s = (Inr u, s')" and "gen_inv old new ocs s" and "strong_hash_sound U D msg"
  shows "gen_inv old new ocs s' \<and> gs_processed s' = gs_processed s + length cs \<and>
    (\<exists>es ps. gen_entries D old new ocs i cs es ps \<and> gs_written s' = gs_written s @ concat (map encode_entry es))"
  using assms(1,2)
proof (induction cs arbitrary: i h s)
  case Nil
  then show ?case by (auto intro!: exI [of _ "[]"] gen_entries.Nil)
next
  case (Cons c cs)
  obtain h1 s1 where 1: "process_chunk U ocs i c h s = (Inr h1, s1)"
      and 2: "process_chunks U ocs (Suc i) cs h1 s1 = (Inr u, s')"
    using Cons.prems(1) by (auto simp: proceed_Inr)
  note p1 = process_chunk_sound [OF 1 Cons.prems(2) assms(3)]
  note ih = Cons.IH [OF 2 conjunct1 [OF p1]]
  obtain e p where e: "gen_entry D old new ocs i c e p" "gs_written s1 = gs_written s @ encode_entry e" using p1 by blast
  obtain es ps where es: "gen_entries D old new ocs (Suc i) cs es ps"
      "gs_written s' = gs_written s1 @ concat (map encode_entry es)" using ih by blast
  show ?case using p1 ih gen_entries.Cons [OF e(1) es(1)] e(2) es(2)
    by (intro conjI exI [of _ "e # es"] exI [of _ "p # ps"]) simp_all
qed

section \<open>What is emitted stands for the new chunks\<close>

lemma gen_entry_output:
  assumes "gen_entry D old new ocs i c e p" and "\<forall>x \<in> set ocs. chunk_matches D old x \<and> chunk_size x \<le> DELTA_MAX_CHUNK_SIZE"
    and "length ocs < 2 ^ 64" and "chunk_size c \<le> DELTA_MAX_CHUNK_SIZE" and "i < 2 ^ 64"
  shows "entry_output D old ocs e p"
  using assms(1)
proof cases
  case (Reuse j)
  then have "j < 2 ^ 64" using assms(3) by simp
  then have "unat (of_nat j :: u64) = j" by (rule unat_u64_of_nat)
  then show ?thesis
    using entry_output.Original [of "of_nat j" ocs "sc_hash c" D old] Reuse by (simp add: same_content_def)
next
  case Literal
  then have "length (chunk_bytes new c) \<le> DELTA_MAX_CHUNK_SIZE" "sc_hash c = take DELTA_DIGEST_BYTES (D p)"
    using assms(4) by (auto simp: chunk_matches_def)
  then show ?thesis using entry_output.Added Literal by metis
next
  case (Diff diff)
  have n: "length p \<le> DELTA_MAX_CHUNK_SIZE" "sc_hash c = take DELTA_DIGEST_BYTES (D p)"
    using Diff assms(4) by (auto simp: chunk_matches_def)
  have o: "length (chunk_bytes old (ocs ! i)) \<le> DELTA_MAX_CHUNK_SIZE"
    using Diff assms(2) by simp
  have "emits (chunk_bytes old (ocs ! i)) p [] diff (0, 0) (length (chunk_bytes old (ocs ! i)), length p)"
    unfolding \<open>diff = _\<close> \<open>p = _\<close>
    by (rule createDiff_emits) (use n o \<open>p = _\<close> in \<open>simp_all add: DELTA_MAX_CHUNK_SIZE_def\<close>)
  then obtain cs st where cs: "diff = encode_opcodes cs" "\<forall>c \<in> set cs. valid_opcode c"
      "apply_opcodes (chunk_bytes old (ocs ! i)) (length p) cs diff_start = Inr st"
      "diff_tail (chunk_bytes old (ocs ! i)) (length p) st = Inr p"
    by (rule emits_applies)
  have u: "unat (of_nat i :: u64) = i" "unat (of_nat (length p) :: u64) = length p"
    using assms(5) n(1) by (auto intro!: unat_u64_of_nat simp: DELTA_MAX_CHUNK_SIZE_def)
  show ?thesis
    using entry_output.Modified [of "of_nat i" ocs "of_nat (length p)" cs old st p D "sc_hash c"] cs n Diff u by auto
qed

lemma gen_entries_output:
  assumes "gen_entries D old new ocs i cs es ps" and "\<forall>x \<in> set ocs. chunk_matches D old x \<and> chunk_size x \<le> DELTA_MAX_CHUNK_SIZE"
    and "length ocs < 2 ^ 64" and "\<forall>c \<in> set cs. chunk_size c \<le> DELTA_MAX_CHUNK_SIZE" and "i + length cs < 2 ^ 64"
  shows "list_all2 (entry_output D old ocs) es ps \<and> length es = length cs"
  using assms(1,4,5)
proof (induction rule: gen_entries.induct)
  case (Cons i c e p cs es ps)
  then show ?case using gen_entry_output [OF Cons.hyps(1) assms(2,3)] by simp
qed simp

text \<open>Equal content of the signatures means equal bytes: what the deduplication by digest relies on.\<close>

definition no_collision :: "bytes \<Rightarrow> bytes \<Rightarrow> SignedChunk list \<Rightarrow> SignedChunk list \<Rightarrow> bool" where
  "no_collision old new ocs ncs \<longleftrightarrow>
     (\<forall>a \<in> set ocs. \<forall>b \<in> set ncs. same_content a b \<longrightarrow> chunk_bytes old a = chunk_bytes new b)"

lemma gen_entries_bytes:
  assumes "gen_entries D old new ocs i cs es ps" and "no_collision old new ocs cs"
  shows "ps = map (chunk_bytes new) cs"
  using assms
proof (induction rule: gen_entries.induct)
  case (Cons i c e p cs es ps)
  have "p = chunk_bytes new c"
    using Cons.hyps(1) Cons.prems by (cases rule: gen_entry.cases) (auto simp: no_collision_def)
  then show ?case using Cons by (simp add: no_collision_def)
qed simp

section \<open>The trailer\<close>

lemma rehash_chunks_sound:
  assumes "rehash_chunks U cs h ch f = (r, f')" and "reading f" and "strong_hash_sound U D msg" and "msg h = Some m"
  shows "reading f' \<and> st_data (strm f') = st_data (strm f) \<and>
    (r = Inr h' \<longrightarrow> msg h' = Some (m @ concat (map (chunk_bytes (st_data (strm f))) cs)) \<and>
       (\<forall>c \<in> set cs. chunk_matches D (st_data (strm f)) c))"
  using assms(1,2,4)
proof (induction cs arbitrary: h ch f m)
  case (Cons c cs)
  obtain x f1 where x: "readSignedChunk U c ch f = (x, f1)" by fastforce
  note rs = readSignedChunk_sound [OF x Cons.prems(2) assms(3)]
  show ?case
  proof (cases x)
    case (Inl e)
    then show ?thesis using Cons.prems(1) x rs by auto
  next
    case (Inr p)
    obtain bs ch1 where p: "p = (bs, ch1)" by fastforce
    show ?thesis
    proof (cases "sh_update U bs h")
      case Inl
      then show ?thesis using Cons.prems(1) x rs Inr p by auto
    next
      case h1: (Inr h1)
      have "msg h1 = Some (m @ bs)" by (rule strong_hash_soundD(3) [OF assms(3) Cons.prems(3) h1])
      moreover have "rehash_chunks U cs h1 ch1 f1 = (r, f')" using Cons.prems(1) x Inr p h1 by simp
      ultimately show ?thesis using Cons.IH [of h1 ch1 f1 "m @ bs"] rs Inr p by simp
    qed
  qed
qed auto

lemma trailer_digest_sound:
  assumes "trailer_digest U cs pre f = (r, f')" and "reading f" and "strong_hash_sound U D msg"
  shows "reading f'" and "st_data (strm f') = st_data (strm f)"
    and "r = Inr dig \<Longrightarrow> (if pre \<noteq> [] then dig = pre
      else dig = D (concat (map (chunk_bytes (st_data (strm f))) cs)) \<and> (\<forall>c \<in> set cs. chunk_matches D (st_data (strm f)) c))"
proof -
  have "reading f' \<and> st_data (strm f') = st_data (strm f) \<and> (r = Inr dig \<longrightarrow> (if pre \<noteq> [] then dig = pre
      else dig = D (concat (map (chunk_bytes (st_data (strm f))) cs)) \<and> (\<forall>c \<in> set cs. chunk_matches D (st_data (strm f)) c)))"
    (is ?goal)
  proof (cases "pre \<noteq> []")
    case True
    then show ?thesis using assms(1,2) by (auto simp: trailer_digest_def)
  next
    case False
    define ini where "ini = bind_sum (sh_new U) (\<lambda>h. bind_sum (sh_new U) (\<lambda>ch. bind_sum (sh_init U h) (\<lambda>h1. Inr (h1, ch))))"
    show ?thesis
    proof (cases ini)
      case (Inl e)
      then show ?thesis using assms(1,2) False by (auto simp: trailer_digest_def ini_def)
    next
      case (Inr hp)
      obtain h ch where hp: "hp = (h, ch)" by fastforce
      have "msg h = Some []"
        using Inr hp strong_hash_soundD(2) [OF assms(3)] unfolding ini_def by (auto simp: bind_sum_Inr)
      moreover obtain x f1 where x: "rehash_chunks U cs h ch f = (x, f1)" by fastforce
      ultimately have rh: "reading f1 \<and> st_data (strm f1) = st_data (strm f) \<and>
          (x = Inr h' \<longrightarrow> msg h' = Some (concat (map (chunk_bytes (st_data (strm f))) cs)) \<and>
             (\<forall>c \<in> set cs. chunk_matches D (st_data (strm f)) c))" for h'
        using rehash_chunks_sound [OF x assms(2,3)] by simp
      show ?thesis
      proof (cases x)
        case (Inl e)
        then show ?thesis using assms(1) False Inr hp x rh by (auto simp: trailer_digest_def ini_def)
      next
        case h': (Inr h')
        have td: "(r, f') = (case sh_finalize U (digest_buffer U) h' of
            Inl e \<Rightarrow> (Inl (Thrown e), f1) | Inr (dig, _) \<Rightarrow> (Inr dig, f1))"
          using assms(1) False Inr hp x h' by (simp add: trailer_digest_def ini_def)
        then show ?thesis
          using False rh h' strong_hash_soundD(4) [OF assms(3), of h'] by (auto split: sum.splits)
      qed
    qed
  qed
  then show "reading f'" and "st_data (strm f') = st_data (strm f)" and "r = Inr dig \<Longrightarrow> (if pre \<noteq> [] then dig = pre
      else dig = D (concat (map (chunk_bytes (st_data (strm f))) cs)) \<and> (\<forall>c \<in> set cs. chunk_matches D (st_data (strm f)) c))"
    by simp_all
qed

lemma write_trailer_appends:
  assumes "write_trailer dig w = (ok, w')" and "writing (out w)"
  shows "writing (out w')"
    and "ok \<Longrightarrow> written (out w') = written (out w) @ DELTA_TRAILER_TAG # dig \<and>
           bytes_written w' = bytes_written w + Suc (length dig)"
    and "healthy_out (out w) \<Longrightarrow> length dig \<le> STREAMOFF_MAX \<Longrightarrow> ok \<and> healthy_out (out w')"
proof -
  obtain b w1 where e: "emit [DELTA_TRAILER_TAG] ''delta trailer'' w = (b, w1)" by fastforce
  note e1 = emit_appends [OF e assms(2)]
  have "length [DELTA_TRAILER_TAG] \<le> STREAMOFF_MAX" by (simp add: STREAMOFF_MAX_def)
  then show "writing (out w')"
    and "ok \<Longrightarrow> written (out w') = written (out w) @ DELTA_TRAILER_TAG # dig \<and>
           bytes_written w' = bytes_written w + Suc (length dig)"
    and "healthy_out (out w) \<Longrightarrow> length dig \<le> STREAMOFF_MAX \<Longrightarrow> ok \<and> healthy_out (out w')"
    using assms(1) e e1 emit_appends [of dig "''delta trailer''" w1 ok w']
    by (auto simp: write_trailer_def and_then_def split: bool.splits)
qed

text \<open>The digest in the trailer: the one of the signature, or the one of the chunks read again.\<close>

definition trailer_ok :: "(bytes \<Rightarrow> bytes) \<Rightarrow> bytes \<Rightarrow> SignedChunk list \<Rightarrow> bytes \<Rightarrow> bytes \<Rightarrow> bool" where
  "trailer_ok D new ncs pre dig \<longleftrightarrow> (if pre \<noteq> [] then dig = pre
     else dig = D (concat (map (chunk_bytes new) ncs)) \<and> (\<forall>c \<in> set ncs. chunk_matches D new c))"

lemma writeTrailer_sound:
  assumes "writeTrailer U cs pre s = (Inr u, s')" and "gen_inv old new ocs s" and "strong_hash_sound U D msg"
  shows "\<exists>dig. trailer_ok D new cs pre dig \<and> gs_written s' = gs_written s @ DELTA_TRAILER_TAG # dig"
    and "gen_inv old new ocs s'" and "gs_processed s' = gs_processed s"
proof -
  have inv: "reading (gs_new s)" "st_data (strm (gs_new s)) = new" "writing (out (gs_writer s))"
      "bytes_written (gs_writer s) = length (written (out (gs_writer s)))"
    using assms(2) by (simp_all add: gen_inv_def)
  obtain x f where x: "trailer_digest U cs pre (gs_new s) = (x, f)" by fastforce
  obtain dig where d: "x = Inr dig" using assms(1) x by (cases x) (simp_all add: writeTrailer_def)
  note td = trailer_digest_sound [OF x inv(1) assms(3)]
  obtain y f1 where y: "at_file_end ''New input changed or failed while reading'' f = (y, f1)" by fastforce
  obtain v where v: "y = Inr v" using assms(1) x d y by (cases y) (simp_all add: writeTrailer_def)
  note fe = at_file_end_sound [OF y td(1)]
  obtain ok w where w: "write_trailer dig (gs_writer s) = (ok, w)" by fastforce
  have ok: ok and s': "s' = s\<lparr>gs_new := f1, gs_writer := w\<rparr>"
    using assms(1) x d y v w by (auto simp: writeTrailer_def split: bool.splits)
  note wa = write_trailer_appends [OF w inv(3)]
  show "\<exists>dig. trailer_ok D new cs pre dig \<and> gs_written s' = gs_written s @ DELTA_TRAILER_TAG # dig"
    using td(3) [OF d] inv(2) wa(2) [OF ok] s' by (auto simp: trailer_ok_def gs_written_def)
  show "gen_inv old new ocs s'"
    using assms(2) fe td inv wa(1) wa(2) [OF ok] s' by (simp add: gen_inv_def)
  show "gs_processed s' = gs_processed s" using s' by simp
qed

section \<open>From the paths to the disk\<close>

lemma verifyOldFile_sound:
  assumes "verifyOldFile U ocs f = (r, f')" and "reading f" and "strong_hash_sound U D msg"
  shows "reading f'" and "st_data (strm f') = st_data (strm f)"
    and "r = Inr u \<Longrightarrow> \<forall>c \<in> set ocs. chunk_matches D (st_data (strm f)) c"
proof -
  have "reading f' \<and> st_data (strm f') = st_data (strm f) \<and>
      (r = Inr u \<longrightarrow> (\<forall>c \<in> set ocs. chunk_matches D (st_data (strm f)) c))"
  proof (cases "sh_new U")
    case Inl
    then show ?thesis using assms(1,2) by (auto simp: verifyOldFile_def)
  next
    case (Inr h)
    obtain x f1 where x: "verify_chunks U ocs h f = (x, f1)" by fastforce
    note vc = verify_chunks_sound [OF x assms(2,3)]
    show ?thesis
    proof (cases x)
      case Inl
      then show ?thesis using assms(1) Inr x vc by (auto simp: verifyOldFile_def)
    next
      case ok: (Inr v)
      have "at_file_end ''Old input changed or failed while reading'' f1 = (r, f')"
        using assms(1) Inr x ok by (simp add: verifyOldFile_def)
      from at_file_end_sound [OF this] vc ok show ?thesis by auto
    qed
  qed
  then show "reading f'" and "st_data (strm f') = st_data (strm f)"
    and "r = Inr u \<Longrightarrow> \<forall>c \<in> set ocs. chunk_matches D (st_data (strm f)) c" by simp_all
qed

lemma generate_records_sound:
  assumes "generate_records U og nf s = (Inr u, s')" and "gen_inv old new (sg_chunks og) s" and "strong_hash_sound U D msg"
  shows "\<exists>es ps dig. gen_entries D old new (sg_chunks og) 0 (sg_chunks nf) es ps \<and>
      trailer_ok D new (sg_chunks nf) (sg_whole nf) dig \<and>
      gs_written s' = gs_written s @ concat (map encode_entry es) @ DELTA_TRAILER_TAG # dig"
    and "\<forall>c \<in> set (sg_chunks og). chunk_matches D old c"
    and "gen_inv old new (sg_chunks og) s'" and "gs_processed s' = gs_processed s + length (sg_chunks nf)"
proof -
  obtain s1 s2 where 1: "processMultipleChunks U (sg_chunks og) (sg_chunks nf) s = (Inr (), s1)"
    and 2: "verify_old_state U (sg_chunks og) s1 = (Inr (), s2)"
    and 3: "writeTrailer U (sg_chunks nf) (sg_whole nf) s2 = (Inr u, s')"
    using assms(1) by (auto simp: generate_records_def proceed_Inr)
  obtain h where "process_chunks U (sg_chunks og) 0 (sg_chunks nf) h s = (Inr (), s1)"
    using 1 by (auto simp: processMultipleChunks_def split: sum.splits)
  note pc = process_chunks_sound [OF this assms(2,3)]
  obtain f where v: "verifyOldFile U (sg_chunks og) (gs_old s1) = (Inr (), f)" and s2: "s2 = s1\<lparr>gs_old := f\<rparr>"
    using 2 by (auto simp: verify_old_state_def split: prod.splits)
  have i1: "reading (gs_old s1)" "st_data (strm (gs_old s1)) = old" using pc by (simp_all add: gen_inv_def)
  note vo = verifyOldFile_sound [OF v i1(1) assms(3)]
  have i2: "gen_inv old new (sg_chunks og) s2" using pc vo i1 s2 by (simp add: gen_inv_def)
  note wt = writeTrailer_sound [OF 3 i2 assms(3)]
  show "\<forall>c \<in> set (sg_chunks og). chunk_matches D old c" using vo(3) i1(2) by simp
  show "gen_inv old new (sg_chunks og) s'" by (rule wt(2))
  show "gs_processed s' = gs_processed s + length (sg_chunks nf)" using wt(3) pc s2 by simp
  have "gs_written s2 = gs_written s1" using s2 by (simp add: gs_written_def)
  then show "\<exists>es ps dig. gen_entries D old new (sg_chunks og) 0 (sg_chunks nf) es ps \<and>
      trailer_ok D new (sg_chunks nf) (sg_whole nf) dig \<and>
      gs_written s' = gs_written s @ concat (map encode_entry es) @ DELTA_TRAILER_TAG # dig"
    using pc wt(1) by fastforce
qed

lemma write_header_appends:
  assumes "write_header (new_writer f) = (ok, w)" and "writing f" and "written f = []"
  shows "writing (out w)" and "ok \<Longrightarrow> written (out w) = header_bytes \<and> bytes_written w = length header_bytes"
    and "healthy_out f \<Longrightarrow> ok \<and> healthy_out (out w)"
proof -
  note e = emit_appends [OF assms(1) [unfolded write_header_def, folded header_bytes_def]]
  have "length header_bytes \<le> STREAMOFF_MAX" by (simp add: header_bytes_def push_u32_be_def STREAMOFF_MAX_def DELTA_MAGIC_def)
  then show "writing (out w)" and "ok \<Longrightarrow> written (out w) = header_bytes \<and> bytes_written w = length header_bytes"
    and "healthy_out f \<Longrightarrow> ok \<and> healthy_out (out w)"
    using e(1) e(2) e(5) assms(2,3) by (simp_all add: new_writer_def)
qed

lemma generate_opened_sound:
  assumes "generate_opened U og nf f g tx w = (Inr stats, tx', w')"
    and "reading f" and "reading g" and "writing (tx_file tx)" and "written (tx_file tx) = []"
    and "st_data (strm f) = old" and "st_data (strm g) = new" and "fsize f = length old" and "fsize g = length new"
    and "strong_hash_sound U D msg"
  shows "\<exists>es ps dig tx1. tiling (sg_chunks og) (length old) 0 \<and> tiling (sg_chunks nf) (length new) 0 \<and>
    (\<forall>c \<in> set (sg_chunks og). chunk_matches D old c) \<and>
    gen_entries D old new (sg_chunks og) 0 (sg_chunks nf) es ps \<and> trailer_ok D new (sg_chunks nf) (sg_whole nf) dig \<and>
    stats = \<lparr>ds_chunks_processed = length (sg_chunks nf), ds_bytes_written = length (encode_delta es dig)\<rparr> \<and>
    tx1 = tx\<lparr>tx_file := tx_file tx1\<rparr> \<and> is_open (tx_file tx1) \<and> written (tx_file tx1) = encode_delta es dig \<and>
    tx_commit tx1 w = (Inr (), tx', w')"
proof -
  have cov: "tiling (sg_chunks og) (length old) 0" "tiling (sg_chunks nf) (length new) 0"
    using assms(1,8,9) by (auto simp: generate_opened_def coversExactly_iff split: if_splits)
  then have cov': "coversExactly (sg_chunks og) (fsize f)" "coversExactly (sg_chunks nf) (fsize g)"
    using assms(8,9) by (simp_all add: coversExactly_iff)
  obtain ok wr where h: "write_header (new_writer (tx_file tx)) = (ok, wr)" by fastforce
  have ok: ok using assms(1) h cov' by (auto simp: generate_opened_def split: bool.splits)
  note wh = write_header_appends [OF h assms(4,5)]
  define s where "s = \<lparr>gs_old = f, gs_new = g, gs_writer = wr, gs_index = make_index (sg_chunks og), gs_processed = 0\<rparr>"
  obtain r s' where g: "generate_records U og nf s = (r, s')" by fastforce
  have r: "r = Inr ()" and cm: "tx_commit (tx\<lparr>tx_file := out (gs_writer s')\<rparr>) w = (Inr (), tx', w')"
    and st: "stats = \<lparr>ds_chunks_processed = gs_processed s', ds_bytes_written = bytes_written (gs_writer s')\<rparr>"
    using assms(1) h ok g cov' by (auto simp: generate_opened_def Let_def s_def split: sum.splits if_splits prod.splits)
  have "gen_inv old new (sg_chunks og) s"
    using assms(2,3,6,7) wh ok make_index_valid by (simp add: gen_inv_def s_def)
  note gr = generate_records_sound [OF g [unfolded r] this assms(10)]
  obtain es ps dig where e: "gen_entries D old new (sg_chunks og) 0 (sg_chunks nf) es ps"
    "trailer_ok D new (sg_chunks nf) (sg_whole nf) dig"
    "gs_written s' = gs_written s @ concat (map encode_entry es) @ DELTA_TRAILER_TAG # dig" using gr(1) by blast
  have wd: "written (out (gs_writer s')) = encode_delta es dig"
    using e(3) wh(2) [OF ok] by (simp add: gs_written_def s_def encode_delta_def)
  have "writing (out (gs_writer s'))" "bytes_written (gs_writer s') = length (written (out (gs_writer s')))"
    using gr(3) by (simp_all add: gen_inv_def)
  then show ?thesis
    using cov gr(2,4) e(1,2) wd cm st
    by (intro exI [of _ es] exI [of _ ps] exI [of _ dig] exI [of _ "tx\<lparr>tx_file := out (gs_writer s')\<rparr>"])
      (simp add: writing_def s_def)
qed

lemma generate_opened_inv:
  assumes "generate_opened U og nf f g tx w = (Inl e, tx', w')" and "staged_inv w0 (tx, w)"
  shows "staged_inv w0 (tx', w')"
proof -
  have fl: "staged_inv w0 (tx\<lparr>tx_file := h\<rparr>, w)" for h using assms(2) by (simp add: staged_inv_def)
  then show ?thesis
    using assms fl tx_commit_fails_inv [OF _ fl]
    by (auto simp: generate_opened_def Let_def split: sum.splits prod.splits bool.splits if_splits)
qed

lemma generate_delta_Inr: "generate_delta nr U og nf o1 n1 p w = (Inr stats, w') \<longleftrightarrow>
    generateImpl nr U og nf o1 n1 p w = (Inr stats, w')"
  by (auto simp: generate_delta_def split: prod.splits sum.splits failure.splits)

lemma openFiles_Inr:
  assumes "openFiles nr p q w = (Inr (f, g), w')"
  obtains n m where "node_at w p = Some n" and "node_at w q = Some m" and "reading f" and "st_data (strm f) = nd_data n"
    and "fsize f = length (nd_data n)" and "reading g" and "st_data (strm g) = nd_data m"
    and "fsize g = length (nd_data m)" and "same_disk w w'"
proof -
  obtain ok1 f1 w1 where o1: "fio_open nr p IN fio_default w = (ok1, f1, w1)" by (cases "fio_open nr p IN fio_default w") auto
  obtain ok2 f2 w2 where o2: "fio_open nr q IN fio_default w1 = (ok2, f2, w2)" by (cases "fio_open nr q IN fio_default w1") auto
  have ok: ok1 ok2 "f1 = f" "f2 = g" "w2 = w'" using assms o1 o2 by (auto simp: openFiles_def split: if_splits)
  note i1 = fio_open_input [OF o1] and i2 = fio_open_input [OF o2]
  from i1 i2 ok same_disk_node [OF i1(1)] same_disk_trans [OF i1(1) i2(1)] that show ?thesis by auto
qed

lemma openFiles_disk:
  assumes "openFiles nr p q w = (r, w')"
  shows "same_disk w w'"
proof -
  obtain ok1 f1 w1 where o1: "fio_open nr p IN fio_default w = (ok1, f1, w1)" by (cases "fio_open nr p IN fio_default w") auto
  obtain ok2 f2 w2 where o2: "fio_open nr q IN fio_default w1 = (ok2, f2, w2)" by (cases "fio_open nr q IN fio_default w1") auto
  note i1 = fio_open_input(1) [OF o1] and i2 = fio_open_input(1) [OF o2]
  show ?thesis using assms o1 o2 i1 same_disk_trans [OF i1 i2] by (auto simp: openFiles_def split: if_splits)
qed

lemma generateImpl_Inr:
  assumes "generateImpl nr U og nf op1 np dp w = (Inr stats, w')" and "wf_world w"
    and "\<forall>s \<in> set (w_slots w). s = None"
  obtains n m f g tx w3 tx1 w4 where "node_at w op1 = Some n" and "node_at w np = Some m"
    and "reading f" and "st_data (strm f) = nd_data n" and "fsize f = length (nd_data n)"
    and "reading g" and "st_data (strm g) = nd_data m" and "fsize g = length (nd_data m)"
    and "staged_inv w (tx, w3)" and "staged_open (tx, w3)" and "tx_destination tx = dp"
    and "generate_opened U og nf f g tx w3 = (Inr stats, tx1, w4)" and "w' = snd (tx_destroy tx1 w4)"
proof -
  obtain r w2 where o: "openFiles nr op1 np w = (r, w2)" by fastforce
  obtain f g where r: "r = Inr (f, g)" using assms(1) o by (cases r) (auto simp: generateImpl_def)
  obtain y tx w3 where o3: "tx_open nr dp [op1, np] tx_new w2 = (y, tx, w3)" by (cases "tx_open nr dp [op1, np] tx_new w2") auto
  obtain r4 tx1 w4 where o4: "generate_opened U og nf f g tx w3 = (r4, tx1, w4)" by (cases "generate_opened U og nf f g tx w3") auto
  have ok: "y = Inr ()" "r4 = Inr stats" "w' = snd (tx_destroy tx1 w4)"
    using assms(1) o o3 o4 r by (auto simp: generateImpl_def split: sum.splits)
  obtain n m where nm: "node_at w op1 = Some n" "node_at w np = Some m" "reading f" "st_data (strm f) = nd_data n"
    "fsize f = length (nd_data n)" "reading g" "st_data (strm g) = nd_data m" "fsize g = length (nd_data m)" "same_disk w w2"
    by (rule openFiles_Inr [OF o [unfolded r]])
  note tx = tx_open_inv [OF o3 staged_inv_start [OF assms(2,3) nm(9)]]
  show ?thesis using that [OF nm(1-8) tx(1)] tx(2) ok o4 by simp
qed

lemma generate_delta_publishes:
  assumes "generate_delta nr U og nf old_path new_path delta_path w = (Inr stats, w')"
    and "strong_hash_sound U D msg" and "wf_world w" and "\<forall>s \<in> set (w_slots w). s = None"
  obtains n m es ps dig where "node_at w old_path = Some n" and "node_at w new_path = Some m"
    and "tiling (sg_chunks og) (length (nd_data n)) 0" and "tiling (sg_chunks nf) (length (nd_data m)) 0"
    and "\<forall>c \<in> set (sg_chunks og). chunk_matches D (nd_data n) c"
    and "gen_entries D (nd_data n) (nd_data m) (sg_chunks og) 0 (sg_chunks nf) es ps"
    and "trailer_ok D (nd_data m) (sg_chunks nf) (sg_whole nf) dig"
    and "published w w' delta_path (encode_delta es dig)"
    and "stats = \<lparr>ds_chunks_processed = length (sg_chunks nf), ds_bytes_written = length (encode_delta es dig)\<rparr>"
proof -
  obtain n m f g tx w3 tx1 w4 where a: "node_at w old_path = Some n" "node_at w new_path = Some m"
    "reading f" "st_data (strm f) = nd_data n" "fsize f = length (nd_data n)"
    "reading g" "st_data (strm g) = nd_data m" "fsize g = length (nd_data m)"
    "staged_inv w (tx, w3)" "staged_open (tx, w3)" "tx_destination tx = delta_path"
    "generate_opened U og nf f g tx w3 = (Inr stats, tx1, w4)" "w' = snd (tx_destroy tx1 w4)"
    by (rule generateImpl_Inr [OF assms(1) [unfolded generate_delta_Inr] assms(3,4)])
  have so: "writing (tx_file tx)" "written (tx_file tx) = []" "tx_temporary tx \<noteq> []"
    using a(10) by (simp_all add: staged_open_def)
  obtain es ps dig txc where b: "tiling (sg_chunks og) (length (nd_data n)) 0" "tiling (sg_chunks nf) (length (nd_data m)) 0"
    "\<forall>c \<in> set (sg_chunks og). chunk_matches D (nd_data n) c"
    "gen_entries D (nd_data n) (nd_data m) (sg_chunks og) 0 (sg_chunks nf) es ps"
    "trailer_ok D (nd_data m) (sg_chunks nf) (sg_whole nf) dig"
    "stats = \<lparr>ds_chunks_processed = length (sg_chunks nf), ds_bytes_written = length (encode_delta es dig)\<rparr>"
    "txc = tx\<lparr>tx_file := tx_file txc\<rparr>" "is_open (tx_file txc)" "written (tx_file txc) = encode_delta es dig"
    "tx_commit txc w3 = (Inr (), tx1, w4)"
    using generate_opened_sound [OF a(12,3,6) so(1,2) a(4,7,5,8) assms(2)] by blast
  have t: "tx_temporary txc = tx_temporary tx" "tx_destination txc = delta_path" "tx_slot txc = tx_slot tx"
    using a(11) by (subst b(7), simp)+
  have "staged_inv w (txc, w3)" using a(9) t by (simp add: staged_inv_def)
  moreover obtain tx'' where "tx_destroy tx1 w4 = (tx'', w')" using a(13) by (cases "tx_destroy tx1 w4") auto
  ultimately have "published w w' delta_path (encode_delta es dig)"
    using commit_published [OF b(10,8)] so(3) t b(9) by auto
  from that [OF a(1,2) b(1-5) this b(6)] show ?thesis .
qed

lemma generateImpl_untouched:
  assumes "generateImpl nr U og nf old_path new_path delta_path w = (Inl x, w')"
    and "wf_world w" and "\<forall>s \<in> set (w_slots w). s = None"
  shows "untouched w w'"
proof -
  obtain r w2 where o: "openFiles nr old_path new_path w = (r, w2)" by fastforce
  have sd: "same_disk w w2" by (rule openFiles_disk [OF o])
  have u: "untouched w w2" by (rule untouched_disk [OF untouched_refl [OF assms(2)] sd])
  have destroyed: "untouched w (snd (tx_destroy t v))" if "staged_inv w (t, v)" for t v
    using tx_destroy_inv [OF _ that] by (cases "tx_destroy t v") (simp add: staged_inv_def)
  show ?thesis
  proof (cases r)
    case Inl
    then show ?thesis using assms(1) o u by (auto simp: generateImpl_def)
  next
    case (Inr fg)
    obtain f g where fg: "fg = (f, g)" by fastforce
    obtain y tx w3 where o3: "tx_open nr delta_path [old_path, new_path] tx_new w2 = (y, tx, w3)"
      by (cases "tx_open nr delta_path [old_path, new_path] tx_new w2") auto
    note tx = tx_open_inv(1) [OF o3 staged_inv_start [OF assms(2,3) sd]]
    obtain r4 tx1 w4 where o4: "generate_opened U og nf f g tx w3 = (r4, tx1, w4)" by (cases "generate_opened U og nf f g tx w3") auto
    then have "r4 = Inl x \<Longrightarrow> untouched w (snd (tx_destroy tx1 w4))"
      using destroyed [of tx1 w4] generate_opened_inv [OF _ tx, of U og nf f g x tx1 w4] by simp
    then show ?thesis
      using assms(1) o Inr fg o3 o4 destroyed [OF tx] by (auto simp: generateImpl_def split: sum.splits)
  qed
qed

lemma generate_delta_untouched:
  assumes "generate_delta nr U og nf old_path new_path delta_path w = (Inl e, w')"
    and "wf_world w" and "\<forall>s \<in> set (w_slots w). s = None"
  shows "untouched w w'"
proof -
  obtain x where "generateImpl nr U og nf old_path new_path delta_path w = (Inl x, w')"
    using assms(1) by (auto simp: generate_delta_def split: prod.splits sum.splits failure.splits)
  from generateImpl_untouched [OF this assms(2,3)] show ?thesis .
qed

end
