(* ===== verification/Fault_Free.thy ===== *)
theory Fault_Free imports Output_Transaction begin

text \<open>
  What the file system calls, \<open>FileIO::open\<close> and the transaction do when no call fails: the lemmas
  from which the operations on paths are shown to succeed.
\<close>

section \<open>Calls\<close>

definition no_faults :: "world \<Rightarrow> bool" where
  "no_faults w \<longleftrightarrow> w_errs w = [] \<and> w_plans w = []"

lemma no_faults_take:
  assumes "no_faults w"
  shows "take_fault w = (None, w)" and "take_plan w = ([], w)"
  using assms by (simp_all add: no_faults_def take_fault_def take_plan_def)

lemma no_faults_updates [simp]:
  "no_faults (w\<lparr>w_names := a\<rparr>) = no_faults w" "no_faults (w\<lparr>w_nodes := b\<rparr>) = no_faults w"
  "no_faults (w\<lparr>w_slots := c\<rparr>) = no_faults w" "no_faults (w\<lparr>w_journal := d\<rparr>) = no_faults w"
  "no_faults (w\<lparr>w_counter := e\<rparr>) = no_faults w" "no_faults (w\<lparr>w_random := r\<rparr>) = no_faults w"
  "no_faults (w\<lparr>w_next := k\<rparr>) = no_faults w"
  by (simp_all add: no_faults_def)

lemma no_faults_create [simp]: "no_faults (create_name p w) = no_faults w"
  by (simp add: create_name_def)

lemma no_faults_store [simp]: "no_faults (store_data p bs w) = no_faults w"
  by (simp add: store_data_def split: option.splits)

lemma no_faults_world_of [simp]: "no_faults (world_of fs)"
  by (simp add: no_faults_def world_of_def)

lemma fs_status_found:
  assumes "no_faults w" and "w_names w p = Some i"
  shows "fs_status p w = (St_found (nd_kind (w_nodes w i)) (nd_perms (w_nodes w i)), w)"
  using assms by (simp add: fs_status_def no_faults_take node_at_def)

lemma fs_status_missing: "no_faults w \<Longrightarrow> w_names w p = None \<Longrightarrow> fs_status p w = (St_missing, w)"
  by (simp add: fs_status_def no_faults_take node_at_def)

section \<open>Opening\<close>

lemma fio_open_input_complete:
  assumes "no_faults w" and "node_at w p = Some n" and "nd_kind n = Regular"
  shows "\<exists>f'. fio_open nr p IN fio_default w = (True, f', w) \<and> healthy f' \<and> remaining f' = nd_data n \<and>
    st_data (strm f') = nd_data n \<and> fsize f' = length (nd_data n)"
proof -
  obtain ok f' w' where o: "fio_open nr p IN fio_default w = (ok, f', w')" by (cases "fio_open nr p IN fio_default w") auto
  have "ok \<and> w' = w \<and> plan_quiet (strm f')"
    using o assms(2,3)
    by (auto simp: fio_open_def fio_open_stream_def Let_def readable_mode_def fs_is_regular_file_def fs_status_def
        no_faults_take [OF assms(1)] stream_open_def fs_file_size_def fio_default_def is_open_def closed_stream_def
        discard_read_buffer_def opened_stream_def st_failed_def st_good_def plan_quiet_def
        split: if_splits)
  then show ?thesis using fio_open_input [OF o] o assms(2) by (auto simp: healthy_def)
qed


lemma fio_open_exclusive_complete:
  assumes "no_faults w" and "w_names w p = None" and "f = fio_default"
  shows "\<exists>f'. fio_open nr p EXCLUSIVE_OUT f w = (True, f', create_name p w) \<and> healthy_out f' \<and> written f' = []"
proof -
  have "nd_kind new_node = Regular" by (simp add: new_node_def)
  moreover have "(create_name p w)\<lparr>w_nodes := (w_nodes (create_name p w))(w_next w := new_node\<lparr>nd_data := []\<rparr>)\<rparr> = create_name p w"
    by (simp add: create_name_def new_node_def)
  ultimately show ?thesis
    using assms
    by (auto simp: fio_open_def fio_open_stream_def Let_def readable_mode_def create_exclusively_def store_data_def
        no_faults_take stream_open_def fs_file_size_def fio_default_def is_open_def closed_stream_def node_at_def
        discard_read_buffer_def opened_stream_def st_failed_def st_good_def plan_quiet_def healthy_out_def writing_def
        written_def create_name_def new_node_def)
qed

text \<open>A regular file.\<close>

definition file_at :: "world \<Rightarrow> path \<Rightarrow> bytes \<Rightarrow> bool" where
  "file_at w p bs \<longleftrightarrow> (\<exists>n. node_at w p = Some n \<and> nd_kind n = Regular \<and> nd_data n = bs)"

section \<open>Where an output can be published\<close>

text \<open>The destination does not exist, or is a regular file that is none of the inputs; the inputs exist.\<close>

definition may_publish :: "world \<Rightarrow> path \<Rightarrow> path list \<Rightarrow> bool" where
  "may_publish w dest ins \<longleftrightarrow> (\<forall>p \<in> set ins. w_names w p \<noteq> None) \<and>
     (\<forall>i. w_names w dest = Some i \<longrightarrow> nd_kind (w_nodes w i) = Regular \<and> (\<forall>p \<in> set ins. w_names w p \<noteq> Some i))"

lemma check_aliases_complete:
  assumes "no_faults w" and "w_names w dest = Some i" and "\<forall>p \<in> set ins. w_names w p \<noteq> None \<and> w_names w p \<noteq> Some i"
  shows "check_aliases dest ins w = (Inr (), w)"
  using assms(3) by (induction ins) (auto simp: fs_equivalent_def no_faults_take [OF assms(1)] assms(2) split: option.splits)

lemma validateDestination_complete:
  assumes "no_faults w" and "may_publish w (tx_destination tx) (tx_inputs tx)"
  shows "validateDestination tx w = (Inr (), w)"
proof (cases "w_names w (tx_destination tx)")
  case None
  then show ?thesis using fs_status_missing [OF assms(1)] by (simp add: validateDestination_def)
next
  case (Some i)
  then show ?thesis
    using assms(2) check_aliases_complete [OF assms(1) Some, of "tx_inputs tx"] fs_status_found [OF assms(1) Some]
    by (simp add: validateDestination_def may_publish_def)
qed

text \<open>\<open>output_ready\<close>: staging beside the destination will succeed at the first attempt.\<close>

definition output_ready :: "world \<Rightarrow> path \<Rightarrow> path list \<Rightarrow> bool" where
  "output_ready w dest ins \<longleftrightarrow> no_faults w \<and> wf_world w \<and> (\<forall>s \<in> set (w_slots w). s = None) \<and>
     dest \<noteq> [] \<and> filename dest \<noteq> [] \<and> may_publish w dest ins \<and> w_names w (fst (candidate_path dest w)) = None"

text \<open>The first attempt at opening: the destination is free to be replaced, the candidate is a new name.\<close>

lemma tx_track_complete:
  assumes "tx_track tx w = (tx', w')"
  shows "no_faults w' = no_faults w" and "w_names w' = w_names w" and "w_nodes w' = w_nodes w"
    and "\<exists>s. tx' = tx\<lparr>tx_slot := s\<rparr>"
proof -
  have "\<exists>s. tx = tx\<lparr>tx_slot := s\<rparr>" by (intro exI [of _ "tx_slot tx"]) simp
  then show "no_faults w' = no_faults w" and "w_names w' = w_names w" and "w_nodes w' = w_nodes w"
    and "\<exists>s. tx' = tx\<lparr>tx_slot := s\<rparr>"
    using assms by (auto simp: tx_track_def split: option.splits)
qed

lemma copyPermissions_complete:
  assumes "no_faults w" and "w_names w (tx_temporary tx) = Some k"
  shows "\<exists>n. copyPermissions tx w = (Inr (), w\<lparr>w_nodes := (w_nodes w)(k := (w_nodes w k)\<lparr>nd_perms := n\<rparr>)\<rparr>)"
proof (cases "w_names w (tx_destination tx)")
  case None
  have "w = w\<lparr>w_nodes := (w_nodes w)(k := (w_nodes w k)\<lparr>nd_perms := nd_perms (w_nodes w k)\<rparr>)\<rparr>" by simp
  with None fs_status_missing [OF assms(1)] show ?thesis
    by (intro exI [of _ "nd_perms (w_nodes w k)"]) (simp add: copyPermissions_def)
next
  case (Some i)
  then show ?thesis
    using fs_status_found [OF assms(1) Some] assms(2)
    by (auto simp: copyPermissions_def fs_permissions_def no_faults_take [OF assms(1)])
qed

lemma tx_open_complete:
  assumes "output_ready w dest ins"
  shows "\<exists>tx' w' k. tx_open nr dest ins tx_new w = (Inr (), tx', w') \<and> tx_destination tx' = dest \<and> tx_inputs tx' = ins \<and>
    no_faults w' \<and> may_publish w' dest ins \<and> healthy_out (tx_file tx') \<and> written (tx_file tx') = [] \<and>
    tx_temporary tx' \<noteq> [] \<and> w_names w' (tx_temporary tx') = Some k"
proof -
  have nf: "no_faults w" and wf: "wf_world w" and ne: "dest \<noteq> []" "filename dest \<noteq> []" and pub: "may_publish w dest ins"
    using assms by (simp_all add: output_ready_def)
  define tx1 where "tx1 = tx_new\<lparr>tx_destination := dest, tx_inputs := ins\<rparr>"
  obtain c w1 where c: "candidate_path dest w = (c, w1)" by fastforce
  have w1: "w_names w1 = w_names w" "w_nodes w1 = w_nodes w" "w_next w1 = w_next w" "no_faults w1" "c \<noteq> []"
    using c candidate_path_kept(3,4) [OF c] nf
    by (auto simp: candidate_path_def Let_def take_random_def no_faults_def split: list.splits)
  have fresh: "w_names w1 c = None" using assms c w1(1) by (simp add: output_ready_def)
  obtain f where f: "fio_open nr c EXCLUSIVE_OUT (tx_file tx1) w1 = (True, f, create_name c w1)" "healthy_out f" "written f = []"
    using fio_open_exclusive_complete [OF w1(4) fresh, of "tx_file tx1" nr] by (auto simp: tx1_def tx_new_def)
  obtain tx2 w3 where t: "tx_track (tx1\<lparr>tx_file := f, tx_temporary := c\<rparr>) (create_name c w1) = (tx2, w3)" by fastforce
  note tt = tx_track_complete [OF t]
  obtain s where tx2: "tx2 = tx1\<lparr>tx_file := f, tx_temporary := c, tx_slot := s\<rparr>" using tt(4) by auto
  have k: "w_names w3 (tx_temporary tx2) = Some (w_next w)" and nf3: "no_faults w3"
    using tt w1 tx2 by (simp_all add: create_name_def)
  obtain n where cp: "copyPermissions tx2 w3 =
      (Inr (), w3\<lparr>w_nodes := (w_nodes w3)(w_next w := (w_nodes w3 (w_next w))\<lparr>nd_perms := n\<rparr>)\<rparr>)" (is "_ = (_, ?w4)")
    using copyPermissions_complete [OF nf3 k] by blast
  have "tx_attempts nr (Suc j) tx1 w = (Inr (), tx2, ?w4)" for j
    using c f t cp by (simp add: tx1_def)
  from this [of 31] have "tx_attempts nr 32 tx1 w = (Inr (), tx2, ?w4)"
    by (simp only: Suc_numeral add_num_simps)
  moreover have "validateDestination tx1 w = (Inr (), w)"
    by (rule validateDestination_complete [OF nf]) (simp add: tx1_def pub)
  ultimately have o: "tx_open nr dest ins tx_new w = (Inr (), tx2, ?w4)"
    using ne by (simp add: tx_open_def tx1_def tx_new_def)
  have names: "w_names ?w4 = (w_names w)(c \<mapsto> w_next w)" "\<forall>i. nd_kind (w_nodes ?w4 i) = nd_kind (((w_nodes w)(w_next w := new_node)) i)"
    using tt w1 by (simp_all add: create_name_def)
  have "may_publish ?w4 dest ins"
    unfolding may_publish_def names
  proof (intro conjI ballI allI impI)
    fix p assume "p \<in> set ins"
    then show "((w_names w)(c \<mapsto> w_next w)) p \<noteq> None" using pub by (auto simp: may_publish_def)
  next
    fix i assume i: "((w_names w)(c \<mapsto> w_next w)) dest = Some i"
    show "nd_kind (w_nodes ?w4 i) = Regular"
      using i pub names(2) by (auto simp: may_publish_def new_node_def split: if_splits)
    fix p assume p: "p \<in> set ins"
    then obtain j where j: "w_names w p = Some j" using pub by (auto simp: may_publish_def)
    then have "j < w_next w" "p \<noteq> c" using wf fresh w1(1) by (auto simp: wf_world_def)
    then show "((w_names w)(c \<mapsto> w_next w)) p \<noteq> Some i"
      using i j pub p by (auto simp: may_publish_def split: if_splits)
  qed
  then show ?thesis
    using o f k tx2 nf3 w1(5) by (intro exI [of _ tx2] exI [of _ ?w4] exI [of _ "w_next w"]) (simp add: tx1_def)
qed

text \<open>A commit of a file written without error.\<close>

lemma fio_close_healthy: "healthy_out f \<Longrightarrow> fst (fio_close f) \<and> \<not> io_error (snd (fio_close f))"
  using st_fault_quiet [of "strm f"]
  by (auto simp: healthy_out_def writing_def fio_close_def Let_def discard_read_buffer_def is_open_def st_close_def
      st_clear_def st_failed_def st_good_def st_fault_def st_step_def plan_quiet_def split: option.splits list.splits)

lemma tx_commit_complete:
  assumes "no_faults w" and "may_publish w (tx_destination tx) (tx_inputs tx)" and "healthy_out (tx_file tx)"
    and "tx_temporary tx \<noteq> []" and "w_names w (tx_temporary tx) = Some k"
  shows "\<exists>tx' w'. tx_commit tx w = (Inr (), tx', w')"
proof -
  obtain ok tx1 w1 where c: "close_staged tx w = (ok, tx1, w1)" by (cases "close_staged tx w") auto
  note cs = close_staged_inv(2-4) [OF c]
  have ok: ok and tx1: "tx_temporary tx1 = tx_temporary tx" "tx_destination tx1 = tx_destination tx"
      "tx_inputs tx1 = tx_inputs tx" "\<not> has_error (tx_file tx1)"
    using cs fio_close_healthy [OF assms(3)] by (simp_all add: has_error_def)
  have w1: "no_faults w1" "w_names w1 = w_names w" "\<forall>i. nd_kind (w_nodes w1 i) = nd_kind (w_nodes w i)"
    using cs(3) assms(1) by (auto simp: store_data_def split: option.splits)
  obtain w2 where s: "sync_file (tx_temporary tx) w1 = (True, w2)" "no_faults w2" "w_names w2 = w_names w1" "w_nodes w2 = w_nodes w1"
    using w1(1,2) assms(5) by (auto simp: sync_file_def Let_def no_faults_take)
  have v: "validateDestination tx1 w2 = (Inr (), w2)"
    by (rule validateDestination_complete [OF s(2)]) (use assms(2) tx1 w1 s in \<open>simp add: may_publish_def\<close>)
  have "map_option nd_kind (node_at w2 (tx_destination tx)) \<noteq> Some Directory"
    using assms(2) w1 s by (auto simp: may_publish_def node_at_def)
  then obtain w4 where r: "fs_rename (tx_temporary tx) (tx_destination tx) w2 = (None, w4)"
    using s w1 assms(5) by (simp add: fs_rename_def no_faults_take)
  obtain tx2 w5 where "tx_untrack tx1 w4 = (tx2, w5)" by fastforce
  then show ?thesis using assms(4) c ok s v r tx1 by (simp add: tx_commit_def Let_def)
qed

end
