(* ===== verification/Round_Trip.thy ===== *)
theory Round_Trip imports Delta_Gen Fault_Free begin

text \<open>
  Generation and application together.  The first part shows that generation succeeds when no device
  fails, the second that application does; the last composes them: what \<open>create\<close> wrote for two files,
  \<open>apply\<close> turns back into the second.
\<close>

section \<open>Generation on devices that do not fail\<close>

definition gen_ready :: "bytes \<Rightarrow> bytes \<Rightarrow> SignedChunk list \<Rightarrow> gen_state \<Rightarrow> bool" where
  "gen_ready old new ocs s \<longleftrightarrow> gen_inv old new ocs s \<and> healthy (gs_old s) \<and> healthy (gs_new s) \<and>
     healthy_out (out (gs_writer s)) \<and> fsize (gs_old s) = length old \<and> fsize (gs_new s) = length new"

text \<open>The chunk lies within the file and describes it.\<close>

definition chunk_good :: "(bytes \<Rightarrow> bytes) \<Rightarrow> bytes \<Rightarrow> SignedChunk \<Rightarrow> bool" where
  "chunk_good D data c \<longleftrightarrow> chunk_matches D data c \<and> start_offset c \<le> STREAMOFF_MAX \<and>
     chunk_size c \<le> DELTA_MAX_CHUNK_SIZE"

lemma tiling_good:
  assumes "tiling cs (length data) 0" and "length data \<le> STREAMOFF_MAX" and "\<forall>c \<in> set cs. chunk_matches D data c"
  shows "\<forall>c \<in> set cs. chunk_good D data c"
  using assms tiling_chunks(1,3) [OF assms(1)] unfolding chunk_good_def by fastforce

lemma read_at_complete:
  assumes "healthy f" and "p \<le> STREAMOFF_MAX"
  shows "\<exists>f'. read_chunk_at n p f = (take n (drop p (st_data (strm f))), f') \<and> healthy f' \<and> reading f' \<and>
    st_data (strm f') = st_data (strm f) \<and> fsize f' = fsize f"
proof -
  obtain d f' where rd: "read_chunk_at n p f = (d, f')" by fastforce
  have "reading f" using assms(1) by (simp add: healthy_def)
  note ra = read_chunk_at_delivers [OF rd this assms(2)]
  have "healthy f'" "reading f'" "st_data (strm f') = st_data (strm f)" "fsize f' = fsize f"
    using ra(1) assms(1) by (simp_all add: delivers_def)
  then show ?thesis using rd ra(3) by (simp add: healthy_def)
qed

lemma readSignedChunk_complete:
  assumes "healthy f" and "chunk_good D (st_data (strm f)) c" and "live h"
    and "strong_hash_sound U D msg" and "strong_hash_total U msg live" and "DELTA_DIGEST_BYTES \<le> sh_size U"
  shows "\<exists>h' f'. readSignedChunk U c h f = (Inr (chunk_bytes (st_data (strm f)) c, h'), f') \<and> live h' \<and>
    healthy f' \<and> reading f' \<and> st_data (strm f') = st_data (strm f) \<and> fsize f' = fsize f"
proof -
  let ?bs = "chunk_bytes (st_data (strm f)) c"
  have c: "chunk_matches D (st_data (strm f)) c" "start_offset c \<le> STREAMOFF_MAX"
    using assms(2) by (simp_all add: chunk_good_def)
  obtain f' where f': "read_chunk_at (chunk_size c) (start_offset c) f = (?bs, f')" "healthy f'" "reading f'"
      "st_data (strm f') = st_data (strm f)" "fsize f' = fsize f"
    using read_at_complete [OF assms(1) c(2), of "chunk_size c"] unfolding chunk_bytes_def by blast
  obtain d h' where h: "sh_hash U (digest_buffer U) ?bs h = Inr (d, h')" "live h'"
    using strong_hash_totalD(5) [OF assms(5,3)] by blast
  have "d = D ?bs" by (rule strong_hash_soundD(5) [OF assms(4) h(1)])
  moreover have "length (D ?bs) = sh_size U" by (rule strong_hash_soundD(1) [OF assms(4)])
  ultimately show ?thesis
    using f' h c(1) assms(6) by (simp add: readSignedChunk_def chunk_matches_def has_error_def healthy_def)
qed

lemma write_record_complete:
  assumes "gen_ready old new ocs s" and "length (entry_digest e) = DELTA_DIGEST_BYTES"
    and "length (encode_entry e) \<le> STREAMOFF_MAX"
  shows "\<exists>s'. write_record (write_entry e) s = (Inr (), s') \<and> gen_ready old new ocs s'"
proof -
  obtain ok w where w: "write_entry e (gs_writer s) = (ok, w)" by fastforce
  have "healthy_out (out (gs_writer s))" "writing (out (gs_writer s))" using assms(1) by (simp_all add: gen_ready_def gen_inv_def)
  note wa = write_entry_appends(3) [OF w this(2,1) assms(2,3)]
  then have r: "write_record (write_entry e) s = (Inr (), s\<lparr>gs_writer := w, gs_processed := Suc (gs_processed s)\<rparr>)" (is "_ = (_, ?s')")
    using w by (simp add: write_record_def)
  have "gen_inv old new ocs s" using assms(1) by (simp add: gen_ready_def)
  from write_record_sound(1) [OF r this] have "gen_ready old new ocs ?s'"
    using assms(1) wa by (simp add: gen_ready_def)
  with r show ?thesis by blast
qed

lemma varint_size_small: "varint_size v \<le> VARINT_MAX_BYTES"
  using length_push_varint_max [of v] by (simp add: varint_size_eq)

lemma small_records:
  assumes "length d = DELTA_DIGEST_BYTES"
  shows "length (encode_entry (OriginalE i d)) \<le> STREAMOFF_MAX"
    and "length p \<le> DELTA_MAX_CHUNK_SIZE \<Longrightarrow> length (encode_entry (AddedE d p)) \<le> STREAMOFF_MAX"
  using assms varint_size_small [of i] varint_size_small [of "of_nat (length p)"]
  by (simp_all add: length_record_head STREAMOFF_MAX_def DELTA_MAX_CHUNK_SIZE_def VARINT_MAX_BYTES_def DELTA_DIGEST_BYTES_def)

lemma encode_changed_complete:
  assumes "gen_ready old new ocs s" and "bs = chunk_bytes new c" and "chunk_good D new c"
    and "\<forall>x \<in> set ocs. chunk_good D old x"
  shows "\<exists>s'. encode_changed ocs i c bs s = (Inr (), s') \<and> gen_ready old new ocs s'"
proof -
  have d: "length (sc_hash c) = DELTA_DIGEST_BYTES" and n: "length bs \<le> DELTA_MAX_CHUNK_SIZE"
    using assms(2,3) unfolding chunk_good_def chunk_matches_def by auto
  note lit = small_records(2) [OF d n]
  have added: "\<exists>s'. write_record (write_entry (AddedE (sc_hash c) bs)) s1 = (Inr (), s') \<and> gen_ready old new ocs s'"
    if "gen_ready old new ocs s1" for s1
    using write_record_complete [OF that, of "AddedE (sc_hash c) bs"] d lit by simp
  show ?thesis
  proof (cases "i < length ocs")
    case False
    then show ?thesis using added [OF assms(1)] by (simp add: encode_changed_def write_forms del: write_entry.simps)
  next
    case True
    then have o: "chunk_good D old (ocs ! i)" using assms(4) by simp
    have h: "healthy (gs_old s)" "st_data (strm (gs_old s)) = old" using assms(1) by (simp_all add: gen_ready_def gen_inv_def)
    obtain f where f: "read_chunk_at (chunk_size (ocs ! i)) (start_offset (ocs ! i)) (gs_old s) = (chunk_bytes old (ocs ! i), f)"
        "healthy f" "reading f" "st_data (strm f) = old" "fsize f = fsize (gs_old s)"
      using read_at_complete [OF h(1), of "start_offset (ocs ! i)" "chunk_size (ocs ! i)"] o h(2)
      unfolding chunk_bytes_def chunk_good_def by auto
    define s1 where "s1 = s\<lparr>gs_old := f\<rparr>"
    define diff where "diff = createDiff (chunk_bytes old (ocs ! i)) bs"
    have r1: "gen_ready old new ocs s1" using assms(1) f by (simp add: s1_def gen_ready_def gen_inv_def)
    have len: "length (chunk_bytes old (ocs ! i)) = chunk_size (ocs ! i)" using o by (simp add: chunk_good_def chunk_matches_def)
    show ?thesis
    proof (cases "diff \<noteq> [] \<and> modified_size (of_nat i) (length bs) (length diff) < added_size (length bs)")
      case small: True
      let ?e = "ModifiedE (of_nat i) (of_nat (length bs)) (sc_hash c) diff"
      have "length (encode_entry ?e) \<le> STREAMOFF_MAX"
        using entry_lengths [OF d] small lit by simp
      then obtain s' where "write_record (write_entry ?e) s1 = (Inr (), s')" "gen_ready old new ocs s'"
        using write_record_complete [OF r1, of ?e] d by auto
      then show ?thesis using True f(1,2) len small
        by (simp add: encode_changed_def Let_def has_error_def write_forms s1_def diff_def healthy_def del: write_entry.simps)
    next
      case False
      obtain s' where "write_record (write_entry (AddedE (sc_hash c) bs)) s1 = (Inr (), s')" "gen_ready old new ocs s'"
        using added [OF r1] by blast
      then show ?thesis using True f(1,2) len False
        by (auto simp: encode_changed_def Let_def has_error_def write_forms s1_def diff_def healthy_def simp del: write_entry.simps)
    qed
  qed
qed

lemma process_chunk_complete:
  assumes "gen_ready old new ocs s" and "chunk_good D new c" and "\<forall>x \<in> set ocs. chunk_good D old x" and "live h"
    and "strong_hash_sound U D msg" and "strong_hash_total U msg live" and "DELTA_DIGEST_BYTES \<le> sh_size U"
  shows "\<exists>h' s'. process_chunk U ocs i c h s = (Inr h', s') \<and> gen_ready old new ocs s' \<and> live h'"
proof -
  obtain r ix where src: "reuse_source ocs i c (gs_index s) = (r, ix)" by fastforce
  have "index_valid ocs (replicate (length ocs) False) (gs_index s)" using assms(1) by (simp add: gen_ready_def gen_inv_def)
  note rs = reuse_source_sound [OF src this]
  have r1: "gen_ready old new ocs (s\<lparr>gs_index := ix\<rparr>)" using assms(1) rs(1) by (simp add: gen_ready_def gen_inv_def)
  show ?thesis
  proof (cases r)
    case (Some j)
    have "length (sc_hash c) = DELTA_DIGEST_BYTES" using assms(2) unfolding chunk_good_def chunk_matches_def by blast
    then show ?thesis
      using write_record_complete [OF r1, of "OriginalE (of_nat j) (sc_hash c)"] small_records(1) src Some assms(4)
      by (auto simp: process_chunk_def write_forms simp del: write_entry.simps encode_entry.simps)
  next
    case None
    have h: "healthy (gs_new s)" "st_data (strm (gs_new s)) = new" using assms(1) by (simp_all add: gen_ready_def gen_inv_def)
    obtain h' f where f: "readSignedChunk U c h (gs_new s) = (Inr (chunk_bytes new c, h'), f)" "live h'" "healthy f"
        "reading f" "st_data (strm f) = new" "fsize f = fsize (gs_new s)"
      using readSignedChunk_complete [OF h(1) _ assms(4-7), of c] assms(2) h(2) by auto
    have "gen_ready old new ocs (s\<lparr>gs_index := ix, gs_new := f\<rparr>)" using r1 f by (simp add: gen_ready_def gen_inv_def)
    from encode_changed_complete [OF this refl assms(2,3), of i] show ?thesis
      using src None f by (auto simp: process_chunk_def)
  qed
qed

lemma process_chunks_complete:
  assumes "gen_ready old new ocs s" and "\<forall>c \<in> set cs. chunk_good D new c" and "\<forall>x \<in> set ocs. chunk_good D old x" and "live h"
    and "strong_hash_sound U D msg" and "strong_hash_total U msg live" and "DELTA_DIGEST_BYTES \<le> sh_size U"
  shows "\<exists>s'. process_chunks U ocs i cs h s = (Inr (), s') \<and> gen_ready old new ocs s'"
  using assms(1,2,4)
proof (induction cs arbitrary: i h s)
  case (Cons c cs)
  obtain h' s1 where 1: "process_chunk U ocs i c h s = (Inr h', s1)" "gen_ready old new ocs s1" "live h'"
    using process_chunk_complete [OF Cons.prems(1) _ assms(3) Cons.prems(3) assms(5-7), of c i] Cons.prems(2) by auto
  from Cons.IH [OF 1(2) _ 1(3), of "Suc i"] Cons.prems(2) 1(1) show ?case by auto
qed simp

lemma at_file_end_complete:
  assumes "healthy f" and "fsize f = length (st_data (strm f))" and "fsize f \<le> STREAMOFF_MAX"
  shows "\<exists>f'. at_file_end msg f = (Inr (), f') \<and> healthy f' \<and> reading f' \<and> st_data (strm f') = st_data (strm f) \<and> fsize f' = fsize f"
  using read_at_complete [OF assms(1,3), of 1] assms(2) by (auto simp: at_file_end_def has_error_def healthy_def)

lemma verify_chunks_complete:
  assumes "healthy f" and "\<forall>c \<in> set cs. chunk_good D (st_data (strm f)) c" and "live h"
    and "strong_hash_sound U D msg" and "strong_hash_total U msg live" and "DELTA_DIGEST_BYTES \<le> sh_size U"
  shows "\<exists>f'. verify_chunks U cs h f = (Inr (), f') \<and> healthy f' \<and> reading f' \<and> st_data (strm f') = st_data (strm f) \<and> fsize f' = fsize f"
  using assms(1-3)
proof (induction cs arbitrary: h f)
  case (Cons c cs)
  obtain h' f1 where 1: "readSignedChunk U c h f = (Inr (chunk_bytes (st_data (strm f)) c, h'), f1)" "live h'" "healthy f1"
      "st_data (strm f1) = st_data (strm f)" "fsize f1 = fsize f"
    using readSignedChunk_complete [OF Cons.prems(1) _ Cons.prems(3) assms(4-6), of c] Cons.prems(2) by auto
  from Cons.IH [OF 1(3) _ 1(2)] Cons.prems(2) 1 show ?case by auto
qed (simp add: healthy_def)

lemma rehash_chunks_complete:
  assumes "healthy f" and "\<forall>c \<in> set cs. chunk_good D (st_data (strm f)) c" and "live h" and "live ch" and "msg h = Some m"
    and "strong_hash_sound U D msg" and "strong_hash_total U msg live" and "DELTA_DIGEST_BYTES \<le> sh_size U"
  shows "\<exists>h' m' f'. rehash_chunks U cs h ch f = (Inr h', f') \<and> live h' \<and> msg h' = Some m' \<and> healthy f' \<and>
    st_data (strm f') = st_data (strm f) \<and> fsize f' = fsize f"
  using assms(1-5)
proof (induction cs arbitrary: h ch f m)
  case (Cons c cs)
  let ?bs = "chunk_bytes (st_data (strm f)) c"
  obtain ch' f1 where 1: "readSignedChunk U c ch f = (Inr (?bs, ch'), f1)" "live ch'" "healthy f1"
      "st_data (strm f1) = st_data (strm f)" "fsize f1 = fsize f"
    using readSignedChunk_complete [OF Cons.prems(1) _ Cons.prems(4) assms(6-8), of c] Cons.prems(2) by auto
  obtain h1 where h1: "sh_update U ?bs h = Inr h1" "live h1"
    using strong_hash_totalD(3) [OF assms(7) Cons.prems(3,5)] by blast
  have "msg h1 = Some (m @ ?bs)" by (rule strong_hash_soundD(3) [OF assms(6) Cons.prems(5) h1(1)])
  from Cons.IH [OF 1(3) _ h1(2) 1(2) this] Cons.prems(2) 1 h1 show ?case by auto
qed auto

lemma trailer_digest_complete:
  assumes "healthy f" and "\<forall>c \<in> set cs. chunk_good D (st_data (strm f)) c"
    and "strong_hash_sound U D msg" and "strong_hash_total U msg live" and "DELTA_DIGEST_BYTES \<le> sh_size U"
  shows "\<exists>dig f'. trailer_digest U cs pre f = (Inr dig, f') \<and> healthy f' \<and> st_data (strm f') = st_data (strm f) \<and> fsize f' = fsize f"
proof (cases "pre = []")
  case True
  obtain u where u: "sh_new U = Inr u" "live u" using strong_hash_totalD(1) [OF assms(4)] by blast
  obtain v where v: "sh_init U u = Inr v" "live v" using strong_hash_totalD(2) [OF assms(4) u(2)] by blast
  have "msg v = Some []" by (rule strong_hash_soundD(2) [OF assms(3) v(1)])
  then obtain h' m' f' where r: "rehash_chunks U cs v u f = (Inr h', f')" "live h'" "msg h' = Some m'" "healthy f'"
      "st_data (strm f') = st_data (strm f)" "fsize f' = fsize f"
    using rehash_chunks_complete [OF assms(1,2) v(2) u(2) _ assms(3-5)] by blast
  obtain d u2 where "sh_finalize U (digest_buffer U) h' = Inr (d, u2)"
    using strong_hash_totalD(4) [OF assms(4) r(2,3)] by blast
  then show ?thesis using True u v r by (simp add: trailer_digest_def)
qed (use assms(1) in \<open>simp add: trailer_digest_def\<close>)


lemma writeTrailer_complete:
  assumes "gen_ready old new ocs s" and "\<forall>c \<in> set cs. chunk_good D new c" and "length new \<le> STREAMOFF_MAX"
    and "length pre \<le> STREAMOFF_MAX" and "sh_size U \<le> STREAMOFF_MAX"
    and "strong_hash_sound U D msg" and "strong_hash_total U msg live" and "DELTA_DIGEST_BYTES \<le> sh_size U"
  shows "\<exists>s'. writeTrailer U cs pre s = (Inr (), s') \<and> healthy (gs_old s') \<and> healthy (gs_new s') \<and>
    healthy_out (out (gs_writer s'))"
proof -
  have s: "healthy (gs_old s)" "healthy (gs_new s)" "st_data (strm (gs_new s)) = new" "fsize (gs_new s) = length new"
      "healthy_out (out (gs_writer s))"
    using assms(1) by (simp_all add: gen_ready_def gen_inv_def)
  have good: "\<forall>c \<in> set cs. chunk_good D (st_data (strm (gs_new s))) c" using assms(2) s(3) by simp
  obtain dig f where d: "trailer_digest U cs pre (gs_new s) = (Inr dig, f)" "healthy f" "st_data (strm f) = new" "fsize f = length new"
    using trailer_digest_complete [OF s(2) good assms(6-8), of pre] s(3,4) by auto
  have "trailer_ok D new cs pre dig"
    using trailer_digest_sound(3) [OF d(1) _ assms(6) refl] s(2,3) by (cases "pre = []") (simp_all add: trailer_ok_def healthy_def)
  then have len: "length dig \<le> STREAMOFF_MAX"
    using assms(4,5) strong_hash_soundD(1) [OF assms(6)] by (auto simp: trailer_ok_def split: if_splits)
  obtain f' where f': "at_file_end ''New input changed or failed while reading'' f = (Inr (), f')" "healthy f'"
    using at_file_end_complete [OF d(2)] d(3,4) assms(3) by auto
  obtain ok w where w: "write_trailer dig (gs_writer s) = (ok, w)" by fastforce
  have "writing (out (gs_writer s))" using s(5) by (simp add: healthy_out_def)
  note wa = write_trailer_appends(3) [OF w this s(5) len]
  then show ?thesis using d f' w s(1) by (simp add: writeTrailer_def)
qed

lemma generate_records_complete:
  assumes "gen_ready old new (sg_chunks og) s" and "\<forall>c \<in> set (sg_chunks og). chunk_good D old c"
    and "\<forall>c \<in> set (sg_chunks nf). chunk_good D new c" and "length old \<le> STREAMOFF_MAX" and "length new \<le> STREAMOFF_MAX"
    and "length (sg_whole nf) \<le> STREAMOFF_MAX" and "sh_size U \<le> STREAMOFF_MAX"
    and "strong_hash_sound U D msg" and "strong_hash_total U msg live" and "DELTA_DIGEST_BYTES \<le> sh_size U"
  shows "\<exists>s'. generate_records U og nf s = (Inr (), s') \<and> healthy (gs_old s') \<and> healthy (gs_new s') \<and>
    healthy_out (out (gs_writer s'))"
proof -
  obtain u where u: "sh_new U = Inr u" "live u" using strong_hash_totalD(1) [OF assms(9)] by blast
  obtain s1 where s1: "process_chunks U (sg_chunks og) 0 (sg_chunks nf) u s = (Inr (), s1)" "gen_ready old new (sg_chunks og) s1"
    using process_chunks_complete [OF assms(1,3,2) u(2) assms(8-10)] by blast
  have o: "healthy (gs_old s1)" "st_data (strm (gs_old s1)) = old" "fsize (gs_old s1) = length old"
    using s1(2) by (simp_all add: gen_ready_def gen_inv_def)
  obtain f where f: "verify_chunks U (sg_chunks og) u (gs_old s1) = (Inr (), f)" "healthy f" "reading f"
      "st_data (strm f) = old" "fsize f = length old"
    using verify_chunks_complete [OF o(1) _ u(2) assms(8-10), of "sg_chunks og"] assms(2) o(2,3) by auto
  obtain f' where f': "at_file_end ''Old input changed or failed while reading'' f = (Inr (), f')" "healthy f'" "reading f'"
      "st_data (strm f') = old" "fsize f' = length old"
    using at_file_end_complete [OF f(2)] f(4,5) assms(4) by auto
  have "gen_ready old new (sg_chunks og) (s1\<lparr>gs_old := f'\<rparr>)" using s1(2) f' by (simp add: gen_ready_def gen_inv_def)
  from writeTrailer_complete [OF this assms(3,5-10)] show ?thesis
    using u s1 f f' by (auto simp: generate_records_def processMultipleChunks_def verify_old_state_def verifyOldFile_def)
qed

lemma fio_close_input: "healthy f \<Longrightarrow> fst (fio_close f)"
  using st_fault_quiet [of "strm f"]
  by (auto simp: healthy_def reading_def stream_calm_def fio_close_def Let_def discard_read_buffer_def is_open_def st_close_def
      st_clear_def st_failed_def st_good_def st_fault_def st_step_def plan_quiet_def split: option.splits list.splits)

lemma generate_opened_complete:
  assumes "healthy f" and "healthy g" and "healthy_out (tx_file tx)" and "written (tx_file tx) = []"
    and "st_data (strm f) = old" and "st_data (strm g) = new" and "fsize f = length old" and "fsize g = length new"
    and "tiling (sg_chunks og) (length old) 0" and "tiling (sg_chunks nf) (length new) 0"
    and "\<forall>c \<in> set (sg_chunks og). chunk_matches D old c" and "\<forall>c \<in> set (sg_chunks nf). chunk_matches D new c"
    and "length old \<le> STREAMOFF_MAX" and "length new \<le> STREAMOFF_MAX"
    and "length (sg_whole nf) \<le> STREAMOFF_MAX" and "sh_size U \<le> STREAMOFF_MAX"
    and "strong_hash_sound U D msg" and "strong_hash_total U msg live" and "DELTA_DIGEST_BYTES \<le> sh_size U"
    and "no_faults w" and "may_publish w (tx_destination tx) (tx_inputs tx)"
    and "tx_temporary tx \<noteq> []" and "w_names w (tx_temporary tx) = Some k"
  shows "\<exists>stats tx' w'. generate_opened U og nf f g tx w = (Inr stats, tx', w')"
proof -
  have wr: "writing (tx_file tx)" using assms(3) by (simp add: healthy_out_def)
  obtain ok v where h: "write_header (new_writer (tx_file tx)) = (ok, v)" by fastforce
  note wh = write_header_appends [OF h wr assms(4)]
  define s where "s = \<lparr>gs_old = f, gs_new = g, gs_writer = v, gs_index = make_index (sg_chunks og), gs_processed = 0\<rparr>"
  have "gen_ready old new (sg_chunks og) s"
    using assms(1,2,5-8) wh wh(3) [OF assms(3)] make_index_valid by (simp add: gen_ready_def gen_inv_def s_def healthy_def)
  then obtain s' where s': "generate_records U og nf s = (Inr (), s')" "healthy (gs_old s')" "healthy (gs_new s')"
      "healthy_out (out (gs_writer s'))"
    using generate_records_complete [OF _ tiling_good [OF assms(9,13,11)] tiling_good [OF assms(10,14,12)] assms(13-19)] by blast
  have "may_publish w (tx_destination (tx\<lparr>tx_file := out (gs_writer s')\<rparr>)) (tx_inputs (tx\<lparr>tx_file := out (gs_writer s')\<rparr>))"
    using assms(21) by simp
  from tx_commit_complete [OF assms(20) this, of k] obtain tx' w' where
    "tx_commit (tx\<lparr>tx_file := out (gs_writer s')\<rparr>) w = (Inr (), tx', w')" using s'(4) assms(22,23) by auto
  then show ?thesis
    using h wh(3) [OF assms(3)] s' assms(7-10) fio_close_input
    by (simp add: generate_opened_def coversExactly_iff s_def Let_def)
qed

text \<open>Opening two inputs and staging an output beside its destination.\<close>

lemma open_all_complete:
  assumes "output_ready w dest [p, q]" and "file_at w p bs" and "file_at w q cs"
  obtains f g tx w' k where "fio_open nr p IN fio_default w = (True, f, w)" and "fio_open nr q IN fio_default w = (True, g, w)"
    and "healthy f" and "st_data (strm f) = bs" and "remaining f = bs" and "fsize f = length bs"
    and "healthy g" and "st_data (strm g) = cs" and "remaining g = cs" and "fsize g = length cs"
    and "tx_open nr dest [p, q] tx_new w = (Inr (), tx, w')" and "healthy_out (tx_file tx)" and "written (tx_file tx) = []"
    and "no_faults w'" and "may_publish w' (tx_destination tx) (tx_inputs tx)" and "tx_temporary tx \<noteq> []"
    and "w_names w' (tx_temporary tx) = Some k" and "tx_destination tx = dest"
    and "staged_inv w (tx, w')"
proof -
  have nf: "no_faults w" and wf: "wf_world w" "\<forall>s \<in> set (w_slots w). s = None" using assms(1) by (simp_all add: output_ready_def)
  obtain n m where nm: "node_at w p = Some n" "nd_kind n = Regular" "nd_data n = bs"
      "node_at w q = Some m" "nd_kind m = Regular" "nd_data m = cs" using assms(2,3) by (auto simp: file_at_def)
  obtain f where f: "fio_open nr p IN fio_default w = (True, f, w)" "healthy f" "remaining f = bs" "st_data (strm f) = bs" "fsize f = length bs"
    using fio_open_input_complete [OF nf nm(1,2), of nr] nm(3) by auto
  obtain g where g: "fio_open nr q IN fio_default w = (True, g, w)" "healthy g" "remaining g = cs" "st_data (strm g) = cs" "fsize g = length cs"
    using fio_open_input_complete [OF nf nm(4,5), of nr] nm(6) by auto
  obtain tx w' k where tx: "tx_open nr dest [p, q] tx_new w = (Inr (), tx, w')" "tx_destination tx = dest" "tx_inputs tx = [p, q]"
      "no_faults w'" "may_publish w' dest [p, q]" "healthy_out (tx_file tx)" "written (tx_file tx) = []"
      "tx_temporary tx \<noteq> []" "w_names w' (tx_temporary tx) = Some k"
    using tx_open_complete [OF assms(1), of nr] by auto
  have "staged_inv w (tx, w')" by (rule tx_open_inv(1) [OF tx(1) staged_inv_start [OF wf same_disk_refl]])
  then show ?thesis using that [OF f(1) g(1) f(2,4,3,5) g(2,4,3,5) tx(1,6,7,4) _ tx(8,9,2)] tx(2,3,5) by simp
qed

lemma generate_delta_succeeds:
  assumes "output_ready w delta_path [old_path, new_path]" and "file_at w old_path old" and "file_at w new_path new"
    and "tiling (sg_chunks og) (length old) 0" and "tiling (sg_chunks nf) (length new) 0"
    and "\<forall>c \<in> set (sg_chunks og). chunk_matches D old c" and "\<forall>c \<in> set (sg_chunks nf). chunk_matches D new c"
    and "length old \<le> STREAMOFF_MAX" and "length new \<le> STREAMOFF_MAX"
    and "length (sg_whole nf) \<le> STREAMOFF_MAX" and "sh_size U \<le> STREAMOFF_MAX"
    and "strong_hash_sound U D msg" and "strong_hash_total U msg live" and "DELTA_DIGEST_BYTES \<le> sh_size U"
  shows "\<exists>stats w'. generate_delta nr U og nf old_path new_path delta_path w = (Inr stats, w')"
proof -
  obtain f g tx w1 k where a: "fio_open nr old_path IN fio_default w = (True, f, w)" "fio_open nr new_path IN fio_default w = (True, g, w)"
    "healthy f" "st_data (strm f) = old" "remaining f = old" "fsize f = length old"
    "healthy g" "st_data (strm g) = new" "remaining g = new" "fsize g = length new"
    "tx_open nr delta_path [old_path, new_path] tx_new w = (Inr (), tx, w1)" "healthy_out (tx_file tx)" "written (tx_file tx) = []"
    "no_faults w1" "may_publish w1 (tx_destination tx) (tx_inputs tx)" "tx_temporary tx \<noteq> []"
    "w_names w1 (tx_temporary tx) = Some k" "tx_destination tx = delta_path" "staged_inv w (tx, w1)"
    by (rule open_all_complete [OF assms(1-3)])
  obtain stats tx' w2 where "generate_opened U og nf f g tx w1 = (Inr stats, tx', w2)"
    using generate_opened_complete [OF a(3,7,12,13,4,8,6,10) assms(4-14) a(14-17)] by blast
  then show ?thesis
    using a(1,2,11) by (simp add: generate_delta_def generateImpl_def openFiles_def)
qed

lemma sign_matches_all:
  assumes "strong_hash_sound U D msg" and "DELTA_DIGEST_BYTES \<le> sh_size U"
  shows "\<forall>c \<in> set (sign D data). chunk_matches D data c"
  using sign_matches strong_hash_soundD(1) [OF assms(1)] assms(2) by simp

section \<open>Application on devices that do not fail\<close>

lemma sign_fits:
  assumes "length old \<le> STREAMOFF_MAX" and "strong_hash_sound U D msg" and "DELTA_DIGEST_BYTES \<le> sh_size U"
  shows "chunks_fit old (sign D old)"
  using tiling_good [OF sign_tiling assms(1) sign_matches_all [OF assms(2,3)]] tiling_chunks(1) [OF sign_tiling]
  by (auto simp: chunks_fit_def chunk_good_def chunk_matches_def)

lemma apply_delta_succeeds:
  assumes "output_ready w out_path [old_path, delta_path]" and "file_at w old_path old"
    and "file_at w delta_path (header_bytes @ rest)" and "stream_wire rest es (D (concat ps))"
    and "list_all2 (entry_output D old (sign D old)) es ps" and "length (concat ps) \<le> unat m"
    and "length old \<le> STREAMOFF_MAX"
    and "strong_hash_sound U D msg" and "strong_hash_total U msg live" and "DELTA_DIGEST_BYTES \<le> sh_size U"
  shows "\<exists>w'. apply_delta nr (rk_alg rk_default) U old_path delta_path out_path m w =
      (Inr \<lparr>as_entries_processed = length es, as_bytes_written = length (concat ps)\<rparr>, w') \<and>
    published w w' out_path (concat ps)"
proof -
  obtain f g tx w1 k where a: "fio_open nr old_path IN fio_default w = (True, f, w)" "fio_open nr delta_path IN fio_default w = (True, g, w)"
    "healthy f" "st_data (strm f) = old" "remaining f = old" "fsize f = length old"
    "healthy g" "st_data (strm g) = header_bytes @ rest" "remaining g = header_bytes @ rest"
    "fsize g = length (header_bytes @ rest)"
    "tx_open nr out_path [old_path, delta_path] tx_new w = (Inr (), tx, w1)" "healthy_out (tx_file tx)" "written (tx_file tx) = []"
    "no_faults w1" "may_publish w1 (tx_destination tx) (tx_inputs tx)" "tx_temporary tx \<noteq> []"
    "w_names w1 (tx_temporary tx) = Some k" "tx_destination tx = out_path" "staged_inv w (tx, w1)"
    by (rule open_all_complete [OF assms(1-3)])
  have rf: "reading f" "reading g" using a(3,7) by (simp_all add: healthy_def)
  obtain u where u: "sh_new U = Inr u" using strong_hash_totalD(1) [OF assms(9)] by blast
  obtain x g1 where h: "run_state (read_header file_source) g = (x, g1)" by fastforce
  note hs = simulatesD [OF fio.read_header_sim rf(2) h]
  have "\<not> io_error g1" and g1: "healthy g1"
    using hs(3) a(7) by (simp_all add: healthy_def)
  then have g1': "x = Inr ()" "remaining g1 = rest"
    using hs(4) a(9) by (simp_all add: read_header_bytes)
  have "fsize f = length (st_data (strm f))" using a(4,6) by simp
  then obtain sg f1 where sg: "generate_signatures (rk_alg rk_default) U Skip f = Inr (True, sg, f1)"
    using shipped_total [OF assms(8-10) a(3)] by blast
  note sgc = shipped_correct [OF sg assms(8) rf(1)]
  have cs: "sg_chunks sg = sign D old" and f1: "st_data (strm f1) = old" "healthy f1"
    using sgc a(3,4) by (simp_all add: file_kept_def)
  have fit: "chunks_fit old (sign D old)" by (rule sign_fits [OF assms(7,8,10)])
  obtain f2 g2 dst where st: "apply_stream U (sign D old) m f1 g1 (tx_file tx) =
      (Inr \<lparr>as_entries_processed = length es, as_bytes_written = length (concat ps)\<rparr>, f2, g2, dst)"
      "healthy f2" "healthy g2" "healthy_out dst" "written dst = concat ps"
    using apply_stream_complete [OF assms(5) fit f1(2,1) g1 a(12,13) _ assms(6,8-10)] assms(4) g1'(2) by blast
  let ?tx = "tx\<lparr>tx_file := dst\<rparr>"
  obtain tx' w2 where cm: "tx_commit ?tx w1 = (Inr (), tx', w2)"
    using tx_commit_complete [OF a(14), of ?tx k] a(15-17) st(4) by auto
  have o: "apply_opened (rk_alg rk_default) U old_path m f g tx w1 =
      (Inr \<lparr>as_entries_processed = length es, as_bytes_written = length (concat ps)\<rparr>, tx', w2)"
    using u h g1' sg cs st cm fio_close_input by (simp add: apply_opened_def Let_def)
  obtain tx'' w3 where d: "tx_destroy tx' w2 = (tx'', w3)" by fastforce
  have "staged_inv w (?tx, w1)" using a(19) by (simp add: staged_inv_def)
  moreover have "is_open (tx_file ?tx)" using st(4) by (simp add: healthy_out_def writing_def)
  ultimately have "published w w3 out_path (concat ps)"
    using commit_published [OF cm _ _ _ d] a(16,18) st(5) by simp
  then show ?thesis
    using a(1,2,11) o d by (simp add: apply_delta_def apply_delta_impl_def)
qed

lemma encoded_delta_succeeds:
  assumes "output_ready w out_path [old_path, delta_path]" and "file_at w old_path old"
    and "file_at w delta_path (encode_delta es (D (concat ps)))"
    and "list_all2 (entry_output D old (sign D old)) es ps" and "length (concat ps) \<le> unat m"
    and "length old \<le> STREAMOFF_MAX"
    and "strong_hash_sound U D msg" and "strong_hash_total U msg live" and "DELTA_DIGEST_BYTES \<le> sh_size U"
  shows "\<exists>w'. apply_delta nr (rk_alg rk_default) U old_path delta_path out_path m w =
      (Inr \<lparr>as_entries_processed = length es, as_bytes_written = length (concat ps)\<rparr>, w') \<and>
    published w w' out_path (concat ps)"
proof -
  have "entry_ok e" if "e \<in> set es" for e
  proof -
    obtain p where "entry_output D old (sign D old) e p"
      using assms(4) \<open>e \<in> set es\<close> by (metis list_all2_conv_all_nth in_set_conv_nth)
    then show ?thesis
      by (rule entry_output_ok [OF _ sign_fits [OF assms(6,7,9)]]) (use strong_hash_soundD(1) [OF assms(7)] assms(9) in simp)
  qed
  then have "stream_wire (concat (map encode_entry es) @ DELTA_TRAILER_TAG # D (concat ps)) es (D (concat ps))"
    by (intro stream_wire_encode) blast
  with assms(3) show ?thesis
    unfolding encode_delta_def by (intro apply_delta_succeeds [OF assms(1,2) _ _ assms(4-9)])
qed


section \<open>The round trip\<close>

text \<open>The digests of the two files' chunks tell their contents apart.\<close>

definition digest_separates :: "(bytes \<Rightarrow> bytes) \<Rightarrow> bytes \<Rightarrow> bytes \<Rightarrow> bool" where
  "digest_separates D old new \<longleftrightarrow>
     (\<forall>a \<in> set (chunks_of old). \<forall>b \<in> set (chunks_of new). length a = length b \<longrightarrow>
        take DELTA_DIGEST_BYTES (D a) = take DELTA_DIGEST_BYTES (D b) \<longrightarrow> a = b)"

lemma sign_chunk_bytes: "c \<in> set (sign D data) \<Longrightarrow> chunk_bytes data c \<in> set (chunks_of data)"
  using sign_from_bytes [of "[]" "chunks_of data" D "rk_value rk_default" 48]
  by (metis append_Nil concat_chunks_of image_eqI list.set_map list.size(3) sign_def)

lemma separates_no_collision:
  assumes "digest_separates D old new" and "\<forall>c \<in> set (sign D old). chunk_matches D old c"
    and "\<forall>c \<in> set (sign D new). chunk_matches D new c"
  shows "no_collision old new (sign D old) (sign D new)"
  unfolding no_collision_def
proof (intro ballI impI)
  fix a b assume ab: "a \<in> set (sign D old)" "b \<in> set (sign D new)" "same_content a b"
  have "length (chunk_bytes old a) = chunk_size a" "sc_hash a = take DELTA_DIGEST_BYTES (D (chunk_bytes old a))"
    "length (chunk_bytes new b) = chunk_size b" "sc_hash b = take DELTA_DIGEST_BYTES (D (chunk_bytes new b))"
    using assms(2,3) ab unfolding chunk_matches_def by blast+
  then show "chunk_bytes old a = chunk_bytes new b"
    using assms(1) sign_chunk_bytes [OF ab(1)] sign_chunk_bytes [OF ab(2)] ab(3)
    unfolding digest_separates_def same_content_def by metis
qed

text \<open>The records generated for two signed files stand for the second one, and the trailer is its digest.\<close>

lemma generated_stands_for_new:
  assumes "gen_entries D old new (sign D old) 0 (sign D new) es ps" and "trailer_ok D new (sign D new) whole dig"
    and "whole = [] \<or> whole = D new" and "digest_separates D old new"
    and "strong_hash_sound U D msg" and "DELTA_DIGEST_BYTES \<le> sh_size U"
    and "length old \<le> STREAMOFF_MAX" and "length new \<le> STREAMOFF_MAX"
  shows "list_all2 (entry_output D old (sign D old)) es ps" and "concat ps = new" and "dig = D new"
    and "length es = length (sign D new)"
proof -
  note m = sign_matches_all [OF assms(5,6)]
  have sz: "\<forall>c \<in> set (sign D x). chunk_size c \<le> DELTA_MAX_CHUNK_SIZE" for x
    using tiling_chunks(3) [OF sign_tiling] by blast
  have len: "length (sign D x) < 2 ^ 64" if "length x \<le> STREAMOFF_MAX" for x
    using tiling_length [OF sign_tiling, of D x] that by (simp add: STREAMOFF_MAX_def)
  have out: "list_all2 (entry_output D old (sign D old)) es ps \<and> length es = length (sign D new)"
    by (rule gen_entries_output [OF assms(1)]) (use m sz len assms(7,8) in auto)
  then show "list_all2 (entry_output D old (sign D old)) es ps" and "length es = length (sign D new)" by simp_all
  have b: "concat (map (chunk_bytes new) (sign D new)) = new"
    using tiling_bytes [OF sign_tiling [of D new] refl] by simp
  show "concat ps = new"
    using gen_entries_bytes [OF assms(1) separates_no_collision [OF assms(4) m m]] b by simp
  show "dig = D new" using assms(2,3) b by (auto simp: trailer_ok_def split: if_splits)
qed

section \<open>Sample files\<close>

text \<open>A world with the files listed and no fault, for the concrete instances below.\<close>

lemma world_of_names: "w_names (world_of fs) p = None \<longleftrightarrow> p \<notin> fst ` set fs"
proof -
  have "fst ` set (zip (map fst fs) [0..<length fs]) = set (map fst (zip (map fst fs) [0..<length fs]))"
    by (simp only: set_map)
  also have "\<dots> = fst ` set fs" by simp
  finally show ?thesis by (simp add: world_of_def map_of_eq_None_iff)
qed

lemma output_ready_world_of:
  assumes "dest \<noteq> []" and "filename dest \<noteq> []" and "dest \<notin> fst ` set fs" and "set ins \<subseteq> fst ` set fs"
    and "fst (candidate_path dest (world_of fs)) \<notin> fst ` set fs"
  shows "output_ready (world_of fs) dest ins"
proof -
  have "w_names (world_of fs) dest = None" using assms(3) world_of_names by blast
  moreover have "w_names (world_of fs) p \<noteq> None" if "p \<in> set ins" for p
    using assms(4) that unfolding world_of_names by blast
  ultimately have "may_publish (world_of fs) dest ins" by (simp add: may_publish_def)
  then show ?thesis
    using assms(1,2,5) world_of_names [of fs] world_of_wf [of fs] world_of_slots [of fs] by (simp add: output_ready_def)
qed

abbreviation sample_hash :: "bytes BLAKE2b strong_hash" where
  "sample_hash \<equiv> blake_alg record_evp"

definition sample_signature :: "bytes \<Rightarrow> Signature" where
  "sample_signature bs = signature_of record_digest (rk_value rk_default) 48 Compute bs"

definition sample_world :: world where
  "sample_world = world_of [(''a'', [1]), (''b'', [2])]"

definition sample_delta :: bytes where
  "sample_delta = encode_delta [AddedE (take 16 (record_digest [2])) [2]] (record_digest [2])"

definition sample_delta_world :: world where
  "sample_delta_world = world_of [(''a'', [1]), (''d'', sample_delta)]"


lemma sample_signature_parts [simp]:
  "sg_chunks (sample_signature bs) = sign record_digest bs" "sg_whole (sample_signature bs) = record_digest bs"
  by (simp_all add: sample_signature_def) (simp add: signature_of_def)

lemma sample_files:
  "file_at sample_world ''a'' [1]" "file_at sample_world ''b'' [2]"
  "file_at sample_delta_world ''a'' [1]" "file_at sample_delta_world ''d'' sample_delta"
  by (simp_all add: file_at_def node_at_def sample_world_def sample_delta_world_def world_of_def new_node_def upt_rec)

lemma candidate_path_sample:
  "x \<noteq> CHR ''/'' \<Longrightarrow> fst (candidate_path [x] (world_of fs)) = ''.rolling_hash-0-0-0''"
proof -
  have "char_of (48 :: nat) = CHR ''0''" by code_simp
  then show "x \<noteq> CHR ''/'' \<Longrightarrow> fst (candidate_path [x] (world_of fs)) = ''.rolling_hash-0-0-0''"
    by (simp add: candidate_path_def take_random_def world_of_def path_append_def parent_path_def filename_def
        to_dec.simps Let_def)
qed

lemma sample_ready:
  "output_ready sample_world ''d'' [''a'', ''b'']" "output_ready sample_delta_world ''o'' [''a'', ''d'']"
  unfolding sample_world_def sample_delta_world_def
  by (rule output_ready_world_of; simp add: candidate_path_sample filename_def)+

lemma sample_chunks: "chunks_of [b] = [[b]]" 
  by (simp add: chunks_of_def chunk_list.simps)

lemma sample_separates: "digest_separates record_digest [1] [2]"
  by (simp add: digest_separates_def sample_chunks record_digest_def DELTA_DIGEST_BYTES_def HASH_SIZE_def)

lemma record_alg_fields: "sh_size sample_hash \<le> STREAMOFF_MAX" "DELTA_DIGEST_BYTES \<le> sh_size sample_hash"
  by (simp_all add: blake_alg_def HASH_SIZE_def STREAMOFF_MAX_def DELTA_DIGEST_BYTES_def)

lemma sample_created: "\<exists>stats w'. generate_delta nr sample_hash (sample_signature [1]) (sample_signature [2]) ''a'' ''b'' ''d'' sample_world =
    (Inr stats, w')"
  by (rule generate_delta_succeeds [OF sample_ready(1) sample_files(1,2) _ _ _ _ _ _ _ record_alg_fields(1)
        record_alg_sound record_alg_total record_alg_fields(2)])
    (use sign_tiling [of record_digest "[1]"] sign_tiling [of record_digest "[2]"] sign_matches_all [OF record_alg_sound record_alg_fields(2)] in
      \<open>simp_all add: record_digest_def HASH_SIZE_def STREAMOFF_MAX_def\<close>)

lemma sample_entry: "list_all2 (entry_output record_digest [1] (sign record_digest [1]))
    [AddedE (take 16 (record_digest [2])) [2]] [[2]]"
  by (auto intro!: entry_output.Added simp: DELTA_MAX_CHUNK_SIZE_def DELTA_DIGEST_BYTES_def)


section \<open>Properties of generation\<close>

text \<open>The signature is that of the bytes: its chunks tile them, and each has their digest.\<close>

definition describes :: "(bytes \<Rightarrow> bytes) \<Rightarrow> Signature \<Rightarrow> bytes \<Rightarrow> bool" where
  "describes D sg bs \<longleftrightarrow> tiling (sg_chunks sg) (length bs) 0 \<and> (\<forall>c \<in> set (sg_chunks sg). chunk_matches D bs c)"

text \<open>The size check accepts a signature exactly if its chunks lie end to end from 0 to the size, none
  empty and none over the format's maximum; so the signature of some content passes for that
  content's length and for no other.\<close>

lemma coverage_is_tiling:
  "(coversExactly cs sz \<longleftrightarrow> tiling cs sz 0) \<and> (coversExactly (sign D data) sz \<longleftrightarrow> sz = length data)"
proof
  show "coversExactly cs sz \<longleftrightarrow> tiling cs sz 0" by (rule coversExactly_iff)
  show "coversExactly (sign D data) sz \<longleftrightarrow> sz = length data"
    unfolding coversExactly_iff using sign_tiling [of D data] by (auto simp: tiling_def)
qed

text \<open>C3 Soundness of generation: if \<open>generate_delta\<close> succeeds, whatever faults occurred, both signatures
  cover their files, the old file is the one that was signed, and what was published is the header,
  one entry per new chunk in order -- a copy for content the old file has, else the bytes or a diff
  that is shorter than they are -- and the trailer; the statistics are right and no other file
  changed.\<close>

theorem generate_delta_sound:
  assumes "generate_delta nr U og nf old_path new_path delta_path w = (Inr stats, w')"
    and "strong_hash_sound U D msg" and "wf_world w" and "\<forall>s \<in> set (w_slots w). s = None"
  shows "\<exists>n m es ps dig. node_at w old_path = Some n \<and> node_at w new_path = Some m \<and> describes D og (nd_data n) \<and>
    tiling (sg_chunks nf) (length (nd_data m)) 0 \<and>
    gen_entries D (nd_data n) (nd_data m) (sg_chunks og) 0 (sg_chunks nf) es ps \<and>
    trailer_ok D (nd_data m) (sg_chunks nf) (sg_whole nf) dig \<and>
    published w w' delta_path (encode_delta es dig) \<and>
    stats = \<lparr>ds_chunks_processed = length (sg_chunks nf), ds_bytes_written = length (encode_delta es dig)\<rparr>"
  unfolding describes_def by (rule generate_delta_publishes [OF assms]) blast

theorem generate_delta_sound_witness:
  "\<exists>stats w'. generate_delta True sample_hash (sample_signature [1]) (sample_signature [2]) ''a'' ''b'' ''d'' sample_world =
     (Inr stats, w') \<and> ds_chunks_processed stats = 1"
proof -
  obtain stats w' where r: "generate_delta True sample_hash (sample_signature [1]) (sample_signature [2]) ''a'' ''b'' ''d''
      sample_world = (Inr stats, w')" using sample_created by blast
  have "wf_world sample_world" "\<forall>s \<in> set (w_slots sample_world). s = None"
    unfolding sample_world_def by (rule world_of_wf, rule world_of_slots)
  moreover have "length (sign record_digest [2]) = 1" by (simp add: sign_def sample_chunks)
  ultimately show ?thesis using generate_delta_sound [OF r record_alg_sound] r by auto
qed

lemma gen_entries_fresh:
  assumes "gen_entries D old new ocs i cs es ps" and "c \<in> set cs" and "\<not> (\<exists>x \<in> set ocs. same_content x c)"
  shows "chunk_matches D new c"
  using assms(1,2)
proof (induction rule: gen_entries.induct)
  case (Cons i c' e p cs es ps)
  from Cons.hyps(1) have "c' = c \<Longrightarrow> chunk_matches D new c" by cases (use assms(3) in auto)
  then show ?case using Cons by auto
qed simp

text \<open>What generation does not accept: an old signature that does not describe the old file, chunks of the new signature
  that do not cover the new file, and a new chunk whose bytes are no longer the signed ones, if these
  bytes are read: always when the trailer has to be computed from them, else when the old file does not have
  the chunk's content.\<close>

definition stale :: "(bytes \<Rightarrow> bytes) \<Rightarrow> Signature \<Rightarrow> Signature \<Rightarrow> bytes \<Rightarrow> bytes \<Rightarrow> bool" where
  "stale D og nf old new \<longleftrightarrow> \<not> describes D og old \<or> \<not> tiling (sg_chunks nf) (length new) 0 \<or>
     (\<exists>c \<in> set (sg_chunks nf). \<not> chunk_matches D new c \<and>
        (sg_whole nf = [] \<or> \<not> (\<exists>x \<in> set (sg_chunks og). same_content x c)))"

text \<open>C13 Generation notices that an input changed after it was signed, wherever it reads the input again: if the old
  signature does not describe the old file, or the new one does not cover the new file, or a new chunk that the
  old file does not have is no longer what was signed, then no delta is produced and every file keeps its name,
  bytes and permissions; without a digest of the whole new file the same holds for every new
  chunk.  With it, as in the shipped \<open>create\<close>, a chunk that is copied from the old file is not read again, and a change
  of such a chunk that keeps the size of the file is outside of this claim: the delta stands for the content that was signed.\<close>

theorem stale_signature_refused:
  assumes "generate_delta nr U og nf old_path new_path delta_path w = (r, w')"
    and "node_at w old_path = Some n" and "node_at w new_path = Some m" and "stale D og nf (nd_data n) (nd_data m)"
    and "strong_hash_sound U D msg" and "wf_world w" and "\<forall>s \<in> set (w_slots w). s = None"
  shows "(\<exists>e. r = Inl e) \<and> untouched w w'"
proof (cases r)
  case (Inl e)
  then obtain x where "generateImpl nr U og nf old_path new_path delta_path w = (Inl x, w')"
    using assms(1) by (auto simp: generate_delta_def split: prod.splits sum.splits failure.splits)
  from generateImpl_untouched [OF this assms(6,7)] Inl show ?thesis by simp
next
  case (Inr stats)
  have False
    by (rule generate_delta_publishes [OF assms(1) [unfolded Inr] assms(5-7)])
      (use assms(2-4) gen_entries_fresh in \<open>fastforce simp: stale_def describes_def trailer_ok_def\<close>)
  then show ?thesis ..
qed

theorem stale_signature_refused_witness:
  "\<exists>e w'. generate_delta True sample_hash (sample_signature [1, 1]) (sample_signature [2]) ''a'' ''b'' ''d'' sample_world =
     (Inl e, w') \<and> untouched sample_world w'"
proof -
  obtain r w' where r: "generate_delta True sample_hash (sample_signature [1, 1]) (sample_signature [2]) ''a'' ''b'' ''d''
      sample_world = (r, w')" by fastforce
  have "\<not> tiling (sign record_digest [1, 1]) (length [1 :: byte]) 0"
    using sign_tiling [of record_digest "[1, 1]"] by (auto simp: tiling_def)
  then have "\<not> describes record_digest (sample_signature [1, 1]) [1]" by (simp add: describes_def)
  then show ?thesis
    using stale_signature_refused [OF r _ _ _ record_alg_sound] r sample_files(1,2) world_of_wf world_of_slots
    by (auto simp: file_at_def sample_world_def stale_def)
qed

text \<open>When no device fails, generation from the signatures of two readable files always succeeds, if the
  output can be staged and does not name an input.\<close>

lemma generation_succeeds:
  assumes "output_ready w delta_path [old_path, new_path]" and "file_at w old_path old" and "file_at w new_path new"
    and "sg_chunks og = sign D old" and "sg_chunks nf = sign D new"
    and "length old \<le> STREAMOFF_MAX" and "length new \<le> STREAMOFF_MAX"
    and "length (sg_whole nf) \<le> STREAMOFF_MAX" and "sh_size U \<le> STREAMOFF_MAX"
    and "strong_hash_sound U D msg" and "strong_hash_total U msg live" and "DELTA_DIGEST_BYTES \<le> sh_size U"
  shows "\<exists>stats w'. generate_delta nr U og nf old_path new_path delta_path w = (Inr stats, w')"
  by (rule generate_delta_succeeds [OF assms(1-3) _ _ _ _ assms(6-12)])
    (use sign_tiling sign_matches_all [OF assms(10,12)] assms(4,5) in auto)

text \<open>The length of what is emitted: a record takes at most 27 bytes beside its payload.\<close>

lemma gen_entry_length:
  assumes "gen_entry D old new ocs i c e p" and "length (sc_hash c) = DELTA_DIGEST_BYTES" and "chunk_size c \<le> DELTA_MAX_CHUNK_SIZE"
  shows "length (encode_entry e) \<le> 27 + chunk_size c"
    and "(\<exists>x \<in> set ocs. same_content x c) \<Longrightarrow> length (encode_entry e) \<le> 27"
proof -
  note vs = varint_size_small [unfolded VARINT_MAX_BYTES_def]
  have lit: "length (encode_entry (AddedE (sc_hash c) (chunk_bytes new c))) \<le> 27 + chunk_size c" if "chunk_matches D new c"
    using that vs [of "of_nat (chunk_size c)"] entry_lengths(1) [OF assms(2), of "chunk_bytes new c"]
    by (simp add: added_size_def DELTA_DIGEST_BYTES_def chunk_matches_def)
  from assms(1) have "length (encode_entry e) \<le> 27 + chunk_size c \<and>
      ((\<exists>x \<in> set ocs. same_content x c) \<longrightarrow> length (encode_entry e) \<le> 27)"
  proof cases
    case (Reuse j)
    then have "length (encode_entry e) = 1 + varint_size (of_nat j) + DELTA_DIGEST_BYTES"
      using assms(2) by (simp add: length_record_head)
    then show ?thesis using vs [of "of_nat j"] by (simp add: DELTA_DIGEST_BYTES_def)
  next
    case Literal
    then have "\<not> (\<exists>x \<in> set ocs. same_content x c)" by (auto simp: in_set_conv_nth)
    then show ?thesis using Literal lit by simp
  next
    case (Diff diff)
    then have "\<not> (\<exists>x \<in> set ocs. same_content x c)" by (auto simp: in_set_conv_nth)
    then show ?thesis using Diff lit by simp
  qed
  then show "length (encode_entry e) \<le> 27 + chunk_size c"
    and "(\<exists>x \<in> set ocs. same_content x c) \<Longrightarrow> length (encode_entry e) \<le> 27" by blast+
qed

lemma gen_entry_digest: "gen_entry D old new ocs i c e p \<Longrightarrow> entry_digest e = sc_hash c"
  by (cases rule: gen_entry.cases) auto


text \<open>The bytes of the new chunks whose content the old file does not have.\<close>

definition novel_bytes :: "SignedChunk list \<Rightarrow> SignedChunk list \<Rightarrow> nat" where
  "novel_bytes ocs cs = sum_list (map (\<lambda>c. if \<exists>x \<in> set ocs. same_content x c then 0 else chunk_size c) cs)"

lemma novel_bytes_le: "novel_bytes ocs cs \<le> sum_list (map chunk_size cs)"
  by (induction cs) (simp_all add: novel_bytes_def)

lemma gen_entries_length:
  assumes "gen_entries D old new ocs i cs es ps" and "\<forall>x \<in> set ocs. chunk_matches D old x"
    and "\<forall>c \<in> set cs. chunk_size c \<le> DELTA_MAX_CHUNK_SIZE"
  shows "length (concat (map encode_entry es)) \<le> 27 * length cs + novel_bytes ocs cs"
  using assms(1,3)
proof (induction rule: gen_entries.induct)
  case (Cons i c e p cs es ps)
  have "length (sc_hash c) = DELTA_DIGEST_BYTES"
    using Cons.hyps(1)
  proof cases
    case (Reuse j)
    then have "chunk_matches D old (ocs ! j)" using assms(2) by simp
    then show ?thesis using Reuse unfolding same_content_def chunk_matches_def by metis
  next
    case Literal
    then show ?thesis unfolding chunk_matches_def by blast
  next
    case Diff
    then show ?thesis unfolding chunk_matches_def by blast
  qed
  note g = gen_entry_length [OF Cons.hyps(1) this]
  have "chunk_size c \<le> DELTA_MAX_CHUNK_SIZE" using Cons.prems by simp
  note g = g [OF this]
  have "length (concat (map encode_entry es)) \<le> 27 * length cs + novel_bytes ocs cs" using Cons.IH Cons.prems by simp
  moreover have "length (encode_entry e) \<le> 27 + (if \<exists>x \<in> set ocs. same_content x c then 0 else chunk_size c)"
    using g by (cases "\<exists>x \<in> set ocs. same_content x c") simp_all
  ultimately show ?case by (simp add: novel_bytes_def del: length_concat)
qed (simp add: novel_bytes_def)

text \<open>C38 How long a delta is: the file that a successful generation publishes has a header of 9 bytes with the tag of the
  trailer, the digest of the trailer, at most 27 bytes for each chunk of the new file, and beside that no more than
  the bytes of those new chunks whose content the old file does not have; content the old file has costs nothing but the
  record that refers to it, and never is the delta longer than the new file by more than the
  records, header and trailer.\<close>

theorem delta_size_bound:
  assumes "generate_delta nr U og nf old_path new_path delta_path w = (Inr stats, w')"
    and "strong_hash_sound U D msg" and "wf_world w" and "\<forall>s \<in> set (w_slots w). s = None" and "file_at w new_path new"
  shows "\<exists>delta. published w w' delta_path delta \<and> ds_bytes_written stats = length delta \<and>
    length delta \<le> 9 + max (length (sg_whole nf)) (sh_size U) + 27 * length (sg_chunks nf) +
      novel_bytes (sg_chunks og) (sg_chunks nf) \<and>
    novel_bytes (sg_chunks og) (sg_chunks nf) \<le> length new"
proof -
  obtain n m es ps dig where g:
    "node_at w old_path = Some n" "node_at w new_path = Some m"
    "tiling (sg_chunks og) (length (nd_data n)) 0" "tiling (sg_chunks nf) (length (nd_data m)) 0"
    "\<forall>c \<in> set (sg_chunks og). chunk_matches D (nd_data n) c"
    "gen_entries D (nd_data n) (nd_data m) (sg_chunks og) 0 (sg_chunks nf) es ps"
    "trailer_ok D (nd_data m) (sg_chunks nf) (sg_whole nf) dig" "published w w' delta_path (encode_delta es dig)"
    "stats = \<lparr>ds_chunks_processed = length (sg_chunks nf), ds_bytes_written = length (encode_delta es dig)\<rparr>"
    by (rule generate_delta_publishes [OF assms(1-4)])
  have "sum_list (map chunk_size (sg_chunks nf)) = length new"
    using g(2,4) assms(5) by (auto simp: tiling_def file_at_def)
  then have "novel_bytes (sg_chunks og) (sg_chunks nf) \<le> length new" using novel_bytes_le by metis
  moreover have "\<forall>c \<in> set (sg_chunks nf). chunk_size c \<le> DELTA_MAX_CHUNK_SIZE" using tiling_chunks(3) [OF g(4)] by blast
  moreover have "length dig \<le> max (length (sg_whole nf)) (sh_size U)"
    using g(7) strong_hash_soundD(1) [OF assms(2)] by (auto simp: trailer_ok_def split: if_splits)
  moreover have "length (encode_delta es dig) = 9 + length (concat (map encode_entry es)) + length dig"
    by (simp add: encode_delta_def header_bytes_def push_u32_be_def DELTA_MAGIC_def del: length_concat)
  ultimately show ?thesis
    using gen_entries_length [OF g(6,5)] g(8,9) by (intro exI [of _ "encode_delta es dig"]) (simp del: length_concat)
qed

text \<open>The new file of the sample, one byte that the old one does not have, costs at most 101 bytes.\<close>

theorem delta_size_bound_witness:
  "\<exists>stats w' delta. generate_delta True sample_hash (sample_signature [1]) (sample_signature [2]) ''a'' ''b'' ''d'' sample_world =
     (Inr stats, w') \<and> published sample_world w' ''d'' delta \<and> length delta \<le> 101"
proof -
  obtain stats w' where r: "generate_delta True sample_hash (sample_signature [1]) (sample_signature [2]) ''a'' ''b'' ''d''
      sample_world = (Inr stats, w')" using sample_created by blast
  have w: "wf_world sample_world" "\<forall>s \<in> set (w_slots sample_world). s = None"
    unfolding sample_world_def by (rule world_of_wf, rule world_of_slots)
  have "length (sign record_digest [2]) = 1" by (simp add: sign_def sample_chunks)
  with delta_size_bound [OF r record_alg_sound w sample_files(2)] r show ?thesis
    by (fastforce simp: record_digest_def HASH_SIZE_def blake_alg_def)
qed

section \<open>Properties of application\<close>

lemma apply_delta_publishes:
  assumes "apply_delta nr (rk_alg rk_default) U old_path delta_path out_path m w = (Inr stats, w')"
    and "strong_hash_sound U D msg" and "DELTA_DIGEST_BYTES \<le> sh_size U"
    and "wf_world w" and "\<forall>s \<in> set (w_slots w). s = None"
  shows "\<exists>n d rest es ps. node_at w old_path = Some n \<and> node_at w delta_path = Some d \<and>
    nd_data d = header_bytes @ rest \<and> stream_wire rest es (D (concat ps)) \<and>
    list_all2 (entry_output D (nd_data n) (sign D (nd_data n))) es ps \<and>
    published w w' out_path (concat ps) \<and> length (concat ps) \<le> unat m \<and>
    stats = \<lparr>as_entries_processed = length es, as_bytes_written = length (concat ps)\<rparr>"
proof -
  obtain n d f g tx w3 tx1 w4 where a: "node_at w old_path = Some n" "node_at w delta_path = Some d"
    "reading f" "st_data (strm f) = nd_data n" "reading g" "remaining g = nd_data d"
    "staged_inv w (tx, w3)" "staged_open (tx, w3)" "tx_destination tx = out_path"
    "apply_opened (rk_alg rk_default) U old_path m f g tx w3 = (Inr stats, tx1, w4)" "w' = snd (tx_destroy tx1 w4)"
    using apply_delta_impl_Inr [OF assms(1) [unfolded apply_delta_Inr] assms(4,5)] by blast
  have so: "writing (tx_file tx)" "written (tx_file tx) = []" "tx_temporary tx \<noteq> []"
    using a(8) by (simp_all add: staged_open_def)
  obtain rest es ps txc where b: "remaining g = header_bytes @ rest" "stream_wire rest es (D (concat ps))"
    "list_all2 (entry_output D (nd_data n) (sign D (nd_data n))) es ps" "length (concat ps) \<le> unat m"
    "stats = \<lparr>as_entries_processed = length es, as_bytes_written = length (concat ps)\<rparr>"
    "txc = tx\<lparr>tx_file := tx_file txc\<rparr>" "is_open (tx_file txc)" "written (tx_file txc) = concat ps"
    "tx_commit txc w3 = (Inr (), tx1, w4)"
    using apply_opened_sound [OF a(10,3,5) so(1,2) assms(2,3)] a(4) by auto
  have t: "tx_temporary txc = tx_temporary tx" "tx_destination txc = out_path" "tx_slot txc = tx_slot tx"
    using a(9) by (subst b(6), simp)+
  have "staged_inv w (txc, w3)" using a(7) t by (simp add: staged_inv_def)
  moreover obtain tx'' where "tx_destroy tx1 w4 = (tx'', w')" using a(11) by (cases "tx_destroy tx1 w4") auto
  ultimately have "published w w' out_path (concat ps)"
    using commit_published [OF b(9,7)] so(3) t b(8) by auto
  then show ?thesis using a(1,2,6) b(1-5)
    by (intro exI [of _ n] exI [of _ d] exI [of _ rest] exI [of _ es] exI [of _ ps]) simp
qed

text \<open>C2 Soundness of application: if \<open>apply_delta\<close> succeeds, whatever faults occurred, the delta file holds
  a well-formed stream of entries, the output file holds exactly what those entries stand for over
  the old file, its digest is the trailer's, it is no longer than the limit, the statistics are
  right, and no other file changed.\<close>

theorem apply_delta_sound:
  assumes "apply_delta nr (rk_alg rk_default) U old_path delta_path out_path m w = (Inr stats, w')"
    and "strong_hash_sound U D msg" and "DELTA_DIGEST_BYTES \<le> sh_size U"
    and "wf_world w" and "\<forall>s \<in> set (w_slots w). s = None"
  shows "\<exists>n d rest es ps. node_at w old_path = Some n \<and> node_at w delta_path = Some d \<and>
    nd_data d = header_bytes @ rest \<and> stream_wire rest es (D (concat ps)) \<and>
    list_all2 (entry_output D (nd_data n) (sign D (nd_data n))) es ps \<and>
    published w w' out_path (concat ps) \<and> length (concat ps) \<le> unat m \<and>
    stats = \<lparr>as_entries_processed = length es, as_bytes_written = length (concat ps)\<rparr>"
  by (rule apply_delta_publishes [OF assms])

text \<open>What the delta of the samples turns into.\<close>

lemma sample_applied: "\<exists>w'. apply_delta nr (rk_alg rk_default) sample_hash ''a'' ''d'' ''o'' 9 sample_delta_world =
    (Inr \<lparr>as_entries_processed = 1, as_bytes_written = 1\<rparr>, w')"
proof -
  have "file_at sample_delta_world ''d'' (encode_delta [AddedE (take 16 (record_digest [2])) [2]] (record_digest (concat [[2]])))"
    using sample_files(4) by (simp add: sample_delta_def)
  from encoded_delta_succeeds [OF sample_ready(2) sample_files(3) this sample_entry _ _ record_alg_sound record_alg_total
      record_alg_fields(2), of 9 nr] show ?thesis by (auto simp: STREAMOFF_MAX_def)
qed

theorem apply_delta_sound_witness:
  "\<exists>stats w'. apply_delta True (rk_alg rk_default) sample_hash ''a'' ''d'' ''o'' 9 sample_delta_world = (Inr stats, w') \<and>
     as_bytes_written stats \<le> 9"
proof -
  obtain stats w' where r: "apply_delta True (rk_alg rk_default) sample_hash ''a'' ''d'' ''o'' 9 sample_delta_world = (Inr stats, w')"
    using sample_applied by blast
  have "wf_world sample_delta_world" "\<forall>s \<in> set (w_slots sample_delta_world). s = None"
    unfolding sample_delta_world_def by (rule world_of_wf, rule world_of_slots)
  from apply_delta_sound [OF r record_alg_sound record_alg_fields(2) this] r show ?thesis by auto
qed

text \<open>C36 When no device fails, the applier accepts exactly the well-formed deltas: the header, entries whose
  records parse and that stand for something over the old file, and a trailer that is the digest of what
  they stand for, which is within the limit.\<close>

theorem applier_accepts_exactly:
  assumes "output_ready w out_path [old_path, delta_path]" and "file_at w old_path old" and "file_at w delta_path bs"
    and "length old \<le> STREAMOFF_MAX"
    and "strong_hash_sound U D msg" and "strong_hash_total U msg live" and "DELTA_DIGEST_BYTES \<le> sh_size U"
  shows "(\<exists>stats w'. apply_delta nr (rk_alg rk_default) U old_path delta_path out_path m w = (Inr stats, w')) \<longleftrightarrow>
    (\<exists>rest es ps. bs = header_bytes @ rest \<and> stream_wire rest es (D (concat ps)) \<and>
       list_all2 (entry_output D old (sign D old)) es ps \<and> length (concat ps) \<le> unat m)"
proof
  assume "\<exists>stats w'. apply_delta nr (rk_alg rk_default) U old_path delta_path out_path m w = (Inr stats, w')"
  then obtain stats w' where r: "apply_delta nr (rk_alg rk_default) U old_path delta_path out_path m w = (Inr stats, w')" by blast
  have w: "wf_world w" "\<forall>s \<in> set (w_slots w). s = None" using assms(1) by (simp_all add: output_ready_def)
  obtain n d rest es ps where "node_at w old_path = Some n" "node_at w delta_path = Some d"
    "nd_data d = header_bytes @ rest" "stream_wire rest es (D (concat ps))"
    "list_all2 (entry_output D (nd_data n) (sign D (nd_data n))) es ps" "length (concat ps) \<le> unat m"
    using apply_delta_publishes [OF r assms(5,7) w] by (elim exE conjE) (rule that)
  then show "\<exists>rest es ps. bs = header_bytes @ rest \<and> stream_wire rest es (D (concat ps)) \<and>
       list_all2 (entry_output D old (sign D old)) es ps \<and> length (concat ps) \<le> unat m"
    using assms(2,3) by (intro exI [of _ rest] exI [of _ es] exI [of _ ps]) (auto simp: file_at_def)
next
  assume "\<exists>rest es ps. bs = header_bytes @ rest \<and> stream_wire rest es (D (concat ps)) \<and>
       list_all2 (entry_output D old (sign D old)) es ps \<and> length (concat ps) \<le> unat m"
  then obtain rest es ps where b: "bs = header_bytes @ rest" "stream_wire rest es (D (concat ps))"
    "list_all2 (entry_output D old (sign D old)) es ps" "length (concat ps) \<le> unat m" by blast
  from apply_delta_succeeds [OF assms(1,2) assms(3) [unfolded b(1)] b(2-4) assms(4-7)]
  show "\<exists>stats w'. apply_delta nr (rk_alg rk_default) U old_path delta_path out_path m w = (Inr stats, w')" by blast
qed

theorem applier_accepts_exactly_witness:
  "(\<exists>stats w'. apply_delta True (rk_alg rk_default) sample_hash ''a'' ''d'' ''o'' 9 sample_delta_world = (Inr stats, w')) \<and>
   (\<nexists>stats w'. apply_delta True (rk_alg rk_default) sample_hash ''a'' ''b'' ''d'' 9 sample_world = (Inr stats, w'))"
proof
  show "\<exists>stats w'. apply_delta True (rk_alg rk_default) sample_hash ''a'' ''d'' ''o'' 9 sample_delta_world = (Inr stats, w')"
    using sample_applied by blast
  have "length header_bytes = 8" by (simp add: header_bytes_def push_u32_be_def)
  then have "[2] \<noteq> header_bytes @ rest" for rest by (auto dest: arg_cong [of _ _ length])
  then show "\<nexists>stats w'. apply_delta True (rk_alg rk_default) sample_hash ''a'' ''b'' ''d'' 9 sample_world = (Inr stats, w')"
    using applier_accepts_exactly [OF sample_ready(1) sample_files(1,2) _ record_alg_sound record_alg_total record_alg_fields(2), of True 9]
    by (simp add: STREAMOFF_MAX_def)
qed

section \<open>The round trip of the program\<close>

lemma created_delta_applies:
  assumes "generate_delta nr U og nf old_path new_path delta_path w = (Inr stats, w1)"
    and "file_at w old_path old" and "file_at w new_path new"
    and "og = signature_of D (rk_value rk_default) 48 mo old" and "nf = signature_of D (rk_value rk_default) 48 mn new"
    and "wf_world w" and "\<forall>s \<in> set (w_slots w). s = None"
    and "node_at w1 delta_path = Some d" and "file_at w2 delta_path2 (nd_data d)" and "file_at w2 old_path2 old"
    and "output_ready w2 out_path [old_path2, delta_path2]" and "length new \<le> unat m"
    and "digest_separates D old new" and "length old \<le> STREAMOFF_MAX" and "length new \<le> STREAMOFF_MAX"
    and "strong_hash_sound U D msg" and "strong_hash_total U msg live" and "DELTA_DIGEST_BYTES \<le> sh_size U"
  shows "\<exists>w3. apply_delta nr2 (rk_alg rk_default) U old_path2 delta_path2 out_path m w2 =
      (Inr \<lparr>as_entries_processed = length (sign D new), as_bytes_written = length new\<rparr>, w3) \<and>
    published w2 w3 out_path new"
proof -
  obtain n m1 es ps dig where g:
    "node_at w old_path = Some n" "node_at w new_path = Some m1"
    "tiling (sg_chunks og) (length (nd_data n)) 0" "tiling (sg_chunks nf) (length (nd_data m1)) 0"
    "\<forall>c \<in> set (sg_chunks og). chunk_matches D (nd_data n) c"
    "gen_entries D (nd_data n) (nd_data m1) (sg_chunks og) 0 (sg_chunks nf) es ps"
    "trailer_ok D (nd_data m1) (sg_chunks nf) (sg_whole nf) dig" "published w w1 delta_path (encode_delta es dig)"
    "stats = \<lparr>ds_chunks_processed = length (sg_chunks nf), ds_bytes_written = length (encode_delta es dig)\<rparr>"
    by (rule generate_delta_publishes [OF assms(1,16,6,7)])
  have data: "nd_data n = old" "nd_data m1 = new" using g(1,2) assms(2,3) by (auto simp: file_at_def)
  have sg: "sg_chunks og = sign D old" "sg_chunks nf = sign D new" and wh: "sg_whole nf = [] \<or> sg_whole nf = D new"
    using assms(4,5) by simp_all (simp add: signature_of_def)
  note st = generated_stands_for_new [OF g(6) [unfolded data sg] g(7) [unfolded data sg] wh assms(13,16,18,14,15)]
  have "nd_data d = encode_delta es (D (concat ps))"
    using g(8) assms(8) st(2,3) by (auto simp: published_def node_at_def)
  from encoded_delta_succeeds [OF assms(11,10) assms(9) [unfolded this] st(1) _ assms(14,16-18), of m nr2] st assms(12)
  show ?thesis by simp
qed

text \<open>C1 The round trip: the delta that \<open>generate_delta\<close> published for two signed files, taken to any place
  that has the old bytes, is turned by \<open>apply_delta\<close> into exactly the new bytes, provided no device
  fails there, the output is within the limit, and no chunk of the new file shares size and
  truncated digest with a different chunk of the old one.  Faults during generation are allowed.\<close>

theorem create_apply_roundtrip:
  assumes "generate_delta nr U og nf old_path new_path delta_path w = (Inr stats, w1)"
    and "file_at w old_path old" and "file_at w new_path new"
    and "og = signature_of D (rk_value rk_default) 48 mo old" and "nf = signature_of D (rk_value rk_default) 48 mn new"
    and "wf_world w" and "\<forall>s \<in> set (w_slots w). s = None"
    and "node_at w1 delta_path = Some d" and "file_at w2 delta_path2 (nd_data d)" and "file_at w2 old_path2 old"
    and "output_ready w2 out_path [old_path2, delta_path2]" and "length new \<le> unat m"
    and "digest_separates D old new" and "length old \<le> STREAMOFF_MAX" and "length new \<le> STREAMOFF_MAX"
    and "strong_hash_sound U D msg" and "strong_hash_total U msg live" and "DELTA_DIGEST_BYTES \<le> sh_size U"
  shows "\<exists>w3. apply_delta nr2 (rk_alg rk_default) U old_path2 delta_path2 out_path m w2 =
      (Inr \<lparr>as_entries_processed = length (sign D new), as_bytes_written = length new\<rparr>, w3) \<and>
    published w2 w3 out_path new"
  by (rule created_delta_applies [OF assms])

theorem create_apply_roundtrip_witness:
  "\<exists>stats w1 d w2 w3. generate_delta True sample_hash (sample_signature [1]) (sample_signature [2]) ''a'' ''b'' ''d'' sample_world =
     (Inr stats, w1) \<and> node_at w1 ''d'' = Some d \<and> w2 = world_of [(''x'', [1]), (''y'', nd_data d)] \<and>
     published w2 w3 ''z'' [2]"
proof -
  obtain stats w1 where r: "generate_delta True sample_hash (sample_signature [1]) (sample_signature [2]) ''a'' ''b'' ''d''
      sample_world = (Inr stats, w1)" using sample_created by blast
  have w: "wf_world sample_world" "\<forall>s \<in> set (w_slots sample_world). s = None"
    unfolding sample_world_def by (rule world_of_wf, rule world_of_slots)
  obtain n m es ps dig where
    "node_at sample_world ''a'' = Some n" "node_at sample_world ''b'' = Some m"
    "tiling (sg_chunks (sample_signature [1])) (length (nd_data n)) 0" "tiling (sg_chunks (sample_signature [2])) (length (nd_data m)) 0"
    "\<forall>c \<in> set (sg_chunks (sample_signature [1])). chunk_matches record_digest (nd_data n) c"
    "gen_entries record_digest (nd_data n) (nd_data m) (sg_chunks (sample_signature [1])) 0 (sg_chunks (sample_signature [2])) es ps"
    "trailer_ok record_digest (nd_data m) (sg_chunks (sample_signature [2])) (sg_whole (sample_signature [2])) dig" "published sample_world w1 ''d'' (encode_delta es dig)"
    "stats = \<lparr>ds_chunks_processed = length (sg_chunks (sample_signature [2])), ds_bytes_written = length (encode_delta es dig)\<rparr>"
    by (rule generate_delta_publishes [OF r record_alg_sound w])
  then obtain d where d: "node_at w1 ''d'' = Some d" by (auto simp: published_def node_at_def)
  define w2 where "w2 = world_of [(''x'', [1]), (''y'', nd_data d)]"
  have f: "file_at w2 ''y'' (nd_data d)" "file_at w2 ''x'' [1]"
    by (simp_all add: file_at_def node_at_def w2_def world_of_def new_node_def upt_rec)
  have "output_ready w2 ''z'' [''x'', ''y'']"
    unfolding w2_def by (rule output_ready_world_of) (simp_all add: candidate_path_sample filename_def)
  from create_apply_roundtrip [OF r sample_files(1,2) sample_signature_def sample_signature_def w d f this _ sample_separates
      _ _ record_alg_sound record_alg_total record_alg_fields(2), of 9 True] r d w2_def
  show ?thesis by (auto simp: STREAMOFF_MAX_def)
qed

end
