(* ===== verification/Delta_Viewer.thy ===== *)
theory Delta_Viewer imports Apply_Delta Fault_Free begin

text \<open>
  The viewer (\<^verbatim>\<open>src/src/DeltaViewer.cpp\<close>): the text it prints, the walk over the entries with the same
  reader as the applier, and its exit status.  The specification it is compared with is \<open>wire_valid\<close>,
  the well-formedness of a stream without regard to the file it is to be applied to.
\<close>

section \<open>Text\<close>

definition newline :: string where
  "newline = [CHR 0x0A]"

definition quote_mark :: string where
  "quote_mark = [CHR 0x22]"

fun entryTypeToString :: "EntryType \<Rightarrow> string" where
  "entryTypeToString ORIGINAL_CHUNK = ''ORIGINAL''"
| "entryTypeToString ADDED_CHUNK = ''ADDED''"
| "entryTypeToString MODIFIED_CHUNK = ''MODIFIED''"

text \<open>\<open>std::isprint\<close> of the C locale.\<close>

definition printableByte :: "byte \<Rightarrow> string" where
  "printableByte b =
     (if b = 0x0A then [CHR 0x5C, CHR ''n'']
      else if b = 0x0D then [CHR 0x5C, CHR ''r'']
      else if b = 0x09 then [CHR 0x5C, CHR ''t'']
      else if 0x20 \<le> b \<and> b \<le> 0x7E then [char_of (unat b)]
      else ''.'')"

definition printBytePreview :: "bytes \<Rightarrow> nat \<Rightarrow> string" where
  "printBytePreview data limit =
     concat (map printableByte (take limit data)) @ (if length data > limit then ''...'' else [])"

definition hex_digit :: "nat \<Rightarrow> char" where
  "hex_digit n = ''0123456789abcdef'' ! n"

definition hex_pair :: "byte \<Rightarrow> string" where
  "hex_pair b = [hex_digit (unat b div 16), hex_digit (unat b mod 16)]"

definition hexByte :: "byte \<Rightarrow> string" where
  "hexByte b = ''0x'' @ hex_pair b"

definition printHex :: "bytes \<Rightarrow> string" where
  "printHex data = concat (map hex_pair data)"

fun spaced :: "string list \<Rightarrow> string" where
  "spaced [] = []"
| "spaced [x] = x"
| "spaced (x # xs) = x @ '' '' @ spaced xs"

definition printInlineBytes :: "bytes \<Rightarrow> string" where
  "printInlineBytes data =
     quote_mark @ printBytePreview data 12 @ quote_mark @
     (if data = [] then []
      else '' ['' @ spaced (map hexByte (take 12 data)) @ (if length data > 12 then '' ...'' else []) @ '']'')"

text \<open>A \<open>std::filesystem::path\<close> on a stream is quoted.\<close>

definition quoted_path :: "path \<Rightarrow> string" where
  "quoted_path p =
     quote_mark @ concat (map (\<lambda>c. if c = CHR 0x22 \<or> c = CHR 0x5C then [CHR 0x5C, c] else [c]) p) @ quote_mark"

section \<open>A diff\<close>

record view_state =
  vs_text :: string
  vs_file :: fileio

definition opcode_text :: "DiffOpcode \<Rightarrow> string" where
  "opcode_text c =
     (if op c = op_X
      then ''        Delete '' @ to_dec (unat (delete_length c)) @ '' byte(s) at position '' @ to_dec (unat (pos c)) @ newline
      else ''        '' @ (if op c = op_D then ''Replace'' else ''Insert'') @ '' '' @ to_dec (length (payload c)) @
        '' byte(s) at position '' @ to_dec (unat (pos c)) @ '': '' @ printInlineBytes (payload c) @ newline)"

definition opcode_size :: "DiffOpcode \<Rightarrow> nat" where
  "opcode_size c = 1 + 4 + (if op c = op_X then 4 else 1 + length (payload c))"

function parse_diff_loop :: "nat \<Rightarrow> nat \<Rightarrow> view_state \<Rightarrow> (string, nat \<times> nat, view_state) outcome" where
  "parse_diff_loop diffSize opCount s =
     (case run_state (at_diff_opcode file_source) (vs_file s) of (again, f1) \<Rightarrow>
        if \<not> again then (Inr (diffSize, opCount), s\<lparr>vs_file := f1\<rparr>)
        else case run_state (read_diff_opcode file_source) f1 of
            (Inl msg, f2) \<Rightarrow> (Inl msg, s\<lparr>vs_file := f2\<rparr>)
          | (Inr opcode, f2) \<Rightarrow>
              parse_diff_loop (diffSize + opcode_size opcode) (Suc opCount)
                \<lparr>vs_text = vs_text s @ (if opCount < 10 then opcode_text opcode else []), vs_file = f2\<rparr>)"
  by pat_completeness auto
termination
  by (relation "measure (\<lambda>(diffSize, opCount, s). length (remaining (vs_file s)))")
    (auto dest!: diff_opcode_progress [OF sym] reader_shrinks(2) [OF sym])

declare parse_diff_loop.simps [simp del]

definition say :: "string \<Rightarrow> view_state \<Rightarrow> view_state" where
  "say txt s = s\<lparr>vs_text := vs_text s @ txt\<rparr>"

definition parseDiffData :: "view_state \<Rightarrow> (string, nat \<times> nat, view_state) outcome" where
  "parseDiffData s =
     (case parse_diff_loop 0 0 s of
        (Inl msg, s1) \<Rightarrow> (Inl msg, s1)
      | (Inr (diffSize, opCount), s1) \<Rightarrow>
          let s2 = (if opCount > 10
                    then say (''        ... and '' @ to_dec (opCount - 10) @ '' more diff opcodes'' @ newline) s1 else s1)
          in (case finish_diff opCount of Inl msg \<Rightarrow> Inl msg | Inr _ \<Rightarrow> Inr (diffSize, opCount), s2))"

section \<open>An entry\<close>

definition header_text :: "nat \<Rightarrow> DeltaEntryHeader \<Rightarrow> string" where
  "header_text chunkNum h =
     ''Chunk #'' @ to_dec chunkNum @ '':'' @ newline @
     ''  Type: '' @ entryTypeToString (type h) @ '' ('' @ to_dec (unat (entry_tag (type h))) @ '')'' @ newline @
     (if references_old h then ''  Source: old chunk #'' @ to_dec (unat (old_index h)) @ newline else []) @
     (if type h \<noteq> ORIGINAL_CHUNK then ''  Output Size: '' @ to_dec (unat (out_size h)) @ '' bytes'' @ newline else []) @
     ''  Digest: '' @ printHex (digest h) @ newline"

text \<open>The message on \<open>std::cerr\<close> is the left side of the result; \<open>chunkNum\<close> is the number of the entry,
  which starts at one.\<close>

definition view_body :: "nat \<Rightarrow> DeltaEntryHeader \<Rightarrow> view_state \<Rightarrow> (string, unit, view_state) outcome" where
  "view_body chunkNum h s =
     (case type h of
        ORIGINAL_CHUNK \<Rightarrow> (Inr (), s)
      | ADDED_CHUNK \<Rightarrow>
          (case run_state (read_payload file_source (unat (out_size h))) (vs_file s) of
             (Inl _, f) \<Rightarrow> (Inl (''Truncated ADDED payload in chunk #'' @ to_dec chunkNum), s\<lparr>vs_file := f\<rparr>)
           | (Inr rawData, f) \<Rightarrow>
               (Inr (), say (''  Added Data (first 50 chars): '' @ quote_mark @ printBytePreview rawData 50 @ quote_mark @ newline)
                          (s\<lparr>vs_file := f\<rparr>)))
      | MODIFIED_CHUNK \<Rightarrow>
          (case parseDiffData (say (''  Diff Operations:'' @ newline) s) of
             (Inl msg, s1) \<Rightarrow> (Inl (msg @ '' in chunk #'' @ to_dec chunkNum), s1)
           | (Inr (diffSize, opCount), s1) \<Rightarrow>
               (Inr (), say (''  Diff Data Size: '' @ to_dec diffSize @ '' bytes'' @ newline @
                             ''  Diff Opcode Count: '' @ to_dec opCount @ newline) s1)))"

definition view_entry :: "nat \<Rightarrow> view_state \<Rightarrow> (string, unit, view_state) outcome" where
  "view_entry chunkNum s =
     (case run_state (read_entry_header file_source) (vs_file s) of
        (Inl msg, f) \<Rightarrow> (Inl (msg @ '' in chunk #'' @ to_dec chunkNum), s\<lparr>vs_file := f\<rparr>)
      | (Inr h, f) \<Rightarrow>
          (case view_body chunkNum h (say (header_text chunkNum h) (s\<lparr>vs_file := f\<rparr>)) of
             (Inl msg, s1) \<Rightarrow> (Inl msg, s1)
           | (Inr _, s1) \<Rightarrow> (Inr (), say newline s1)))"

definition view_trailer :: "view_state \<Rightarrow> (string, unit, view_state) outcome" where
  "view_trailer s =
     (case run_state (read_trailer file_source HASH_SIZE) (vs_file s) of
        (Inl msg, f) \<Rightarrow> (Inl msg, s\<lparr>vs_file := f\<rparr>)
      | (Inr trailer, f) \<Rightarrow> (Inr (), say (''Whole-file hash: '' @ printHex trailer @ newline) (s\<lparr>vs_file := f\<rparr>)))"

lemma parse_diff_loop_shrinks:
  "parse_diff_loop n k s = (r, s') \<Longrightarrow> length (remaining (vs_file s')) \<le> length (remaining (vs_file s))"
proof (induction n k s rule: parse_diff_loop.induct)
  case (1 n k s)
  obtain again f1 where m: "run_state (at_diff_opcode file_source) (vs_file s) = (again, f1)" by fastforce
  obtain rc f2 where d: "run_state (read_diff_opcode file_source) f1 = (rc, f2)" by fastforce
  note le = reader_shrinks(2) [OF m] shrinksD [OF shrinks_diff_opcode d]
  show ?case
    using "1.prems" "1.IH" [OF m [symmetric] _ d [symmetric]] m d le
    by (subst (asm) parse_diff_loop.simps) (fastforce split: if_splits sum.splits)
qed

lemma say_simps [simp]: "vs_file (say txt s) = vs_file s" "vs_text (say txt s) = vs_text s @ txt"
  by (simp_all add: say_def)

lemma view_body_shrinks:
  assumes "view_body k h s = (r, s')"
  shows "length (remaining (vs_file s')) \<le> length (remaining (vs_file s))"
proof -
  obtain x f where p: "run_state (read_payload file_source (unat (out_size h))) (vs_file s) = (x, f)" by fastforce
  obtain y s1 where d: "parse_diff_loop 0 0 (say (''  Diff Operations:'' @ newline) s) = (y, s1)" by fastforce
  show ?thesis
    using assms p d reader_shrinks(3) [OF p] parse_diff_loop_shrinks [OF d]
    by (auto simp: view_body_def parseDiffData_def Let_def split: EntryType.splits sum.splits prod.splits if_splits)
qed

lemma view_entry_progress:
  assumes "view_entry k s = (Inr u, s')"
  shows "length (remaining (vs_file s')) < length (remaining (vs_file s))"
proof -
  obtain x f where h: "run_state (read_entry_header file_source) (vs_file s) = (x, f)" by fastforce
  then obtain hd where hd: "x = Inr hd" using assms by (cases x) (auto simp: view_entry_def)
  obtain y s1 where b: "view_body k hd (say (header_text k hd) (s\<lparr>vs_file := f\<rparr>)) = (y, s1)" by fastforce
  have "vs_file s' = vs_file s1" using assms h hd b by (cases y) (auto simp: view_entry_def)
  then show ?thesis using entry_header_progress [OF h [unfolded hd]] view_body_shrinks [OF b] by simp
qed

section \<open>All entries, and the file\<close>

text \<open>\<open>chunkNum\<close> entries have been shown.\<close>

function view_loop :: "nat \<Rightarrow> view_state \<Rightarrow> (string, nat \<times> bool, view_state) outcome" where
  "view_loop chunkNum s =
     (case run_state (next_item file_source) (vs_file s) of (item, f) \<Rightarrow>
        let s1 = s\<lparr>vs_file := f\<rparr> in
        case item of
          End \<Rightarrow> (Inr (chunkNum, False), s1)
        | Trailer \<Rightarrow> (case view_trailer s1 of (Inl msg, s2) \<Rightarrow> (Inl msg, s2) | (Inr _, s2) \<Rightarrow> (Inr (chunkNum, True), s2))
        | Entry \<Rightarrow>
            (case view_entry (Suc chunkNum) s1 of
               (Inl msg, s2) \<Rightarrow> (Inl msg, s2)
             | (Inr _, s2) \<Rightarrow> view_loop (Suc chunkNum) s2))"
  by pat_completeness auto
termination
  by (relation "measure (\<lambda>(k, s). length (remaining (vs_file s)))")
    (auto dest!: view_entry_progress [OF sym] reader_shrinks(1) [OF sym])

declare view_loop.simps [simp del]

text \<open>The header, the entries, the check of the end.\<close>

definition view_stream :: "view_state \<Rightarrow> (string, nat, view_state) outcome" where
  "view_stream s =
     (case run_state (read_header file_source) (vs_file s) of
        (Inl msg, f) \<Rightarrow> (Inl msg, s\<lparr>vs_file := f\<rparr>)
      | (Inr _, f) \<Rightarrow>
          (case view_loop 0 (say (''Format version: '' @ to_dec (unat DELTA_FORMAT_VERSION) @ newline @ newline)
                               (s\<lparr>vs_file := f\<rparr>)) of
             (Inl msg, s1) \<Rightarrow> (Inl msg, s1)
           | (Inr (chunkNum, saw_trailer), s1) \<Rightarrow>
               (case run_state (finish file_source saw_trailer) (vs_file s1) of
                  (Inl msg, f) \<Rightarrow> (Inl msg, s1\<lparr>vs_file := f\<rparr>)
                | (Inr _, f) \<Rightarrow> (Inr chunkNum, s1\<lparr>vs_file := f\<rparr>))))"

definition rule_line :: string where
  "rule_line = replicate 40 (CHR ''='') @ newline"

text \<open>The exit status, what was printed, what was reported, and the world.\<close>

definition view_delta :: "bool \<Rightarrow> path \<Rightarrow> world \<Rightarrow> nat \<times> string \<times> string \<times> world" where
  "view_delta nr delta_file w =
     (case fio_open nr delta_file IN fio_default w of (ok, f, w1) \<Rightarrow>
        if \<not> ok then (2, [], ''Error: Cannot open file '' @ quoted_path delta_file @ newline, w1)
        else case view_stream \<lparr>vs_text = ''Delta File Viewer - Analyzing: '' @ quoted_path delta_file @ newline @
                                 rule_line @ newline, vs_file = f\<rparr> of
            (Inl msg, s) \<Rightarrow> (if has_error (vs_file s) then 2 else 1, vs_text s, ''Error: '' @ msg @ newline, w1)
          | (Inr chunkNum, s) \<Rightarrow>
              (0, vs_text s @ rule_line @ ''Total chunks processed: '' @ to_dec chunkNum @ newline, [], w1))"


section \<open>What the viewer accepts\<close>

text \<open>A body that can be shown: a payload within the bound, or a diff of at least one opcode.\<close>

fun body_valid :: "delta_entry \<Rightarrow> bool" where
  "body_valid (OriginalE i d) = True"
| "body_valid (AddedE d p) \<longleftrightarrow> length p \<le> DELTA_MAX_CHUNK_SIZE"
| "body_valid (ModifiedE i n d ops) \<longleftrightarrow> (\<exists>cs. cs \<noteq> [] \<and> (\<forall>c \<in> set cs. valid_opcode c) \<and> ops = encode_opcodes cs)"

definition wire_valid :: "bytes \<Rightarrow> delta_entry list \<Rightarrow> bytes \<Rightarrow> bool" where
  "wire_valid bs es trailer \<longleftrightarrow> stream_wire bs es trailer \<and> (\<forall>e \<in> set es. body_valid e) \<and> length trailer = HASH_SIZE"

text \<open>The state of a file after a step: errors stay, a healthy file stays healthy.\<close>

definition file_step :: "fileio \<Rightarrow> fileio \<Rightarrow> bool" where
  "file_step f f' \<longleftrightarrow> reading f' \<and> (io_error f \<longrightarrow> io_error f') \<and> (healthy f \<longrightarrow> healthy f')"

lemma file_step_trans: "file_step f g \<Longrightarrow> file_step g h \<Longrightarrow> file_step f h"
  by (auto simp: file_step_def)

lemma file_step_refl: "reading f \<Longrightarrow> file_step f f"
  by (simp add: file_step_def)

lemma sim_step:
  assumes "simulates (src_error file_source) reading healthy remaining m spec" and "reading f" and "run_state m f = (r, f')"
  shows "file_step f f'" and "\<not> io_error f' \<Longrightarrow> run_state spec (remaining f) = (r, remaining f')"
  using simulatesD [OF assms] by (simp_all add: file_step_def)

lemma parse_diff_loop_sound:
  assumes "parse_diff_loop n k s = (r, s')" and "reading (vs_file s)"
  shows "file_step (vs_file s) (vs_file s') \<and> (\<not> io_error (vs_file s') \<longrightarrow> r = Inr (n', k') \<longrightarrow>
    (\<exists>cs. remaining (vs_file s) = encode_opcodes cs @ remaining (vs_file s') \<and> (\<forall>c \<in> set cs. valid_opcode c) \<and>
       k' = k + length cs))"
  using assms
proof (induction n k s rule: parse_diff_loop.induct)
  case (1 n k s)
  obtain again f1 where m: "run_state (at_diff_opcode file_source) (vs_file s) = (again, f1)" by fastforce
  obtain rc f2 where d: "run_state (read_diff_opcode file_source) f1 = (rc, f2)" by fastforce
  note m' = sim_step [OF fio.at_diff_opcode_sim "1.prems"(2) m]
  have r1: "reading f1" using m'(1) by (simp add: file_step_def)
  note d' = sim_step [OF fio.read_diff_opcode_sim r1 d]
  have f1: "\<not> io_error f1 \<Longrightarrow> remaining f1 = remaining (vs_file s)" using m'(2) by (simp add: at_diff_opcode_list)
  show ?case
  proof (cases again)
    case False
    then have "r = Inr (n, k)" "vs_file s' = f1" using "1.prems"(1) m by (auto simp: parse_diff_loop.simps)
    then show ?thesis using m'(1) f1 by (auto simp: encode_opcodes_def intro!: exI [of _ "[]"])
  next
    case True
    show ?thesis
    proof (cases rc)
      case (Inl msg)
      then have "r = Inl msg" "vs_file s' = f2"
        using "1.prems"(1) m d True by (auto simp: parse_diff_loop.simps [of n k s])
      then show ?thesis using file_step_trans [OF m'(1) d'(1)] by simp
    next
      case (Inr c)
      define s2 where "s2 = \<lparr>vs_text = vs_text s @ (if k < 10 then opcode_text c else []), vs_file = f2\<rparr>"
      have eq: "parse_diff_loop (n + opcode_size c) (Suc k) s2 = (r, s')"
        using "1.prems"(1) m d True Inr by (subst (asm) parse_diff_loop.simps) (simp add: s2_def)
      have "reading (vs_file s2)" using d'(1) by (simp add: s2_def file_step_def)
      note ih = "1.IH" [OF m [symmetric] _ d [symmetric] Inr, folded s2_def, OF _ eq this]
      have st: "file_step (vs_file s2) (vs_file s')" using ih True by simp
      show ?thesis
      proof (intro conjI impI)
        show "file_step (vs_file s) (vs_file s')"
          using file_step_trans [OF file_step_trans [OF m'(1) d'(1)]] st by (simp add: s2_def)
        assume clean: "\<not> io_error (vs_file s')" and r: "r = Inr (n', k')"
        have c2: "\<not> io_error f2" "\<not> io_error f1" using st clean d'(1) by (auto simp: file_step_def s2_def)
        have "remaining (vs_file s) = encode_opcode c @ remaining f2" "valid_opcode c"
          using read_diff_opcode_decode d'(2) [OF c2(1)] f1 [OF c2(2)] Inr by auto
        moreover obtain cs where "remaining f2 = encode_opcodes cs @ remaining (vs_file s')" "\<forall>c \<in> set cs. valid_opcode c"
            "k' = Suc k + length cs" using ih True clean r by (auto simp: s2_def)
        ultimately show "\<exists>cs. remaining (vs_file s) = encode_opcodes cs @ remaining (vs_file s') \<and>
            (\<forall>c \<in> set cs. valid_opcode c) \<and> k' = k + length cs"
          by (intro exI [of _ "c # cs"]) (simp add: encode_opcodes_def)
      qed
    qed
  qed
qed

lemma parse_diff_loop_complete:
  assumes "healthy (vs_file s)" and "remaining (vs_file s) = encode_opcodes cs @ r" and "\<forall>c \<in> set cs. valid_opcode c"
    and "no_opcode_next r"
  shows "\<exists>n' s'. parse_diff_loop n k s = (Inr (n', k + length cs), s') \<and> healthy (vs_file s') \<and> remaining (vs_file s') = r"
  using assms
proof (induction cs arbitrary: n k s)
  case Nil
  obtain again f1 where m: "run_state (at_diff_opcode file_source) (vs_file s) = (again, f1)" by fastforce
  from fio.calm_run [OF fio.at_diff_opcode_sim Nil.prems(1) m] Nil.prems m show ?case
    by (auto simp: at_diff_opcode_list encode_opcodes_def no_opcode_next_def parse_diff_loop.simps)
next
  case (Cons c cs)
  obtain again f1 where m: "run_state (at_diff_opcode file_source) (vs_file s) = (again, f1)" by fastforce
  obtain rc f2 where d: "run_state (read_diff_opcode file_source) f1 = (rc, f2)" by fastforce
  note m' = fio.calm_run [OF fio.at_diff_opcode_sim Cons.prems(1) m]
  note d' = fio.calm_run [OF fio.read_diff_opcode_sim m'(1) d]
  have rem: "remaining (vs_file s) = encode_opcode c @ encode_opcodes cs @ r" and v: "valid_opcode c"
    using Cons.prems(2,3) by (simp_all add: encode_opcodes_def)
  then have again: again and f1: "remaining f1 = remaining (vs_file s)"
    using m'(2) by (auto simp: at_diff_opcode_list encode_opcode_def valid_opcode_def)
  have rc: "rc = Inr c" "remaining f2 = encode_opcodes cs @ r"
    using d'(2) read_diff_opcode_encode [OF v] f1 rem by auto
  let ?s2 = "\<lparr>vs_text = vs_text s @ (if k < 10 then opcode_text c else []), vs_file = f2\<rparr>"
  have "\<forall>c \<in> set cs. valid_opcode c" using Cons.prems(3) by simp
  from Cons.IH [of ?s2 "n + opcode_size c" "Suc k", OF _ _ this Cons.prems(4)] d'(1) rc(2) show ?case
    using again rc m d by (simp add: parse_diff_loop.simps [of n k s])
qed

lemma parseDiffData_sound:
  assumes "parseDiffData s = (r, s')" and "reading (vs_file s)"
  shows "file_step (vs_file s) (vs_file s')" and "\<not> io_error (vs_file s') \<Longrightarrow> r = Inr x \<Longrightarrow>
    \<exists>cs. remaining (vs_file s) = encode_opcodes cs @ remaining (vs_file s') \<and> cs \<noteq> [] \<and> (\<forall>c \<in> set cs. valid_opcode c)"
proof -
  obtain y s1 where l: "parse_diff_loop 0 0 s = (y, s1)" by fastforce
  note ps = parse_diff_loop_sound [OF l assms(2)]
  have f: "vs_file s' = vs_file s1"
    using assms(1) l by (auto simp: parseDiffData_def Let_def split: sum.splits prod.splits if_splits)
  then show "file_step (vs_file s) (vs_file s')" using ps by simp
  assume clean: "\<not> io_error (vs_file s')" and r: "r = Inr x"
  obtain n k where y: "y = Inr (n, k)" using assms(1) l r by (cases y) (auto simp: parseDiffData_def)
  then have "k \<noteq> 0"
    using assms(1) l r by (auto simp: parseDiffData_def Let_def finish_diff_def split: sum.splits if_splits)
  then show "\<exists>cs. remaining (vs_file s) = encode_opcodes cs @ remaining (vs_file s') \<and> cs \<noteq> [] \<and> (\<forall>c \<in> set cs. valid_opcode c)"
    using ps [of n k] y clean f by auto
qed

lemma parseDiffData_complete:
  assumes "healthy (vs_file s)" and "remaining (vs_file s) = encode_opcodes cs @ r" and "\<forall>c \<in> set cs. valid_opcode c"
    and "no_opcode_next r" and "cs \<noteq> []"
  shows "\<exists>x s'. parseDiffData s = (Inr x, s') \<and> healthy (vs_file s') \<and> remaining (vs_file s') = r"
proof -
  obtain n s1 where "parse_diff_loop 0 0 s = (Inr (n, length cs), s1)" "healthy (vs_file s1)" "remaining (vs_file s1) = r"
    using parse_diff_loop_complete [OF assms(1-4), of 0 0] by auto
  then show ?thesis using assms(5) by (simp add: parseDiffData_def finish_diff_def Let_def)
qed


text \<open>The body of an entry with the header \<open>h\<close> lies between two positions of the file.\<close>

definition body_read :: "DeltaEntryHeader \<Rightarrow> fileio \<Rightarrow> fileio \<Rightarrow> bool" where
  "body_read h f f' \<longleftrightarrow> (\<exists>e. entry_header e = h \<and> remaining f = entry_body e @ remaining f' \<and> body_valid e)"

lemma view_added_sound:
  assumes "run_state (read_payload file_source (unat (out_size h))) f = (Inr p, f')" and "reading f" and "\<not> io_error f'"
    and "type h = ADDED_CHUNK" and "unat (out_size h) \<le> DELTA_MAX_CHUNK_SIZE" and "old_index h = 0"
  shows "body_read h f f'"
proof -
  have l: "length p = unat (out_size h)" "remaining f = p @ remaining f'"
    using sim_step(2) [OF fio.read_payload_sim assms(2,1,3)]
    by (auto simp: read_payload_list split: if_splits) (metis append_take_drop_id)
  have "entry_header (AddedE (digest h) p) = h" using assms(4,6) l(1) by (cases h) (simp add: word_unat_eq_iff)
  then show ?thesis using l assms(5) unfolding body_read_def by (intro exI [of _ "AddedE (digest h) p"]) simp
qed

lemma view_modified_sound:
  assumes "parseDiffData s = (Inr q, s')" and "reading (vs_file s)" and "\<not> io_error (vs_file s')"
    and "type h = MODIFIED_CHUNK" and "unat (out_size h) \<le> DELTA_MAX_CHUNK_SIZE"
  shows "body_read h (vs_file s) (vs_file s')"
proof -
  obtain cs where cs: "remaining (vs_file s) = encode_opcodes cs @ remaining (vs_file s')" "cs \<noteq> []" "\<forall>c \<in> set cs. valid_opcode c"
    using parseDiffData_sound(2) [OF assms(1,2,3) refl] by auto
  have "entry_header (ModifiedE (old_index h) (out_size h) (digest h) (encode_opcodes cs)) = h"
    using assms(4) by (cases h) simp
  then show ?thesis using cs assms(5) unfolding body_read_def
    by (intro exI [of _ "ModifiedE (old_index h) (out_size h) (digest h) (encode_opcodes cs)"]) auto
qed

lemma view_body_sound:
  assumes "view_body k h s = (r, s')" and "reading (vs_file s)" and "unat (out_size h) \<le> DELTA_MAX_CHUNK_SIZE"
    and "type h = ORIGINAL_CHUNK \<longrightarrow> out_size h = 0" and "type h = ADDED_CHUNK \<longrightarrow> old_index h = 0"
  shows "file_step (vs_file s) (vs_file s') \<and> (\<not> io_error (vs_file s') \<longrightarrow> r = Inr u \<longrightarrow> body_read h (vs_file s) (vs_file s'))"
proof (cases "type h")
  case ORIGINAL_CHUNK
  then have "s' = s" using assms(1) by (simp add: view_body_def)
  moreover have "entry_header (OriginalE (old_index h) (digest h)) = h" using ORIGINAL_CHUNK assms(4) by (cases h) simp
  ultimately show ?thesis
    using file_step_refl [OF assms(2)] by (auto simp: body_read_def intro!: exI [of _ "OriginalE (old_index h) (digest h)"])
next
  case ADDED_CHUNK
  obtain x f where rd: "run_state (read_payload file_source (unat (out_size h))) (vs_file s) = (x, f)" by fastforce
  have f: "vs_file s' = f" and x: "r = Inr u \<Longrightarrow> \<exists>p. x = Inr p"
    using assms(1) rd ADDED_CHUNK by (auto simp: view_body_def split: sum.splits)
  show ?thesis
    using f x rd sim_step(1) [OF fio.read_payload_sim assms(2) rd] view_added_sound [OF _ assms(2) _ ADDED_CHUNK assms(3)]
      assms(5) ADDED_CHUNK by blast
next
  case MODIFIED_CHUNK
  let ?s = "say (''  Diff Operations:'' @ newline) s"
  obtain x s1 where pd: "parseDiffData ?s = (x, s1)" by fastforce
  have rd: "reading (vs_file ?s)" and same: "vs_file ?s = vs_file s" using assms(2) by simp_all
  have f: "vs_file s' = vs_file s1" and x: "r = Inr u \<Longrightarrow> \<exists>q. x = Inr q"
    using assms(1) pd MODIFIED_CHUNK by (auto simp: view_body_def split: sum.splits)
  show ?thesis
    using f x pd parseDiffData_sound(1) [OF pd rd] view_modified_sound [OF _ rd _ MODIFIED_CHUNK assms(3), of _ s1]
    unfolding same by metis
qed

lemma view_body_complete:
  assumes "healthy (vs_file s)" and "body_valid e" and "remaining (vs_file s) = entry_body e @ r" and "no_opcode_next r"
  shows "\<exists>s'. view_body k (entry_header e) s = (Inr (), s') \<and> healthy (vs_file s') \<and> remaining (vs_file s') = r"
proof (cases e)
  case (OriginalE i d)
  then show ?thesis using assms(1,3) by (simp add: view_body_def)
next
  case (AddedE d p)
  obtain x f where pl: "run_state (read_payload file_source (length p)) (vs_file s) = (x, f)" by fastforce
  note pc = fio.calm_run [OF fio.read_payload_sim assms(1) pl]
  have "x = Inr p" "remaining f = r" using pc(2) assms(3) AddedE by (auto simp: read_payload_list)
  moreover have "unat (of_nat (length p) :: u64) = length p"
    using assms(2) AddedE by (intro unat_u64_of_nat) (simp add: DELTA_MAX_CHUNK_SIZE_def)
  ultimately show ?thesis using pl pc(1) AddedE by (simp add: view_body_def)
next
  case (ModifiedE i n d ops)
  then obtain cs where "cs \<noteq> []" "\<forall>c \<in> set cs. valid_opcode c" "ops = encode_opcodes cs" using assms(2) by auto
  then obtain x s' where "parseDiffData (say (''  Diff Operations:'' @ newline) s) = (Inr x, s')" "healthy (vs_file s')" "remaining (vs_file s') = r"
    using parseDiffData_complete [of "say (''  Diff Operations:'' @ newline) s" cs r] assms(1,3,4) ModifiedE by auto
  then show ?thesis using ModifiedE by (cases x) (simp add: view_body_def)
qed

lemma view_entry_sound:
  assumes "view_entry k s = (r, s')" and "reading (vs_file s)"
  shows "file_step (vs_file s) (vs_file s')" and "\<not> io_error (vs_file s') \<Longrightarrow> r = Inr u \<Longrightarrow>
    \<exists>e. run_state (read_entry_header list_source) (remaining (vs_file s)) =
        (Inr (entry_header e), entry_body e @ remaining (vs_file s')) \<and> body_valid e"
proof -
  obtain x f where h: "run_state (read_entry_header file_source) (vs_file s) = (x, f)" by fastforce
  note st = sim_step [OF fio.read_entry_header_sim assms(2) h]
  have "file_step (vs_file s) (vs_file s') \<and> (\<not> io_error (vs_file s') \<longrightarrow> r = Inr u \<longrightarrow>
    (\<exists>e. run_state (read_entry_header list_source) (remaining (vs_file s)) =
        (Inr (entry_header e), entry_body e @ remaining (vs_file s')) \<and> body_valid e))"
  proof (cases x)
    case (Inl m)
    then show ?thesis using assms(1) h st(1) by (auto simp: view_entry_def)
  next
    case (Inr hd)
    obtain y s1 where b: "view_body k hd (say (header_text k hd) (s\<lparr>vs_file := f\<rparr>)) = (y, s1)" by fastforce
    have rd: "reading (vs_file (say (header_text k hd) (s\<lparr>vs_file := f\<rparr>)))" using st(1) by (simp add: file_step_def)
    note hb = read_entry_header_bounds [OF h [unfolded Inr]]
    note vb = view_body_sound [OF b rd hb(1) hb(3) hb(4)]
    have f: "vs_file s' = vs_file s1" and y: "r = Inr u \<Longrightarrow> y = Inr ()"
      using assms(1) h Inr b by (auto simp: view_entry_def split: sum.splits)
    have fs: "file_step f (vs_file s1)" using vb by simp
    have "\<not> io_error (vs_file s1) \<Longrightarrow> \<not> io_error f" using fs by (auto simp: file_step_def)
    then show ?thesis using f y vb file_step_trans [OF st(1) fs] st(2) Inr by (fastforce simp: body_read_def)
  qed
  then show "file_step (vs_file s) (vs_file s')" and "\<not> io_error (vs_file s') \<Longrightarrow> r = Inr u \<Longrightarrow>
    \<exists>e. run_state (read_entry_header list_source) (remaining (vs_file s)) =
        (Inr (entry_header e), entry_body e @ remaining (vs_file s')) \<and> body_valid e" by blast+
qed

lemma view_trailer_sound:
  assumes "view_trailer s = (Inr u, s')" and "reading (vs_file s)"
  shows "\<exists>t. remaining (vs_file s) = DELTA_TRAILER_TAG # t \<and> length t = HASH_SIZE" and "\<not> io_error (vs_file s')"
    and "file_step (vs_file s) (vs_file s')"
proof -
  obtain x f where t: "run_state (read_trailer file_source HASH_SIZE) (vs_file s) = (x, f)" by fastforce
  obtain tr where x: "x = Inr tr" and f: "vs_file s' = f" using assms(1) t by (cases x) (auto simp: view_trailer_def)
  note st = sim_step [OF fio.read_trailer_sim assms(2) t]
  have clean: "\<not> io_error f" using fio.read_trailer_clean [OF t [unfolded x]] by simp
  have rl: "run_state (read_trailer list_source HASH_SIZE) (remaining (vs_file s)) = (Inr tr, remaining f)"
    using st(2) [OF clean] x by simp
  then obtain bs where bs: "remaining (vs_file s) = DELTA_TRAILER_TAG # bs"
    by (cases "remaining (vs_file s)") (auto simp: read_trailer_def split: if_splits)
  then have "length bs = HASH_SIZE" using rl by (auto simp: read_trailer_list split: if_splits)
  then show "\<exists>t. remaining (vs_file s) = DELTA_TRAILER_TAG # t \<and> length t = HASH_SIZE" using bs by blast
  show "\<not> io_error (vs_file s')" and "file_step (vs_file s) (vs_file s')" using clean f st(1) by simp_all
qed

text \<open>The rest of a stream was accepted: \<open>n\<close> entries and a trailer.\<close>

definition stream_viewed :: "nat \<Rightarrow> fileio \<Rightarrow> bool" where
  "stream_viewed n f \<longleftrightarrow> \<not> io_error f \<and> (\<exists>es trailer. wire_valid (remaining f) es trailer \<and> n = length es)"

lemma view_trailer_file:
  assumes "view_trailer s = (x, s')" and "reading (vs_file s)"
  shows "file_step (vs_file s) (vs_file s')"
proof -
  obtain y g where g: "run_state (read_trailer file_source HASH_SIZE) (vs_file s) = (y, g)" by fastforce
  have "vs_file s' = g" using assms(1) g by (auto simp: view_trailer_def split: sum.splits)
  then show ?thesis using sim_step(1) [OF fio.read_trailer_sim assms(2) g] by simp
qed

lemma stream_viewed_trailer:
  assumes "view_trailer s = (Inr (), s')" and "reading (vs_file s)"
  shows "stream_viewed 0 (vs_file s)"
proof -
  note vt = view_trailer_sound [OF assms]
  obtain tr where "remaining (vs_file s) = DELTA_TRAILER_TAG # tr" "length tr = HASH_SIZE" using vt(1) by auto
  then have "wire_valid (remaining (vs_file s)) [] tr" by (simp add: wire_valid_def stream_wire.End)
  moreover have "\<not> io_error (vs_file s)" using vt(2,3) by (auto simp: file_step_def)
  ultimately show ?thesis unfolding stream_viewed_def by (intro conjI exI [of _ "[]"] exI [of _ tr]) simp_all
qed

lemma stream_viewed_entry:
  assumes "view_entry k s = (Inr u, s')" and "reading (vs_file s)" and "stream_viewed n (vs_file s')"
    and "remaining (vs_file s) = b # bs" and "b \<noteq> DELTA_TRAILER_TAG"
  shows "stream_viewed (Suc n) (vs_file s)"
proof -
  note ve = view_entry_sound [OF assms(1,2)]
  obtain es tr where es: "wire_valid (remaining (vs_file s')) es tr" "n = length es" "\<not> io_error (vs_file s')"
    using assms(3) by (auto simp: stream_viewed_def)
  obtain en where en: "run_state (read_entry_header list_source) (b # bs) =
      (Inr (entry_header en), entry_body en @ remaining (vs_file s'))" "body_valid en"
    using ve(2) [OF es(3) refl] assms(4) by auto
  have "wire_valid (b # bs) (en # es) tr"
    using stream_wire.Entry [OF assms(5) en(1)] en(2) es(1) by (simp add: wire_valid_def)
  moreover have "\<not> io_error (vs_file s)" using es(3) ve(1) by (auto simp: file_step_def)
  ultimately show ?thesis using es(2) assms(4) unfolding stream_viewed_def
    by (intro conjI exI [of _ "en # es"] exI [of _ tr]) simp_all
qed

lemma view_loop_sound:
  assumes "view_loop k s = (r, s')" and "reading (vs_file s)"
  shows "reading (vs_file s') \<and> (r = Inr (k', True) \<longrightarrow> (\<exists>n. stream_viewed n (vs_file s) \<and> k' = k + n))"
  using assms
proof (induction k s rule: view_loop.induct)
  case (1 k s)
  obtain item f where n: "run_state (next_item file_source) (vs_file s) = (item, f)" by fastforce
  note st = sim_step [OF fio.next_item_sim "1.prems"(2) n]
  let ?s1 = "s\<lparr>vs_file := f\<rparr>"
  have rd: "reading (vs_file ?s1)" using st(1) by (simp add: file_step_def)
  have peek: "stream_viewed m f \<Longrightarrow> stream_viewed m (vs_file s)" for m
    using st by (auto simp: stream_viewed_def next_item_list_cases file_step_def)
  have item: "\<not> io_error f \<Longrightarrow> item = (case remaining f of [] \<Rightarrow> End | b # _ \<Rightarrow> if b = DELTA_TRAILER_TAG then Trailer else Entry)"
    using st by (auto simp: next_item_list_cases file_step_def)
  show ?case
  proof (cases item)
    case End
    then show ?thesis using "1.prems"(1) n rd by (auto simp: view_loop.simps)
  next
    case Trailer
    obtain x s2 where t: "view_trailer ?s1 = (x, s2)" by fastforce
    have s': "s' = s2" and r: "r = Inr (k', True) \<Longrightarrow> x = Inr () \<and> k' = k"
      using "1.prems"(1) n Trailer t by (auto simp: view_loop.simps split: sum.splits)
    have "reading (vs_file s2)" using view_trailer_file [OF t rd] by (simp add: file_step_def)
    moreover have "stream_viewed 0 (vs_file s)" if "x = Inr ()"
      using stream_viewed_trailer [OF t [unfolded that] rd] peek by simp
    ultimately show ?thesis using s' r by (auto intro: exI [of _ 0])
  next
    case Entry
    obtain x s2 where e: "view_entry (Suc k) ?s1 = (x, s2)" by fastforce
    note ve = view_entry_sound(1) [OF e rd]
    have rd2: "reading (vs_file s2)" using ve by (simp add: file_step_def)
    show ?thesis
    proof (cases x)
      case (Inl m)
      then show ?thesis using "1.prems"(1) n Entry e rd2 by (auto simp: view_loop.simps [of k s])
    next
      case (Inr u)
      have l: "view_loop (Suc k) s2 = (r, s')"
        using "1.prems"(1) n Entry e Inr by (subst (asm) view_loop.simps) simp
      have ih: "reading (vs_file s') \<and> (r = Inr (k', True) \<longrightarrow> (\<exists>n. stream_viewed n (vs_file s2) \<and> k' = Suc k + n))"
        using "1.IH" [OF n [symmetric] refl Entry, of x s2 u] e Inr l rd2 by auto
      have "stream_viewed (Suc m) (vs_file s)" if v: "stream_viewed m (vs_file s2)" for m
      proof -
        have "\<not> io_error f" using ve v by (auto simp: file_step_def stream_viewed_def)
        then obtain b bs where b: "remaining f = b # bs" "b \<noteq> DELTA_TRAILER_TAG"
          using item_entry item Entry by (metis (no_types, lifting))
        show ?thesis using stream_viewed_entry [OF e [unfolded Inr] rd v, of b bs] b peek by simp
      qed
      then show ?thesis using ih by (metis add_Suc_shift)
    qed
  qed
qed


lemma view_loop_complete:
  assumes "stream_wire bs es trailer" and "\<forall>e \<in> set es. body_valid e" and "length trailer = HASH_SIZE"
    and "healthy (vs_file s)" and "remaining (vs_file s) = bs"
  shows "\<exists>s'. view_loop k s = (Inr (k + length es, True), s') \<and> healthy (vs_file s')"
  using assms
proof (induction arbitrary: k s rule: stream_wire.induct)
  case (End trailer)
  obtain item f where n: "run_state (next_item file_source) (vs_file s) = (item, f)" by fastforce
  note nc = fio.calm_run [OF fio.next_item_sim End.prems(3) n]
  obtain x g where t: "run_state (read_trailer file_source HASH_SIZE) f = (x, g)" by fastforce
  note tc = fio.calm_run [OF fio.read_trailer_sim nc(1) t]
  have "item = Trailer" "remaining f = DELTA_TRAILER_TAG # trailer" using nc(2) End.prems(4) by (auto simp: next_item_list_cases)
  moreover from this have "x = Inr trailer" using tc(2) End.prems(2) by (auto simp: read_trailer_list)
  ultimately show ?case using n t tc(1) by (simp add: view_loop.simps [of k s] view_trailer_def)
next
  case (Entry b bs e r es trailer)
  obtain item f where n: "run_state (next_item file_source) (vs_file s) = (item, f)" by fastforce
  note nc = fio.calm_run [OF fio.next_item_sim Entry.prems(3) n]
  have item: "item = Entry" "remaining f = b # bs"
    using nc(2) Entry.prems(4) Entry.hyps(1) by (auto simp: next_item_list_cases)
  obtain x g where h: "run_state (read_entry_header file_source) f = (x, g)" by fastforce
  note hc = fio.calm_run [OF fio.read_entry_header_sim nc(1) h]
  have x: "x = Inr (entry_header e)" "remaining g = entry_body e @ r" using hc(2) item(2) Entry.hyps(2) by auto
  let ?s = "say (header_text (Suc k) (entry_header e)) (s\<lparr>vs_file := g\<rparr>)"
  obtain s1 where s1: "view_body (Suc k) (entry_header e) ?s = (Inr (), s1)" "healthy (vs_file s1)" "remaining (vs_file s1) = r"
    using view_body_complete [of ?s e r "Suc k"] hc(1) x(2) Entry.prems(1) stream_wire_no_opcode [OF Entry.hyps(3)] by auto
  have e: "view_entry (Suc k) (s\<lparr>vs_file := f\<rparr>) = (Inr (), say newline s1)" using h x(1) s1(1) by (simp add: view_entry_def)
  obtain s' where "view_loop (Suc k) (say newline s1) = (Inr (Suc k + length es, True), s')" "healthy (vs_file s')"
    using Entry.IH [of "say newline s1" "Suc k"] Entry.prems(1,2) s1(2,3) by auto
  then show ?case using n item(1) e by (auto simp: view_loop.simps [of k s])
qed

lemma view_stream_sound:
  assumes "view_stream s = (Inr n, s')" and "reading (vs_file s)"
  shows "\<exists>rest es trailer. remaining (vs_file s) = header_bytes @ rest \<and> wire_valid rest es trailer \<and> n = length es"
proof -
  obtain x f where h: "run_state (read_header file_source) (vs_file s) = (x, f)" by fastforce
  note st = sim_step [OF fio.read_header_sim assms(2) h]
  obtain u where x: "x = Inr u" using assms(1) h by (cases x) (auto simp: view_stream_def)
  let ?s1 = "say (''Format version: '' @ to_dec (unat DELTA_FORMAT_VERSION) @ newline @ newline) (s\<lparr>vs_file := f\<rparr>)"
  obtain y s1 where l: "view_loop 0 ?s1 = (y, s1)" by fastforce
  obtain k saw where y: "y = Inr (k, saw)" using assms(1) h x l by (cases y) (auto simp: view_stream_def)
  obtain z g where fin: "run_state (finish file_source saw) (vs_file s1) = (z, g)" by fastforce
  have z: "z = Inr ()" and n: "n = k" using assms(1) h x l y fin by (auto simp: view_stream_def split: sum.splits)
  have saw: saw using fio.finish_clean(2) [OF fin [unfolded z]] .
  have "reading (vs_file ?s1)" using st(1) by (simp add: file_step_def)
  from view_loop_sound [OF l this, of k] y saw have cf: "\<not> io_error f"
    and ex: "\<exists>es trailer. wire_valid (remaining f) es trailer \<and> k = length es" by (auto simp: stream_viewed_def)
  have "remaining (vs_file s) = header_bytes @ remaining f"
  proof (rule read_header_sound)
    show "run_state (read_header list_source) (remaining (vs_file s)) = (Inr u, remaining f)" using st(2) [OF cf] x by simp
  qed
  then show ?thesis using ex n by blast
qed

lemma view_stream_complete:
  assumes "healthy (vs_file s)" and "remaining (vs_file s) = header_bytes @ rest" and "wire_valid rest es trailer"
  shows "\<exists>s'. view_stream s = (Inr (length es), s')"
proof -
  obtain x f where h: "run_state (read_header file_source) (vs_file s) = (x, f)" by fastforce
  note hc = fio.calm_run [OF fio.read_header_sim assms(1) h]
  have x: "x = Inr ()" "remaining f = rest" using hc(2) assms(2) by (simp_all add: read_header_bytes)
  let ?s1 = "say (''Format version: '' @ to_dec (unat DELTA_FORMAT_VERSION) @ newline @ newline) (s\<lparr>vs_file := f\<rparr>)"
  obtain s1 where s1: "view_loop 0 ?s1 = (Inr (length es, True), s1)" "healthy (vs_file s1)"
    using view_loop_complete [of rest es trailer ?s1 0] assms(3) hc(1) x(2) by (auto simp: wire_valid_def)
  obtain z g where fin: "run_state (finish file_source True) (vs_file s1) = (z, g)" by fastforce
  then have "z = Inr ()" using s1(2) by (auto simp: finish_def run_try_then fail_if_error_def healthy_def split: if_splits)
  then show ?thesis using h x(1) s1(1) fin by (simp add: view_stream_def)
qed

lemma view_delta_disk:
  assumes "view_delta nr p w = (status, txt, err, w')"
  shows "same_disk w w'" and "status \<in> {0, 1, 2}" and "status = 0 \<longleftrightarrow> err = []"
proof -
  obtain ok f w1 where o: "fio_open nr p IN fio_default w = (ok, f, w1)" by (cases "fio_open nr p IN fio_default w") auto
  show "same_disk w w'" using assms o fio_open_input(1) [OF o] by (auto simp: view_delta_def split: if_splits prod.splits sum.splits)
  show "status \<in> {0, 1, 2}" and "status = 0 \<longleftrightarrow> err = []"
    using assms o by (auto simp: view_delta_def split: if_splits prod.splits sum.splits)
qed

lemma view_delta_sound:
  assumes "view_delta nr p w = (0, txt, err, w')"
  shows "\<exists>d rest es trailer. node_at w p = Some d \<and> nd_data d = header_bytes @ rest \<and> wire_valid rest es trailer"
proof -
  obtain ok f w1 where o: "fio_open nr p IN fio_default w = (ok, f, w1)" by (cases "fio_open nr p IN fio_default w") auto
  have ok using assms o by (auto simp: view_delta_def split: if_splits)
  then obtain d where d: "node_at w p = Some d" "reading f" "remaining f = nd_data d" using fio_open_input(2) [OF o] by auto
  define s where "s = \<lparr>vs_text = ''Delta File Viewer - Analyzing: '' @ quoted_path p @ newline @ rule_line @ newline, vs_file = f\<rparr>"
  obtain x s1 where v: "view_stream s = (x, s1)" by fastforce
  obtain n where "x = Inr n" using assms o \<open>ok\<close> v by (cases x) (auto simp: view_delta_def s_def split: if_splits)
  then obtain rest es trailer where "nd_data d = header_bytes @ rest" "wire_valid rest es trailer"
    using view_stream_sound [of s n s1] v d by (auto simp: s_def)
  then show ?thesis using d(1) by blast
qed


section \<open>Properties of the viewer\<close>

lemma view_delta_complete:
  assumes "file_at w p bs" and "no_faults w" and "bs = header_bytes @ rest" and "wire_valid rest es trailer"
  shows "fst (view_delta nr p w) = 0"
proof -
  obtain d where d: "node_at w p = Some d" "nd_kind d = Regular" "nd_data d = bs" using assms(1) by (auto simp: file_at_def)
  obtain f where f: "fio_open nr p IN fio_default w = (True, f, w)" "healthy f" "remaining f = bs"
    using fio_open_input_complete [OF assms(2) d(1,2), of nr] d(3) by auto
  let ?s = "\<lparr>vs_text = ''Delta File Viewer - Analyzing: '' @ quoted_path p @ newline @ rule_line @ newline, vs_file = f\<rparr>"
  obtain s' where "view_stream ?s = (Inr (length es), s')"
    using view_stream_complete [of ?s rest es trailer] f(2,3) assms(3,4) by auto
  then show ?thesis using f(1) by (simp add: view_delta_def)
qed

text \<open>C22 The viewer exits with 0 on exactly the well-formed deltas: a header, entries whose headers parse and
  whose bodies are complete, and a trailer of the digest's length with nothing after it.\<close>

theorem viewer_accepts_exactly:
  assumes "file_at w p bs" and "no_faults w"
  shows "fst (view_delta nr p w) = 0 \<longleftrightarrow> (\<exists>rest es trailer. bs = header_bytes @ rest \<and> wire_valid rest es trailer)"
proof
  assume z: "fst (view_delta nr p w) = 0"
  obtain prn err w' where "view_delta nr p w = (0, prn, err, w')"
    using z by (cases "view_delta nr p w") auto
  from view_delta_sound [OF this] assms(1)
  show "\<exists>rest es trailer. bs = header_bytes @ rest \<and> wire_valid rest es trailer" unfolding file_at_def by fastforce
next
  assume "\<exists>rest es trailer. bs = header_bytes @ rest \<and> wire_valid rest es trailer"
  then show "fst (view_delta nr p w) = 0" using view_delta_complete [OF assms] by blast
qed

theorem viewer_accepts_exactly_witness:
  "fst (view_delta True ''d'' (world_of [(''d'', header_bytes @ DELTA_TRAILER_TAG # replicate 64 7)])) = 0 \<and>
   fst (view_delta True ''d'' (world_of [(''d'', [])])) \<noteq> 0"
proof -
  have f: "file_at (world_of [(''d'', bs)]) ''d'' bs" for bs
    by (simp add: file_at_def node_at_def world_of_def new_node_def)
  have "wire_valid (DELTA_TRAILER_TAG # replicate 64 7) [] (replicate 64 7)"
    by (simp add: wire_valid_def HASH_SIZE_def stream_wire.End)
  then have "fst (view_delta True ''d'' (world_of [(''d'', header_bytes @ DELTA_TRAILER_TAG # replicate 64 7)])) = 0"
    using viewer_accepts_exactly [OF f no_faults_world_of] by blast
  moreover have "header_bytes \<noteq> []" by (simp add: header_bytes_def push_u32_be_def DELTA_MAGIC_def)
  then have "fst (view_delta True ''d'' (world_of [(''d'', [])])) \<noteq> 0"
    using viewer_accepts_exactly [OF f [of "[]"] no_faults_world_of] by auto
  ultimately show ?thesis ..
qed

end
