(* ===== verification/Cli_Main.thy ===== *)
theory Cli_Main imports Round_Trip Delta_Viewer begin

text \<open>
  The command line (\<^verbatim>\<open>src/src/main.cpp\<close>): sizes with a suffix, the exit statuses, the three commands and
  their dispatch, and the \<open>generate_signatures\<close> of a path that \<open>create\<close> calls.  A command returns its
  exit status and what it printed on the two streams, or the exception that escapes it, which \<open>main\<close>
  turns into status 2.
\<close>

section \<open>Signatures of a path\<close>

definition generate_signatures_path ::
  "bool \<Rightarrow> 't rolling_hash \<Rightarrow> 'u strong_hash \<Rightarrow> path \<Rightarrow> WholeFileHash \<Rightarrow> world \<Rightarrow> (string + bool \<times> Signature) \<times> world" where
  "generate_signatures_path nr T U datafile mode w =
     (case fio_open nr datafile IN fio_default w of (ok, f, w1) \<Rightarrow>
        (if \<not> ok then Inr (False, empty_signature)
         else bind_sum (generate_signatures T U mode f) (\<lambda>(done1, sg, _). Inr (done1, sg)), w1))"

section \<open>Sizes\<close>

definition is_digit :: "char \<Rightarrow> bool" where
  "is_digit c \<longleftrightarrow> 48 \<le> (of_char c :: nat) \<and> (of_char c :: nat) \<le> 57"

fun parse_digits :: "u64 \<Rightarrow> string \<Rightarrow> (u64 \<times> string) option" where
  "parse_digits value [] = Some (value, [])"
| "parse_digits value (c # cs) =
     (if \<not> is_digit c then Some (value, c # cs)
      else let digit = of_nat (of_char c - 48) in
        if value > (- 1 - digit) div 10 then None
        else parse_digits (value * 10 + digit) cs)"

text \<open>The letter with bit 5 cleared, looked up in the list of suffixes.\<close>

definition clear_bit_5 :: "char \<Rightarrow> char" where
  "clear_bit_5 c = char_of (unat ((of_nat (of_char c) :: byte) AND NOT 0x20))"

definition suffix_power :: "char \<Rightarrow> nat option" where
  "suffix_power c = List.find (\<lambda>i. ''KMGT'' ! i = clear_bit_5 c) [0..<4]"

definition parse_size :: "string \<Rightarrow> u64 option" where
  "parse_size txt =
     (case parse_digits 0 txt of
        None \<Rightarrow> None
      | Some (value, rest) \<Rightarrow>
          if length rest = length txt \<or> length rest > 1 then None
          else if rest = [] then Some value
          else case suffix_power (hd rest) of
              None \<Rightarrow> None
            | Some p \<Rightarrow>
                let shift = 10 * (p + 1) in
                if value > drop_bit shift (- 1) then None else Some (push_bit shift value))"


section \<open>Exit statuses and reports\<close>

fun exit_status_for :: "DeltaErrc \<Rightarrow> nat" where
  "exit_status_for corrupt_delta = 1"
| "exit_status_for integrity_mismatch = 1"
| "exit_status_for invalid_argument = 1"
| "exit_status_for limit_exceeded = 1"
| "exit_status_for io_err = 2"
| "exit_status_for internal_error = 2"

definition report :: "string \<Rightarrow> DeltaError \<Rightarrow> string" where
  "report action e = ''Error '' @ action @ '': '' @ message e @ '' ('' @ to_string (code e) @ '')'' @ newline"

text \<open>The exit status and the text on the two streams.\<close>

type_synonym printed = "nat \<times> string \<times> string"

section \<open>The commands\<close>

text \<open>
  The old file is read on a worker thread.  The two passes share nothing but the disk, which neither
  changes, so the worker gets a list of faults of its own; an exception of this thread's pass
  propagates first, then one of the worker's.
\<close>

definition run_create ::
  "bool \<Rightarrow> 'u strong_hash \<Rightarrow> string option list \<times> nat option list list \<Rightarrow> path \<Rightarrow> path \<Rightarrow> path \<Rightarrow> world \<Rightarrow>
   (string + printed) \<times> world" where
  "run_create nr U worker old_path new_path delta_path w =
     (let (old_ok, _) = generate_signatures_path nr (rk_alg rk_default) U old_path Skip
                          (w\<lparr>w_errs := fst worker, w_plans := snd worker\<rparr>);
          (new_ok, w1) = generate_signatures_path nr (rk_alg rk_default) U new_path Compute w
      in case new_ok of
          Inl e \<Rightarrow> (Inl e, w1)
        | Inr (new_read, new_signature) \<Rightarrow>
            (case old_ok of
               Inl e \<Rightarrow> (Inl e, w1)
             | Inr (old_read, old_signature) \<Rightarrow>
                 if \<not> old_read then (Inr (2, [], ''Failed to read old file: '' @ old_path @ newline), w1)
                 else if \<not> new_read then (Inr (2, [], ''Failed to read new file: '' @ new_path @ newline), w1)
                 else (case generate_delta nr U old_signature new_signature old_path new_path delta_path w1 of
                         (Inl e, w2) \<Rightarrow> (Inr (exit_status_for (code e), [], report ''generating delta'' e), w2)
                       | (Inr _, w2) \<Rightarrow> (Inr (0, [], []), w2))))"

definition run_apply ::
  "bool \<Rightarrow> 'u strong_hash \<Rightarrow> path \<Rightarrow> path \<Rightarrow> path \<Rightarrow> u64 \<Rightarrow> world \<Rightarrow> printed \<times> world" where
  "run_apply nr U old_path delta_path out_path max_output w =
     (case apply_delta nr (rk_alg rk_default) U old_path delta_path out_path max_output w of
        (Inl e, w1) \<Rightarrow> ((exit_status_for (code e), [], report ''applying delta'' e), w1)
      | (Inr stats, w1) \<Rightarrow>
          ((0, ''Applied '' @ to_dec (as_entries_processed stats) @ '' entries, wrote '' @
               to_dec (as_bytes_written stats) @ '' bytes to '' @ out_path @ newline, []), w1))"

section \<open>Dispatch\<close>

text \<open>The version is the one the build wrote into \<open>rh_config.h\<close>.\<close>

definition print_version :: "string \<Rightarrow> string \<Rightarrow> string" where
  "print_version version prog = prog @ '' v'' @ version @ newline"

definition print_usage :: "string \<Rightarrow> string" where
  "print_usage prog =
     ''Usage:'' @ newline @
     ''  '' @ prog @ '' create <oldfile> <newfile> <delta>'' @ newline @
     ''  '' @ prog @ '' apply  [--max-output SIZE] <oldfile> <delta> <outfile>'' @ newline @
     ''  '' @ prog @ '' view   <delta>'' @ newline @
     ''  '' @ prog @ '' --version'' @ newline @
     ''  '' @ prog @ '' --help'' @ newline @ newline @
     ''SIZE is a byte count with an optional K, M, G or T (binary) suffix.'' @ newline"

definition run_apply_command :: "bool \<Rightarrow> 'u strong_hash \<Rightarrow> string list \<Rightarrow> world \<Rightarrow> printed \<times> world" where
  "run_apply_command nr U argv w =
     (if length argv = 7 \<and> argv ! 2 = ''--max-output''
      then case parse_size (argv ! 3) of
          None \<Rightarrow> ((1, [], ''Invalid --max-output size: '' @ argv ! 3 @ newline), w)
        | Some max_output \<Rightarrow> run_apply nr U (argv ! 4) (argv ! 5) (argv ! 6) max_output w
      else if length argv \<noteq> 5 then ((1, [], print_usage (hd argv)), w)
      else run_apply nr U (argv ! 2) (argv ! 3) (argv ! 4) (- 1) w)"

definition run ::
  "bool \<Rightarrow> 'u strong_hash \<Rightarrow> string \<Rightarrow> string option list \<times> nat option list list \<Rightarrow> string list \<Rightarrow> world \<Rightarrow>
   (string + printed) \<times> world" where
  "run nr U version worker argv w =
     (if length argv < 2 then (Inr (1, [], print_usage (hd argv)), w)
      else let command = argv ! 1 in
        if command = ''--version'' \<or> command = ''-v'' then (Inr (0, print_version version (hd argv), []), w)
        else if command = ''--help'' \<or> command = ''-h'' then (Inr (0, print_usage (hd argv), []), w)
        else if command = ''create''
        then (if length argv \<noteq> 5 then (Inr (1, [], print_usage (hd argv)), w)
              else run_create nr U worker (argv ! 2) (argv ! 3) (argv ! 4) w)
        else if command = ''apply'' then (case run_apply_command nr U argv w of (p, w1) \<Rightarrow> (Inr p, w1))
        else if command = ''view''
        then (if length argv \<noteq> 3 then (Inr (1, [], print_usage (hd argv)), w)
              else case view_delta nr (argv ! 2) w of (status, printed, err, w1) \<Rightarrow> (Inr (status, printed, err), w1))
        else (Inr (1, [], ''Unknown command: '' @ command @ newline @ print_usage (hd argv)), w))"

definition main ::
  "bool \<Rightarrow> 'u strong_hash \<Rightarrow> string \<Rightarrow> string option list \<times> nat option list list \<Rightarrow> string list \<Rightarrow> world \<Rightarrow> printed \<times> world" where
  "main nr U version worker argv w =
     (case run nr U version worker argv w of
        (Inl e, w1) \<Rightarrow> ((2, [], ''Fatal error: '' @ e @ newline), w1)
      | (Inr p, w1) \<Rightarrow> (p, w1))"

section \<open>Sizes are read exactly\<close>

definition decimal_from :: "nat \<Rightarrow> string \<Rightarrow> nat" where
  "decimal_from n ds = foldl (\<lambda>v c. 10 * v + (of_char c - 48)) n ds"

text \<open>The specification of a suffix: the power of 1024 it stands for.\<close>

definition size_unit :: "char \<Rightarrow> nat option" where
  "size_unit c =
     map_of [(CHR ''K'', 1), (CHR ''k'', 1), (CHR ''M'', 2), (CHR ''m'', 2), (CHR ''G'', 3), (CHR ''g'', 3),
             (CHR ''T'', 4), (CHR ''t'', 4)] c"

lemma bit_32: "bit (0x20 :: byte) n \<longleftrightarrow> n = 5"
proof -
  have "(0x20 :: byte) = push_bit 5 1" by simp
  then show ?thesis by (simp only: bit_push_bit_iff bit_1_iff) auto
qed

lemma clear_bit_5_Char: "clear_bit_5 (Char b0 b1 b2 b3 b4 b5 b6 b7) = Char b0 b1 b2 b3 b4 False b6 b7"
proof -
  have d: "bit (of_char (Char b0 b1 b2 b3 b4 b5 b6 b7) :: nat) n =
      (n < length [b0, b1, b2, b3, b4, b5, b6, b7] \<and> [b0, b1, b2, b3, b4, b5, b6, b7] ! n)" for n
  proof -
    have "bit (of_char (Char b0 b1 b2 b3 b4 b5 b6 b7) :: nat) n =
        bit (horner_sum of_bool 2 [b0, b1, b2, b3, b4, b5, b6, b7] :: nat) n"
      by (simp add: of_char_def)
    then show ?thesis by (simp only: bit_horner_sum_bit_iff possible_bit_nat simp_thms)
  qed
  show ?thesis
    unfolding clear_bit_5_def char_of_def bit_0 [symmetric]
    by (simp add: bit_unsigned_iff d bit_and_iff bit_not_iff bit_32 del: bit_0)
qed

lemma suffix_power_unit: "size_unit c = map_option Suc (suffix_power c)"
proof (cases c)
  case (Char b0 b1 b2 b3 b4 b5 b6 b7)
  have u: "[0..<4] = [0, 1, 2, 3]" by (simp add: upt_rec)
  show ?thesis unfolding suffix_power_def size_unit_def Char clear_bit_5_Char u by auto
qed

lemma decimal_from_ge: "n \<le> decimal_from n ds"
proof (induction ds arbitrary: n)
  case (Cons c ds)
  have "n \<le> 10 * n + (of_char c - 48)" by simp
  also have "\<dots> \<le> decimal_from (10 * n + (of_char c - 48)) ds" by (rule Cons.IH)
  finally show ?case by (simp add: decimal_from_def)
qed (simp add: decimal_from_def)

lemma unat_minus_1: "unat (- 1 :: u64) = 2 ^ 64 - 1"
  by (simp add: unsigned_minus_1_eq_mask mask_eq_exp_minus_1)

lemma digit_overflow:
  assumes "d \<le> 9"
  shows "v > ((- 1 - of_nat d) div 10 :: u64) \<longleftrightarrow> 2 ^ 64 \<le> 10 * unat v + d"
proof -
  have d: "unat (of_nat d :: u64) = d" using assms by (intro unat_u64_of_nat) simp
  note m = unat_minus_1
  have "(of_nat d :: u64) \<le> - 1" by (rule word_order.extremum)
  then have "unat (- 1 - of_nat d :: u64) = 2 ^ 64 - 1 - d" using d m by (simp only: unat_sub)
  then have "unat ((- 1 - of_nat d) div 10 :: u64) = (2 ^ 64 - 1 - d) div 10" by (simp only: unat_div) simp
  then have "v > ((- 1 - of_nat d) div 10 :: u64) \<longleftrightarrow> (2 ^ 64 - 1 - d) div 10 < unat v"
    by (simp only: word_less_nat_alt)
  also have "\<dots> \<longleftrightarrow> 2 ^ 64 \<le> 10 * unat v + d" using assms by (simp add: div_less_iff_less_mult) linarith
  finally show ?thesis .
qed

lemma unit_overflow:
  fixes v :: u64
  assumes "s < 64"
  shows "v > drop_bit s (- 1) \<longleftrightarrow> 2 ^ 64 \<le> unat v * 2 ^ s"
proof -
  have "unat (drop_bit s (- 1) :: u64) = (2 ^ 64 - 1) div 2 ^ s"
    by (simp only: unat_drop_bit_div unat_minus_1)
  then have "v > drop_bit s (- 1) \<longleftrightarrow> (2 ^ 64 - 1) div 2 ^ s < unat v" by (simp only: word_less_nat_alt)
  also have "\<dots> \<longleftrightarrow> 2 ^ 64 - 1 < unat v * 2 ^ s" by (simp add: div_less_iff_less_mult del: One_nat_def)
  also have "\<dots> \<longleftrightarrow> 2 ^ 64 \<le> unat v * 2 ^ s"
  proof -
    have k: "a - 1 < b \<longleftrightarrow> a \<le> b" if "0 < a" for a b :: nat using that by linarith
    show ?thesis by (rule k) simp
  qed
  finally show ?thesis .
qed

lemma parse_digits_exact:
  assumes "\<forall>c \<in> set ds. is_digit c" and "rest = [] \<or> \<not> is_digit (hd rest)"
  shows "parse_digits v (ds @ rest) =
    (if decimal_from (unat v) ds < 2 ^ 64 then Some (of_nat (decimal_from (unat v) ds), rest) else None)"
  using assms(1)
proof (induction ds arbitrary: v)
  case Nil
  have "decimal_from (unat v) [] = unat v" "unat v < 2 ^ 64" using unat_lt_pow [of v] by (simp_all add: decimal_from_def)
  then show ?case using assms(2) by (cases rest) auto
next
  case (Cons c ds)
  define d where "d = (of_char c :: nat) - 48"
  have d: "d \<le> 9" "is_digit c" using Cons.prems by (auto simp: d_def is_digit_def)
  have dec: "decimal_from (unat v) (c # ds) = decimal_from (10 * unat v + d) ds" by (simp add: decimal_from_def d_def)
  show ?case
  proof (cases "2 ^ 64 \<le> 10 * unat v + d")
    case True
    then have "\<not> decimal_from (unat v) (c # ds) < 2 ^ 64" using decimal_from_ge [of "10 * unat v + d" ds] dec by simp
    then show ?thesis using digit_overflow [OF d(1), of v] True d(2) by (simp add: d_def Let_def)
  next
    case False
    have "unat (v * 10 + of_nat d) = 10 * unat v + d"
      using False by (simp add: unat_word_ariths unat_of_nat mult.commute mod_add_eq)
    then show ?thesis
      using Cons.IH [of "v * 10 + of_nat d"] Cons.prems digit_overflow [OF d(1), of v] False d(2) dec
      by (simp add: d_def Let_def)
  qed
qed


lemma size_unit_range: "size_unit c = Some k \<Longrightarrow> k \<in> {1, 2, 3, 4} \<and> \<not> is_digit c"
  by (auto simp: size_unit_def is_digit_def split: if_splits)

lemma parse_size_split:
  assumes "\<forall>c \<in> set ds. is_digit c" and "rest = [] \<or> \<not> is_digit (hd rest)"
  shows "parse_size (ds @ rest) =
    (if ds = [] \<or> length rest > 1 \<or> 2 ^ 64 \<le> decimal_from 0 ds then None
     else if rest = [] then Some (of_nat (decimal_from 0 ds))
     else case size_unit (hd rest) of
         None \<Rightarrow> None
       | Some k \<Rightarrow> if decimal_from 0 ds * 1024 ^ k < 2 ^ 64 then Some (of_nat (decimal_from 0 ds * 1024 ^ k)) else None)"
proof (cases "ds = [] \<or> length rest > 1 \<or> 2 ^ 64 \<le> decimal_from 0 ds")
  case True
  then show ?thesis using parse_digits_exact [OF assms, of 0] by (auto simp: parse_size_def)
next
  case False
  let ?n = "decimal_from 0 ds"
  have pd: "parse_digits 0 (ds @ rest) = Some (of_nat ?n, rest)" using parse_digits_exact [OF assms, of 0] False by simp
  have v: "unat (of_nat ?n :: u64) = ?n" using False by (intro unat_u64_of_nat) simp
  show ?thesis
  proof (cases "rest = [] \<or> size_unit (hd rest) = None")
    case True
    then show ?thesis
      using False pd suffix_power_unit [of "hd rest"] by (auto simp: parse_size_def split: option.splits)
  next
    case unit: False
    then obtain p where p: "suffix_power (hd rest) = Some p" "size_unit (hd rest) = Some (Suc p)"
      using suffix_power_unit [of "hd rest"] by (cases "suffix_power (hd rest)") auto
    have s: "10 * (p + 1) < 64" using size_unit_range [OF p(2)] by auto
    have e: "(1024 :: nat) ^ Suc p = 2 ^ (10 * (p + 1))" using power_mult [of "2 :: nat" 10 "p + 1"] by simp
    have "push_bit (10 * (p + 1)) (of_nat ?n :: u64) = of_nat (?n * 1024 ^ Suc p)"
      unfolding e by (simp add: push_bit_eq_mult)
    then show ?thesis
      using False unit pd p unit_overflow [OF s, of "of_nat ?n"] v
      by (auto simp: parse_size_def Let_def e not_less simp del: power_Suc)
  qed
qed

text \<open>C24 A size argument is accepted exactly if it is a decimal number with at most one suffix letter, in either
  case, whose value fits 64 bits, and then it has that value.\<close>

theorem parse_size_exact:
  "parse_size arg = Some v \<longleftrightarrow>
     (\<exists>ds suffix k. arg = ds @ suffix \<and> ds \<noteq> [] \<and> (\<forall>c \<in> set ds. is_digit c) \<and>
        (suffix = [] \<and> k = 0 \<or> (\<exists>c. suffix = [c] \<and> size_unit c = Some k)) \<and> unat v = decimal_from 0 ds * 1024 ^ k)"
  (is "_ \<longleftrightarrow> (\<exists>ds suffix k. ?P ds suffix k)")
proof
  assume a: "parse_size arg = Some v"
  define ds where "ds = takeWhile is_digit arg"
  define rest where "rest = dropWhile is_digit arg"
  have arg: "arg = ds @ rest" by (simp add: ds_def rest_def)
  have ok: "\<forall>c \<in> set ds. is_digit c" "rest = [] \<or> \<not> is_digit (hd rest)"
    using hd_dropWhile [of is_digit arg] by (auto simp: ds_def rest_def dest: set_takeWhileD)
  note ps = parse_size_split [OF ok, folded arg]
  have n: "ds \<noteq> []" "length rest \<le> 1" "decimal_from 0 ds < 2 ^ 64" using a ps by (auto split: if_splits)
  show "\<exists>ds suffix k. ?P ds suffix k"
  proof (cases rest)
    case Nil
    then have "unat v = decimal_from 0 ds" using a ps n by (auto intro: unat_u64_of_nat)
    then show ?thesis using arg n(1) ok(1) Nil by (intro exI [of _ ds] exI [of _ rest] exI [of _ 0]) simp
  next
    case (Cons c r)
    then have r: "rest = [c]" using n(2) by simp
    obtain k where k: "size_unit c = Some k" "decimal_from 0 ds * 1024 ^ k < 2 ^ 64" "v = of_nat (decimal_from 0 ds * 1024 ^ k)"
      using a ps n r by (auto split: option.splits if_splits)
    then have "unat v = decimal_from 0 ds * 1024 ^ k" by (simp only: unat_u64_of_nat)
    then show ?thesis using arg n(1) ok(1) r k(1) by (intro exI [of _ ds] exI [of _ rest] exI [of _ k]) simp
  qed
next
  assume "\<exists>ds suffix k. ?P ds suffix k"
  then obtain ds suffix k where p: "arg = ds @ suffix" "ds \<noteq> []" "\<forall>c \<in> set ds. is_digit c"
    "suffix = [] \<and> k = 0 \<or> (\<exists>c. suffix = [c] \<and> size_unit c = Some k)" "unat v = decimal_from 0 ds * 1024 ^ k" by blast
  have ok: "suffix = [] \<or> \<not> is_digit (hd suffix)" using p(4) size_unit_range by auto
  have "unat v < 2 ^ 64" using unat_lt_pow [of v] by simp
  moreover have "decimal_from 0 ds \<le> decimal_from 0 ds * 1024 ^ k" by simp
  ultimately have n: "decimal_from 0 ds * 1024 ^ k < 2 ^ 64" "decimal_from 0 ds < 2 ^ 64" using p(5) by linarith+
  have "of_nat (decimal_from 0 ds * 1024 ^ k) = v"
    unfolding word_unat_eq_iff unat_u64_of_nat [OF n(1)] by (rule p(5) [symmetric])
  then show "parse_size arg = Some v"
    using parse_size_split [OF p(3) ok, folded p(1)] p(2,4) n by auto
qed

theorem parse_size_exact_witness: "parse_size ''64k'' = Some 65536 \<and> parse_size ''64KB'' = None"
proof
  have "''64k'' = ''64'' @ ''k'' \<and> ''64'' \<noteq> [] \<and> (\<forall>c \<in> set ''64''. is_digit c) \<and>
      (''k'' = [] \<and> (1 :: nat) = 0 \<or> (\<exists>c. ''k'' = [c] \<and> size_unit c = Some 1)) \<and>
      unat (65536 :: u64) = decimal_from 0 ''64'' * 1024 ^ 1"
    by (simp add: is_digit_def size_unit_def decimal_from_def)
  then show "parse_size ''64k'' = Some 65536" unfolding parse_size_exact by blast
  show "parse_size ''64KB'' = None" by code_simp
qed


section \<open>Commands leave the disk alone unless they succeed\<close>

lemma signatures_path_disk:
  assumes "generate_signatures_path nr T U p mode w = (r, w')"
  shows "same_disk w w'"
  using assms fio_open_input(1) by (auto simp: generate_signatures_path_def split: prod.splits)

lemma signatures_path_sound:
  assumes "generate_signatures_path nr (rk_alg rk_default) U p mode w = (Inr (True, sg), w')"
    and "strong_hash_sound U D msg"
  shows "\<exists>n. node_at w p = Some n \<and> sg = signature_of D (rk_value rk_default) 48 mode (nd_data n)"
proof -
  obtain ok f w1 where o: "fio_open nr p IN fio_default w = (ok, f, w1)" by (cases "fio_open nr p IN fio_default w") auto
  obtain f1 where ok: ok and g: "generate_signatures (rk_alg rk_default) U mode f = Inr (True, sg, f1)"
    using assms(1) o by (auto simp: generate_signatures_path_def bind_sum_Inr split: if_splits)
  obtain n where n: "node_at w p = Some n" "reading f" "st_data (strm f) = nd_data n"
    using fio_open_input(2) [OF o] ok by auto
  from shipped_correct(1) [OF g assms(2) n(2)] n show ?thesis by auto
qed

lemma untouched_same_disk: "same_disk w w1 \<Longrightarrow> untouched w1 w2 \<Longrightarrow> untouched w w2"
  by (auto simp: untouched_def same_disk_def)

lemma disk_start:
  assumes "wf_world w" and "\<forall>s \<in> set (w_slots w). s = None" and "same_disk w w'"
  shows "wf_world w'" and "\<forall>s \<in> set (w_slots w'). s = None" and "untouched w w'"
  using assms untouched_disk [OF untouched_refl [OF assms(1)] assms(3)] by (auto simp: wf_world_def same_disk_def)

lemma exit_status_nonzero: "exit_status_for c \<in> {1, 2}"
  by (cases c) simp_all

lemma run_create_untouched:
  assumes "run_create nr U worker p q d w = (r, w')" and "wf_world w" and "\<forall>s \<in> set (w_slots w). s = None"
    and "\<And>x. r \<noteq> Inr (0, x)"
  shows "untouched w w'"
proof -
  obtain old_ok v where o: "generate_signatures_path nr (rk_alg rk_default) U p Skip (w\<lparr>w_errs := fst worker, w_plans := snd worker\<rparr>) = (old_ok, v)"
    by fastforce
  obtain new_ok w1 where n: "generate_signatures_path nr (rk_alg rk_default) U q Compute w = (new_ok, w1)" by fastforce
  note d = disk_start [OF assms(2,3) signatures_path_disk [OF n]]
  obtain x w2 where g: "generate_delta nr U (snd (projr old_ok)) (snd (projr new_ok)) p q d w1 = (x, w2)" by fastforce
  have "untouched w w2" if "x = Inl e" for e
    using generate_delta_untouched [OF g [unfolded that] d(1,2)] signatures_path_disk [OF n] untouched_same_disk by blast
  then show ?thesis
    using assms(1,4) o n g d(3) by (auto simp: run_create_def Let_def split: sum.splits prod.splits if_splits)
qed


lemma run_apply_untouched:
  assumes "run_apply nr U p d q m w = ((status, printed, err), w')" and "wf_world w" and "\<forall>s \<in> set (w_slots w). s = None"
  shows "status \<in> {0, 1, 2}" and "status \<noteq> 0 \<Longrightarrow> untouched w w'"
proof -
  obtain x w1 where a: "apply_delta nr (rk_alg rk_default) U p d q m w = (x, w1)" by fastforce
  show "status \<in> {0, 1, 2}"
    using assms(1) a exit_status_nonzero [of "code (projl x)"] by (auto simp: run_apply_def split: sum.splits)
  show "untouched w w'" if "status \<noteq> 0"
    using assms(1) a that apply_delta_untouched [OF _ assms(2,3), of nr "rk_alg rk_default" U p d q m _ w1]
    by (auto simp: run_apply_def split: sum.splits)
qed

lemma run_create_status:
  "run_create nr U worker p q d w = (Inr (status, printed, err), w') \<Longrightarrow> status \<in> {0, 1, 2}"
  using exit_status_nonzero by (auto simp: run_create_def Let_def split: sum.splits prod.splits if_splits)

lemma run_apply_command_untouched:
  assumes "run_apply_command nr U argv w = ((status, printed, err), w')" and "wf_world w" and "\<forall>s \<in> set (w_slots w). s = None"
  shows "status \<in> {0, 1, 2} \<and> (status \<noteq> 0 \<longrightarrow> untouched w w')"
proof -
  consider (bad) "status = 1" "w' = w"
    | (ran) p d q m where "run_apply nr U p d q m w = ((status, printed, err), w')"
    using assms(1) by (auto simp: run_apply_command_def split: if_splits option.splits)
  then show ?thesis
  proof cases
    case bad
    then show ?thesis using untouched_refl [OF assms(2)] by simp
  next
    case ran
    show ?thesis using run_apply_untouched [OF ran assms(2,3)] by blast
  qed
qed

lemma run_untouched:
  assumes "run nr U version worker argv w = (Inr (status, printed, err), w')" and "wf_world w"
    and "\<forall>s \<in> set (w_slots w). s = None"
  shows "status \<in> {0, 1, 2} \<and> (status \<noteq> 0 \<longrightarrow> untouched w w')"
proof -
  note refl = untouched_refl [OF assms(2)]
  consider (create) "run_create nr U worker (argv ! 2) (argv ! 3) (argv ! 4) w = (Inr (status, printed, err), w')"
    | (apply1) "run_apply_command nr U argv w = ((status, printed, err), w')"
    | (view) "view_delta nr (argv ! 2) w = (status, printed, err, w')"
    | (other) "w' = w" "status \<in> {0, 1}"
    using assms(1) by (auto simp: run_def Let_def split: if_splits prod.splits)
  then show ?thesis
  proof cases
    case create
    then show ?thesis using run_create_status [OF create] run_create_untouched [OF create assms(2,3)] by auto
  next
    case apply1
    then show ?thesis by (rule run_apply_command_untouched [OF _ assms(2,3)])
  next
    case view
    then show ?thesis using view_delta_disk(1,2) [OF view] disk_start(3) [OF assms(2,3)] by blast
  qed (use refl in auto)
qed

text \<open>C9 The exit status is 0, 1 or 2, and a command that exits with another status than 0 -- a bad argument, a
  refused delta, a failed device or an exception -- leaves every file that existed with its name, its
  bytes and its permissions.\<close>

theorem failed_command_untouched:
  assumes "main nr U version worker argv w = ((status, printed, err), w')" and "wf_world w"
    and "\<forall>s \<in> set (w_slots w). s = None"
  shows "status \<in> {0, 1, 2} \<and> (status \<noteq> 0 \<longrightarrow> untouched w w')"
proof (cases "run nr U version worker argv w")
  case (Pair r w1)
  show ?thesis
  proof (cases r)
    case (Inr p)
    then have "run nr U version worker argv w = (Inr (status, printed, err), w')"
      using assms(1) Pair by (simp add: main_def)
    then show ?thesis by (rule run_untouched [OF _ assms(2,3)])
  next
    case (Inl e)
    have "run_create nr U worker (argv ! 2) (argv ! 3) (argv ! 4) w = (Inl e, w1)"
      using Pair Inl by (auto simp: run_def Let_def split: if_splits prod.splits)
    from run_create_untouched [OF this assms(2,3)] show ?thesis using assms(1) Pair Inl by (simp add: main_def)
  qed
qed

theorem failed_command_untouched_witness:
  "\<exists>status printed err w'. main True sample_hash ''1.0'' ([], []) [''roll'', ''apply'', ''a'', ''d'', ''o''] (world_of []) =
     ((status, printed, err), w') \<and> status = 2 \<and> untouched (world_of []) w'"
proof -
  obtain status printed err w' where m: "main True sample_hash ''1.0'' ([], []) [''roll'', ''apply'', ''a'', ''d'', ''o''] (world_of []) =
      ((status, printed, err), w')" by (cases "main True sample_hash ''1.0'' ([], []) [''roll'', ''apply'', ''a'', ''d'', ''o''] (world_of [])") auto
  have "status = 2"
    using m by (simp add: main_def run_def run_apply_command_def run_apply_def apply_delta_def apply_delta_impl_def fio_open_def
        Let_def readable_mode_def fs_is_regular_file_def fs_status_def take_fault_def world_of_def node_at_def
        discard_read_buffer_def fio_default_def is_open_def closed_stream_def delta_error_def)
  with failed_command_untouched [OF m world_of_wf world_of_slots] m show ?thesis by auto
qed

section \<open>The round trip of the program\<close>

lemma run_create_success:
  assumes "run_create nr U worker p q d w = (Inr (0, printed, err), w')" and "strong_hash_sound U D msg"
  obtains w1 n m stats where "same_disk w w1" and "node_at w p = Some n" and "node_at w q = Some m"
    and "generate_delta nr U (signature_of D (rk_value rk_default) 48 Skip (nd_data n))
           (signature_of D (rk_value rk_default) 48 Compute (nd_data m)) p q d w1 = (Inr stats, w')"
proof -
  let ?v = "w\<lparr>w_errs := fst worker, w_plans := snd worker\<rparr>"
  obtain old_ok v where o: "generate_signatures_path nr (rk_alg rk_default) U p Skip ?v = (old_ok, v)" by fastforce
  obtain new_ok w1 where n: "generate_signatures_path nr (rk_alg rk_default) U q Compute w = (new_ok, w1)" by fastforce
  have pos: "exit_status_for c \<noteq> 0" for c using exit_status_nonzero [of c] by auto
  obtain og nf stats where ok: "old_ok = Inr (True, og)" "new_ok = Inr (True, nf)"
    and g: "generate_delta nr U og nf p q d w1 = (Inr stats, w')"
    using assms(1) by (auto simp: run_create_def Let_def o n pos pos [symmetric] split: sum.splits prod.splits if_splits)
  obtain k where k: "node_at ?v p = Some k" "og = signature_of D (rk_value rk_default) 48 Skip (nd_data k)"
    using signatures_path_sound [OF o [unfolded ok] assms(2)] by blast
  obtain m where m: "node_at w q = Some m" "nf = signature_of D (rk_value rk_default) 48 Compute (nd_data m)"
    using signatures_path_sound [OF n [unfolded ok] assms(2)] by blast
  have "node_at w p = Some k" using k(1) by (simp add: node_at_def)
  from that [OF signatures_path_disk [OF n] this m(1)] g k(2) m(2) show ?thesis by simp
qed

text \<open>C4 The round trip of the program: if \<open>roll create old new delta\<close> exits with 0, whatever faults occurred on
  the way, then \<open>roll apply\<close> of that delta to the same old bytes, at any place where no device fails and
  the output can be staged, exits with 0 and publishes exactly the new bytes, provided no chunk of the
  new file shares size and truncated digest with a different chunk of the old one.\<close>

theorem command_line_roundtrip:
  assumes "main nr U version worker [prog, ''create'', old_path, new_path, delta_path] w = ((0, printed, err), w1)"
    and "wf_world w" and "\<forall>s \<in> set (w_slots w). s = None"
    and "file_at w old_path old" and "file_at w new_path new"
    and "node_at w1 delta_path = Some d" and "file_at w2 delta_path2 (nd_data d)" and "file_at w2 old_path2 old"
    and "output_ready w2 out_path [old_path2, delta_path2]"
    and "digest_separates D old new" and "length old \<le> STREAMOFF_MAX" and "length new \<le> STREAMOFF_MAX"
    and "strong_hash_sound U D msg" and "strong_hash_total U msg live" and "DELTA_DIGEST_BYTES \<le> sh_size U"
  shows "\<exists>printed2 w3. main nr2 U version worker2 [prog2, ''apply'', old_path2, delta_path2, out_path] w2 =
      ((0, printed2, []), w3) \<and> published w2 w3 out_path new"
proof -
  have "run_create nr U worker old_path new_path delta_path w = (Inr (0, printed, err), w1)"
    using assms(1) by (auto simp: main_def run_def split: prod.splits sum.splits)
  then obtain v n m stats where c: "same_disk w v" "node_at w old_path = Some n" "node_at w new_path = Some m"
    "generate_delta nr U (signature_of D (rk_value rk_default) 48 Skip (nd_data n))
       (signature_of D (rk_value rk_default) 48 Compute (nd_data m)) old_path new_path delta_path v = (Inr stats, w1)"
    using run_create_success [OF _ assms(13)] by metis
  have data: "nd_data n = old" "nd_data m = new" and f: "file_at v old_path old" "file_at v new_path new"
    using assms(4,5) c(2,3) same_disk_node [OF c(1)] by (auto simp: file_at_def)
  have "length new \<le> unat (- 1 :: u64)" using assms(12) by (simp add: unat_minus_1 STREAMOFF_MAX_def)
  then obtain w3 where "apply_delta nr2 (rk_alg rk_default) U old_path2 delta_path2 out_path (- 1) w2 =
      (Inr \<lparr>as_entries_processed = length (sign D new), as_bytes_written = length new\<rparr>, w3)" "published w2 w3 out_path new"
    using created_delta_applies [OF c(4) [unfolded data] f refl refl disk_start(1,2) [OF assms(2,3) c(1)] assms(6-9) _ assms(10-15)]
    by blast
  then show ?thesis by (simp add: main_def run_def run_apply_command_def run_apply_def)
qed


section \<open>Creation succeeds where nothing fails\<close>

lemma signatures_path_complete:
  assumes "no_faults w" and "file_at w p bs"
    and "strong_hash_sound U D msg" and "strong_hash_total U msg live" and "DELTA_DIGEST_BYTES \<le> sh_size U"
  shows "generate_signatures_path nr (rk_alg rk_default) U p mode w = (Inr (True, signature_of D (rk_value rk_default) 48 mode bs), w)"
proof -
  obtain n where n: "node_at w p = Some n" "nd_kind n = Regular" "nd_data n = bs" using assms(2) by (auto simp: file_at_def)
  obtain f where f: "fio_open nr p IN fio_default w = (True, f, w)" "healthy f" "st_data (strm f) = bs" "fsize f = length bs"
    using fio_open_input_complete [OF assms(1) n(1,2), of nr] n(3) by auto
  obtain f' where "generate_signatures (rk_alg rk_default) U mode f =
      Inr (True, signature_of D (rk_value rk_default) 48 mode bs, f')"
    using shipped_total [OF assms(3-5) f(2), of mode] f(3,4) by auto
  then show ?thesis using f(1) by (simp add: generate_signatures_path_def)
qed

lemma signature_of_chunks: "sg_chunks (signature_of D (rk_value rk_default) 48 mode bs) = sign D bs"
  by (simp add: signature_of_def sign_def chunks_of_def)

lemma run_create_complete:
  assumes "output_ready w d [p, q]" and "file_at w p old" and "file_at w q new"
    and "length old \<le> STREAMOFF_MAX" and "length new \<le> STREAMOFF_MAX" and "sh_size U \<le> STREAMOFF_MAX"
    and "strong_hash_sound U D msg" and "strong_hash_total U msg live" and "DELTA_DIGEST_BYTES \<le> sh_size U"
  shows "\<exists>w'. run_create nr U ([], []) p q d w = (Inr (0, [], []), w')"
proof -
  have nf: "no_faults w" using assms(1) by (simp add: output_ready_def)
  let ?v = "w\<lparr>w_errs := [], w_plans := []\<rparr>"
  have v: "no_faults ?v" "file_at ?v p old" using assms(2) by (simp_all add: no_faults_def file_at_def node_at_def)
  note s = signatures_path_complete [OF v assms(7-9)] signatures_path_complete [OF nf assms(3) assms(7-9)]
  have len: "length (sg_whole (signature_of D (rk_value rk_default) 48 Compute new)) \<le> STREAMOFF_MAX"
    using assms(6) strong_hash_soundD(1) [OF assms(7)] by (simp add: signature_of_def)
  obtain stats w' where "generate_delta nr U (signature_of D (rk_value rk_default) 48 Skip old)
      (signature_of D (rk_value rk_default) 48 Compute new) p q d w = (Inr stats, w')"
    using generate_delta_succeeds [OF assms(1-3) _ _ _ _ assms(4,5) len assms(6-9),
        of "signature_of D (rk_value rk_default) 48 Skip old" nr]
      sign_tiling sign_matches_all [OF assms(7,9)] by (metis signature_of_chunks)
  then show ?thesis by (simp add: run_create_def s)
qed

text \<open>C37 \<open>roll create\<close> of two files the stream can address exits with 0 and prints nothing, where no device
  fails and the delta can be staged and published.\<close>

theorem create_command_succeeds:
  assumes "output_ready w delta_path [old_path, new_path]" and "file_at w old_path old" and "file_at w new_path new"
    and "length old \<le> STREAMOFF_MAX" and "length new \<le> STREAMOFF_MAX" and "sh_size U \<le> STREAMOFF_MAX"
    and "strong_hash_sound U D msg" and "strong_hash_total U msg live" and "DELTA_DIGEST_BYTES \<le> sh_size U"
  shows "\<exists>w'. main nr U version ([], []) [prog, ''create'', old_path, new_path, delta_path] w = ((0, [], []), w')"
proof -
  obtain w' where "run_create nr U ([], []) old_path new_path delta_path w = (Inr (0, [], []), w')"
    using run_create_complete [OF assms] by blast
  then show ?thesis by (simp add: main_def run_def)
qed

lemma sample_created_command:
  "\<exists>w1. run_create nr sample_hash ([], []) ''a'' ''b'' ''d'' sample_world = (Inr (0, [], []), w1)"
  by (rule run_create_complete [OF sample_ready(1) sample_files(1,2) _ _ record_alg_fields(1) record_alg_sound
        record_alg_total record_alg_fields(2)]) (simp_all add: STREAMOFF_MAX_def)

theorem create_command_succeeds_witness:
  "\<exists>w'. main True sample_hash ''1.0'' ([], []) [''roll'', ''create'', ''a'', ''b'', ''d''] sample_world = ((0, [], []), w')"
  by (rule create_command_succeeds [OF sample_ready(1) sample_files(1,2) _ _ record_alg_fields(1) record_alg_sound
        record_alg_total record_alg_fields(2)]) (simp_all add: STREAMOFF_MAX_def)

theorem command_line_roundtrip_witness:
  "\<exists>w1 d printed2 w3. main True sample_hash ''1.0'' ([], []) [''roll'', ''create'', ''a'', ''b'', ''d''] sample_world =
       ((0, [], []), w1) \<and> node_at w1 ''d'' = Some d \<and>
     main True sample_hash ''1.0'' ([], []) [''roll'', ''apply'', ''x'', ''y'', ''z'']
       (world_of [(''x'', [1]), (''y'', nd_data d)]) = ((0, printed2, []), w3) \<and>
     published (world_of [(''x'', [1]), (''y'', nd_data d)]) w3 ''z'' [2]"
proof -
  obtain w1 where c: "run_create True sample_hash ([], []) ''a'' ''b'' ''d'' sample_world = (Inr (0, [], []), w1)"
    using sample_created_command by blast
  have m: "main True sample_hash ''1.0'' ([], []) [''roll'', ''create'', ''a'', ''b'', ''d''] sample_world = ((0, [], []), w1)"
    by (simp add: main_def run_def c)
  have w: "wf_world sample_world" "\<forall>s \<in> set (w_slots sample_world). s = None"
    unfolding sample_world_def by (rule world_of_wf, rule world_of_slots)
  obtain v n k stats where g: "same_disk sample_world v" "node_at sample_world ''a'' = Some n" "node_at sample_world ''b'' = Some k"
    "generate_delta True sample_hash (signature_of record_digest (rk_value rk_default) 48 Skip (nd_data n))
       (signature_of record_digest (rk_value rk_default) 48 Compute (nd_data k)) ''a'' ''b'' ''d'' v = (Inr stats, w1)"
    by (rule run_create_success [OF c record_alg_sound])
  obtain n' m' es ps dig where "published v w1 ''d'' (encode_delta es dig)"
    by (rule generate_delta_publishes [OF g(4) record_alg_sound disk_start(1,2) [OF w g(1)]])
  then obtain d where d: "node_at w1 ''d'' = Some d" by (auto simp: published_def node_at_def)
  define w2 where "w2 = world_of [(''x'', [1]), (''y'', nd_data d)]"
  have f: "file_at w2 ''y'' (nd_data d)" "file_at w2 ''x'' [1]"
    by (simp_all add: file_at_def node_at_def w2_def world_of_def new_node_def upt_rec)
  have "output_ready w2 ''z'' [''x'', ''y'']"
    unfolding w2_def by (rule output_ready_world_of) (simp_all add: candidate_path_sample filename_def)
  then have "\<exists>printed2 w3. main True sample_hash ''1.0'' ([], []) [''roll'', ''apply'', ''x'', ''y'', ''z''] w2 =
      ((0, printed2, []), w3) \<and> published w2 w3 ''z'' [2]"
    by (rule command_line_roundtrip [OF m w sample_files(1,2) d f _ sample_separates _ _ record_alg_sound record_alg_total
          record_alg_fields(2)]) (simp_all add: STREAMOFF_MAX_def)
  with m d show ?thesis unfolding w2_def by blast
qed

end
