(* ===== verification/Clean_Runs.thy ===== *)
theory Clean_Runs imports Round_Trip begin

text \<open>
  What an operation leaves on a disk without faults, exactly: a transaction that fails is taken back
  without a trace, one that commits adds its output and nothing else.  The names of the disk are
  described completely, so no staged file is left behind.
\<close>

section \<open>Worlds before, during and after a transaction\<close>

definition settled :: "world \<Rightarrow> bool" where
  "settled w \<longleftrightarrow> no_faults w \<and> wf_world w \<and> (\<forall>s \<in> set (w_slots w). s = None)"

definition nodes_kept :: "world \<Rightarrow> world \<Rightarrow> bool" where
  "nodes_kept w0 w \<longleftrightarrow> (\<forall>i < w_next w0. w_nodes w i = w_nodes w0 i)"

text \<open>Nothing but new node numbers has been used.\<close>

definition restored :: "world \<Rightarrow> world \<Rightarrow> bool" where
  "restored w0 w \<longleftrightarrow> settled w \<and> w_names w = w_names w0 \<and> w_next w0 \<le> w_next w \<and> nodes_kept w0 w"

text \<open>The destination stands for a new regular file.\<close>

definition installed :: "world \<Rightarrow> world \<Rightarrow> path \<Rightarrow> bool" where
  "installed w0 w dest \<longleftrightarrow> settled w \<and> w_names w = (w_names w0)(dest \<mapsto> w_next w0) \<and> w_next w0 < w_next w \<and>
     nd_kind (w_nodes w (w_next w0)) = Regular \<and> nodes_kept w0 w"

definition slots_clear :: "transaction \<Rightarrow> world \<Rightarrow> bool" where
  "slots_clear tx w \<longleftrightarrow>
     (\<forall>s \<in> set (case tx_slot tx of None \<Rightarrow> w_slots w | Some i \<Rightarrow> (w_slots w)[i := None]). s = None)"

lemma slots_clear_simps [simp]:
  "slots_clear tx (w\<lparr>w_nodes := n\<rparr>) = slots_clear tx w" "slots_clear tx (w\<lparr>w_names := m\<rparr>) = slots_clear tx w"
  "slots_clear (tx\<lparr>tx_file := f\<rparr>) w = slots_clear tx w"
  by (simp_all add: slots_clear_def split: option.split)

lemma slots_clear_same: "w_slots w' = w_slots w \<Longrightarrow> slots_clear tx w' = slots_clear tx w"
  by (simp add: slots_clear_def split: option.split)

definition staging :: "world \<Rightarrow> transaction \<Rightarrow> world \<Rightarrow> bool" where
  "staging w0 tx w \<longleftrightarrow> no_faults w \<and> slots_clear tx w \<and> nodes_kept w0 w \<and>
     (if tx_temporary tx = [] then w_names w = w_names w0 \<and> w_next w = w_next w0 \<and> tx_slot tx = None
      else w_names w0 (tx_temporary tx) = None \<and> w_names w = (w_names w0)(tx_temporary tx \<mapsto> w_next w0) \<and>
        w_next w0 < w_next w \<and> nd_kind (w_nodes w (w_next w0)) = Regular)"

lemma staging_file [simp]: "staging w0 (tx\<lparr>tx_file := f\<rparr>) w = staging w0 tx w"
  by (simp add: staging_def)

lemma staging_start: "settled w \<Longrightarrow> staging w tx_new w"
  by (simp add: staging_def settled_def slots_clear_def nodes_kept_def tx_new_def)

lemma wf_world_update: "wf_world w0 \<Longrightarrow> w_names w = (w_names w0)(p \<mapsto> w_next w0) \<Longrightarrow> w_next w0 < w_next w \<Longrightarrow> wf_world w"
  by (fastforce simp: wf_world_def split: if_splits)

lemma wf_world_same: "wf_world w0 \<Longrightarrow> w_names w = w_names w0 \<Longrightarrow> w_next w0 \<le> w_next w \<Longrightarrow> wf_world w"
  by (fastforce simp: wf_world_def)

section \<open>Calls that change nothing\<close>

lemma fs_status_quiet: "no_faults w \<Longrightarrow> snd (fs_status p w) = w"
  by (simp add: fs_status_def no_faults_take split: option.splits)

lemma fs_exists_quiet: "no_faults w \<Longrightarrow> snd (fs_exists p w) = w"
  using fs_status_quiet [of w p] by (auto simp: fs_exists_def split: prod.splits fs_status.splits)

lemma fs_equivalent_quiet: "no_faults w \<Longrightarrow> snd (fs_equivalent p q w) = w"
  by (simp add: fs_equivalent_def no_faults_take split: option.splits)

lemma check_aliases_quiet: "no_faults w \<Longrightarrow> snd (check_aliases dest ins w) = w"
proof (induction ins)
  case (Cons a ins)
  then show ?case using fs_equivalent_quiet [of w dest a] by (auto split: prod.splits sum.splits bool.splits)
qed simp

lemma validateDestination_quiet: "no_faults w \<Longrightarrow> snd (validateDestination tx w) = w"
  using fs_status_quiet [of w "tx_destination tx"] check_aliases_quiet [of w "tx_destination tx" "tx_inputs tx"]
  by (auto simp: validateDestination_def split: prod.splits fs_status.splits)

lemma fs_is_regular_quiet: "no_faults w \<Longrightarrow> snd (fs_is_regular_file p w) = w"
  using fs_status_quiet [of w p] by (auto simp: fs_is_regular_file_def split: prod.splits fs_status.splits file_kind.splits)

lemma fs_file_size_quiet: "no_faults w \<Longrightarrow> snd (fs_file_size p w) = w"
  by (simp add: fs_file_size_def no_faults_take split: option.splits)

lemma stream_open_input_quiet: "no_faults w \<Longrightarrow> snd (stream_open p IN excl w) = w"
  by (simp add: stream_open_def no_faults_take split: option.splits)

lemma fio_open_input_quiet:
  assumes "no_faults w" and "fio_open nr p IN f w = (ok, g, w')"
  shows "w' = w"
proof -
  obtain reg where r: "fs_is_regular_file p w = (reg, w)"
    using fs_is_regular_quiet [OF assms(1), of p] by (cases "fs_is_regular_file p w") auto
  obtain s where s: "stream_open p IN False w = (s, w)"
    using stream_open_input_quiet [OF assms(1), of p False] by (cases "stream_open p IN False w") auto
  obtain sz where z: "fs_file_size p w = (sz, w)"
    using fs_file_size_quiet [OF assms(1), of p] by (cases "fs_file_size p w") auto
  show ?thesis
    using assms(2) r s z
    by (cases sz) (auto simp: fio_open_def fio_open_stream_def Let_def readable_mode_def split: if_splits)
qed

lemma fio_open_exclusive_quiet:
  assumes "no_faults w" and "fio_open nr p EXCLUSIVE_OUT f w = (ok, g, w')"
  shows "w' = (if ok then create_name p w else w)" and "ok \<longleftrightarrow> w_names w p = None"
proof -
  have k: "nd_kind new_node = Regular" by (simp add: new_node_def)
  have c: "(create_name p w)\<lparr>w_nodes := (w_nodes (create_name p w))(w_next w := new_node\<lparr>nd_data := []\<rparr>)\<rparr> = create_name p w"
    by (simp add: create_name_def new_node_def)
  show "w' = (if ok then create_name p w else w)" and "ok \<longleftrightarrow> w_names w p = None"
    using assms k c
    by (auto simp: fio_open_def fio_open_stream_def Let_def readable_mode_def create_exclusively_def store_data_def
        no_faults_take stream_open_def fs_file_size_def node_at_def opened_stream_def failed_stream_def closed_stream_def
        discard_read_buffer_def st_good_def create_name_def new_node_def split: if_splits option.splits)
qed

section \<open>Opening a transaction\<close>

lemma free_slot_update: "free_slot ss = Some i \<Longrightarrow> i < length ss \<and> ss ! i = None"
proof (induction ss arbitrary: i)
  case (Cons s ss)
  from Cons.prems show ?case by (rule free_slot_SomeE) (use Cons.IH in \<open>auto simp: eq_commute [of "Some i"]\<close>)
qed simp

lemma tx_track_clear:
  assumes "tx_track tx w = (tx', w')" and "\<forall>s \<in> set (w_slots w). s = None" and "tx_slot tx = None"
  shows "slots_clear tx' w'"
proof (cases "free_slot (w_slots w)")
  case None
  then show ?thesis using assms by (simp add: tx_track_def slots_clear_def)
next
  case (Some i)
  then have "(w_slots w)[i := None] = w_slots w" using free_slot_update [OF Some] by (metis list_update_id)
  then show ?thesis using assms Some by (auto simp: tx_track_def slots_clear_def)
qed

lemma staging_permissions:
  assumes "staging w0 tx w" and "tx_temporary tx \<noteq> []" and "copyPermissions tx w = (r, w')"
  shows "staging w0 tx w'"
proof -
  have nf: "no_faults w" and k: "w_names w (tx_temporary tx) = Some (w_next w0)"
    using assms(1,2) by (simp_all add: staging_def)
  obtain n where "copyPermissions tx w = (Inr (), w\<lparr>w_nodes := (w_nodes w)(w_next w0 := (w_nodes w (w_next w0))\<lparr>nd_perms := n\<rparr>)\<rparr>)"
    using copyPermissions_complete [OF nf k] by blast
  then have "w' = w\<lparr>w_nodes := (w_nodes w)(w_next w0 := (w_nodes w (w_next w0))\<lparr>nd_perms := n\<rparr>)\<rparr>" using assms(3) by simp
  then show ?thesis using assms(1,2) by (simp add: staging_def nodes_kept_def)
qed

lemma staging_attempts:
  assumes "tx_attempts nr n tx w = (r, tx', w')" and "staging w0 tx w" and "tx_temporary tx = []"
  shows "staging w0 tx' w' \<and> tx_destination tx' = tx_destination tx"
  using assms
proof (induction n arbitrary: tx w)
  case (Suc n)
  obtain c w1 where c: "candidate_path (tx_destination tx) w = (c, w1)" by fastforce
  note ck = candidate_path_kept [OF c]
  have w1: "w_names w1 = w_names w" "w_nodes w1 = w_nodes w" "w_next w1 = w_next w" "w_slots w1 = w_slots w" "no_faults w1 = no_faults w"
    using c by (auto simp: candidate_path_def Let_def take_random_def no_faults_def split: list.splits)
  have s1: "staging w0 tx w1" using Suc.prems(2) w1 slots_clear_same [of w1 w tx] by (simp add: staging_def nodes_kept_def)
  then have nf1: "no_faults w1" by (simp add: staging_def)
  obtain ok f w2 where o: "fio_open nr c EXCLUSIVE_OUT (tx_file tx) w1 = (ok, f, w2)"
    by (cases "fio_open nr c EXCLUSIVE_OUT (tx_file tx) w1") auto
  note fo = fio_open_exclusive_quiet [OF nf1 o]
  show ?case
  proof (cases ok)
    case True
    have cne: "c \<noteq> []" using c by (auto simp: candidate_path_def Let_def path_append_def split: prod.splits if_splits)
    obtain tx1 w3 where t: "tx_track (tx\<lparr>tx_file := f, tx_temporary := c\<rparr>) w2 = (tx1, w3)" by fastforce
    obtain x w4 where p: "copyPermissions tx1 w3 = (x, w4)" by fastforce
    have res: "r = x" "tx' = tx1" "w' = w4" using Suc.prems(1) c o True t p by simp_all
    have tx1: "tx_temporary tx1 = c" "tx_destination tx1 = tx_destination tx"
      and w3: "w_names w3 = w_names w2" "w_nodes w3 = w_nodes w2" "w_next w3 = w_next w2" "no_faults w3 = no_faults w2"
      using t by (auto simp: tx_track_def split: option.splits)
    have sl: "\<forall>s \<in> set (w_slots w2). s = None" "tx_slot tx = None"
      using s1 Suc.prems(3) fo(1) True by (auto simp: staging_def slots_clear_def)
    then have "slots_clear tx1 w3" using tx_track_clear [OF t] by simp
    then have "staging w0 tx1 w3"
      using s1 fo True Suc.prems(3) tx1 w3 cne
      by (auto simp: staging_def nodes_kept_def create_name_def new_node_def)
    then show ?thesis using staging_permissions [OF _ _ p] res tx1 cne by simp
  next
    case False
    obtain e w3 where x: "fs_exists c w2 = (e, w3)" by fastforce
    have w3: "w3 = w1" using fs_exists_quiet [of w1 c] x fo(1) False nf1 by simp
    show ?thesis
      using Suc.prems c o False x w3 s1 Suc.IH [of "tx\<lparr>tx_file := f\<rparr>" w3] by (auto split: if_splits)
  qed
qed auto

lemma staging_open:
  assumes "tx_open nr dest ins tx_new w = (r, tx, w')" and "settled w"
  shows "staging w tx w' \<and> (r = Inr u \<longrightarrow> tx_destination tx = dest)"
proof -
  let ?tx = "tx_new\<lparr>tx_destination := dest, tx_inputs := ins\<rparr>"
  have s: "staging w ?tx w" "tx_temporary ?tx = []"
    using staging_start [OF assms(2)] by (simp_all add: staging_def slots_clear_def tx_new_def)
  have q: "snd (validateDestination ?tx w) = w" using assms(2) by (intro validateDestination_quiet) (simp add: settled_def)
  show ?thesis
    using assms(1) s q staging_attempts [of nr 32 ?tx w r tx w' w]
    by (cases "validateDestination ?tx w") (auto simp: tx_open_def Let_def tx_new_def split: if_splits sum.splits)
qed

section \<open>Commit and destruction\<close>

lemma staging_close:
  assumes "close_staged tx w = (ok, tx', w')" and "staging w0 tx w"
  shows "staging w0 tx' w'" and "tx_temporary tx' = tx_temporary tx" and "tx_slot tx' = tx_slot tx"
    and "tx_destination tx' = tx_destination tx"
proof -
  obtain b f where f: "fio_close (tx_file tx) = (b, f)" by fastforce
  have "staging w0 tx (store_data (tx_temporary tx) bs w)" if "tx_temporary tx \<noteq> []" for bs
    using assms(2) that by (auto simp: staging_def nodes_kept_def store_data_def)
  then show "staging w0 tx' w'" and "tx_temporary tx' = tx_temporary tx" and "tx_slot tx' = tx_slot tx"
    and "tx_destination tx' = tx_destination tx"
    using assms f by (auto simp: close_staged_def)
qed

lemma tx_untrack_clear:
  assumes "tx_untrack tx w = (tx', w')" and "slots_clear tx w"
  shows "\<forall>s \<in> set (w_slots w'). s = None" and "tx' = tx\<lparr>tx_slot := None\<rparr>" and "w_names w' = w_names w"
    and "w_nodes w' = w_nodes w" and "w_next w' = w_next w" and "no_faults w' = no_faults w"
  using assms by (auto simp: tx_untrack_def slots_clear_def split: option.splits)

lemma staging_destroy:
  assumes "tx_destroy tx w = (tx', w')" and "staging w0 tx w" and "wf_world w0"
  shows "restored w0 w'"
proof -
  obtain ok tx1 w1 where c: "close_staged tx w = (ok, tx1, w1)" by (cases "close_staged tx w") auto
  note cs = staging_close [OF c assms(2)]
  define w2 where "w2 = (if tx_temporary tx1 \<noteq> [] then fs_remove (tx_temporary tx1) w1 else w1)"
  have nf: "no_faults w1" using cs(1) by (simp add: staging_def)
  have w2: "w_names w2 = w_names w0" "w_nodes w2 = w_nodes w1" "w_next w2 = w_next w1" "no_faults w2" "w_slots w2 = w_slots w1"
    using cs(1) nf by (auto simp: w2_def staging_def fs_remove_def no_faults_take)
  have "slots_clear tx1 w2" using cs(1) slots_clear_same [OF w2(5)] by (simp add: staging_def)
  note un = tx_untrack_clear [OF _ this]
  have "w_next w0 \<le> w_next w1" "nodes_kept w0 w1" using cs(1) by (auto simp: staging_def split: if_splits)
  then show ?thesis
    using assms(1,3) c un [of tx' w'] w2 wf_world_same [of w0 w']
    by (simp add: tx_destroy_def w2_def [symmetric] restored_def settled_def nodes_kept_def)
qed

lemma sync_file_quiet:
  assumes "no_faults w" and "sync_file p w = (ok, w')"
  shows "w_names w' = w_names w" and "w_nodes w' = w_nodes w" and "w_next w' = w_next w" and "w_slots w' = w_slots w" and "no_faults w'"
  using assms by (auto simp: sync_file_def Let_def no_faults_take split: if_splits option.splits)

lemma sync_directory_quiet: "no_faults w \<Longrightarrow> sync_directory dir w = w"
  by (simp add: sync_directory_def no_faults_take)

lemma staging_commit:
  assumes "tx_commit tx w = (r, tx', w')" and "staging w0 tx w" and "wf_world w0"
  shows "r = Inl e \<Longrightarrow> staging w0 tx' w'"
    and "r = Inr u \<Longrightarrow> installed w0 w' (tx_destination tx) \<and> tx_temporary tx' = [] \<and> tx_slot tx' = None"
proof -
  have "(\<forall>e. r = Inl e \<longrightarrow> staging w0 tx' w') \<and>
      (\<forall>u. r = Inr u \<longrightarrow> installed w0 w' (tx_destination tx) \<and> tx_temporary tx' = [] \<and> tx_slot tx' = None)"
  proof (cases "tx_temporary tx = []")
    case True
    then show ?thesis using assms(1,2) by (auto simp: tx_commit_def)
  next
    case False
    obtain ok tx1 w1 where c: "close_staged tx w = (ok, tx1, w1)" by (cases "close_staged tx w") auto
    note cs = staging_close [OF c assms(2)]
    have t1: "tx_temporary tx1 \<noteq> []" using False cs(2) by simp
    obtain fl w2 where f: "(if ok \<and> \<not> has_error (tx_file tx1) then sync_file (tx_temporary tx1) w1 else (False, w1)) = (fl, w2)"
      by fastforce
    have nf1: "no_faults w1" using cs(1) by (simp add: staging_def)
    have w2: "w_names w2 = w_names w1" "w_nodes w2 = w_nodes w1" "w_next w2 = w_next w1" "w_slots w2 = w_slots w1" "no_faults w2"
      using f sync_file_quiet [OF nf1] nf1 by (auto split: if_splits)
    have s2: "staging w0 tx1 w2" using cs(1) w2 slots_clear_same [OF w2(4)] by (simp add: staging_def nodes_kept_def)
    obtain x w3 where v: "validateDestination tx1 w2 = (x, w3)" by fastforce
    have w3: "w3 = w2" using validateDestination_quiet [OF w2(5), of tx1] v by simp
    obtain y w4 where rn: "fs_rename (tx_temporary tx1) (tx_destination tx1) w2 = (y, w4)" by fastforce
    obtain tx2 w5 where un: "tx_untrack tx1 w4 = (tx2, w5)" by fastforce
    have bad: "y = Some m \<Longrightarrow> w4 = w2" for m
      using rn by (auto simp: fs_rename_def no_faults_take [OF w2(5)] split: option.splits if_splits)
    have good: "installed w0 w5 (tx_destination tx) \<and> tx_slot tx2 = None" if "y = None"
    proof -
      have n: "w_names w0 (tx_temporary tx1) = None" "w_names w2 = (w_names w0)(tx_temporary tx1 \<mapsto> w_next w0)"
        using s2 t1 by (simp_all add: staging_def)
      have w4: "w_names w4 = (w_names w0)(tx_destination tx1 \<mapsto> w_next w0)" "w_nodes w4 = w_nodes w2" "w_next w4 = w_next w2"
          "w_slots w4 = w_slots w2" "no_faults w4"
        using rn that n by (auto simp: fs_rename_def no_faults_take [OF w2(5)] w2(5) fun_upd_idem split: option.splits if_splits)
      have "slots_clear tx1 w4" using s2 slots_clear_same [OF w4(4)] by (simp add: staging_def)
      note u = tx_untrack_clear [OF un this]
      have k: "w_next w0 < w_next w2" "nd_kind (w_nodes w2 (w_next w0)) = Regular" "nodes_kept w0 w2"
        using s2 t1 by (simp_all add: staging_def)
      then have "wf_world w5" using wf_world_update [OF assms(3), of w5 "tx_destination tx1"] u w4 by simp
      then show ?thesis using u w4 k cs(4) by (simp add: installed_def settled_def nodes_kept_def)
    qed
    have sd: "sync_directory (parent_path (tx_destination tx2)) w5 = w5" if "y = None"
      using good [OF that] by (intro sync_directory_quiet) (simp add: installed_def settled_def)
    show ?thesis
      using assms(1) False c f v w3 rn un bad good s2 sd
      by (auto simp: tx_commit_def Let_def split: if_splits sum.splits option.splits)
  qed
  then show "r = Inl e \<Longrightarrow> staging w0 tx' w'"
    and "r = Inr u \<Longrightarrow> installed w0 w' (tx_destination tx) \<and> tx_temporary tx' = [] \<and> tx_slot tx' = None" by blast+
qed

lemma installed_destroy:
  assumes "tx_destroy tx w = (tx', w')" and "tx_temporary tx = []" and "tx_slot tx = None"
  shows "w' = w"
  using assms by (auto simp: tx_destroy_def close_staged_def tx_untrack_def split: prod.splits)

section \<open>The two operations\<close>

text \<open>What holds after the part of an operation that follows the opening of its output: the transaction is
  still staged, or it has been committed and the destructor has nothing to do.\<close>

definition concluded :: "world \<Rightarrow> path \<Rightarrow> bool \<Rightarrow> transaction \<Rightarrow> world \<Rightarrow> bool" where
  "concluded w0 dest ok tx w \<longleftrightarrow>
     (if ok then installed w0 w dest \<and> tx_temporary tx = [] \<and> tx_slot tx = None else staging w0 tx w)"

lemma concluded_destroy:
  assumes "concluded w0 dest ok tx w" and "wf_world w0"
  shows "if ok then installed w0 (snd (tx_destroy tx w)) dest else restored w0 (snd (tx_destroy tx w))"
  using assms staging_destroy [of tx w _ _ w0] installed_destroy [of tx w]
  by (cases "tx_destroy tx w") (auto simp: concluded_def)

lemma concluded_commit:
  assumes "tx_commit (tx\<lparr>tx_file := f\<rparr>) w = (r, tx', w')" and "staging w0 tx w" and "wf_world w0"
  shows "concluded w0 (tx_destination tx) (\<exists>u. r = Inr u) tx' w'"
  using staging_commit [OF assms(1) _ assms(3)] assms(2) by (cases r) (auto simp: concluded_def)

lemma apply_opened_concluded:
  assumes "apply_opened T U p m f d tx w = (r, tx', w')" and "staging w0 tx w" and "wf_world w0"
  shows "concluded w0 (tx_destination tx) (\<exists>u. r = Inr u) tx' w'"
proof -
  have st: "concluded w0 (tx_destination tx) False (tx\<lparr>tx_file := g\<rparr>) w" "concluded w0 (tx_destination tx) False tx w" for g
    using assms(2) by (simp_all add: concluded_def)
  show ?thesis
    using assms(1) st concluded_commit [OF _ assms(2,3)]
    by (fastforce simp: apply_opened_def Let_def split: sum.splits prod.splits bool.splits if_splits)
qed

lemma generate_opened_concluded:
  assumes "generate_opened U og nf f d tx w = (r, tx', w')" and "staging w0 tx w" and "wf_world w0"
  shows "concluded w0 (tx_destination tx) (\<exists>u. r = Inr u) tx' w'"
proof -
  have st: "concluded w0 (tx_destination tx) False (tx\<lparr>tx_file := g\<rparr>) w" "concluded w0 (tx_destination tx) False tx w" for g
    using assms(2) by (simp_all add: concluded_def)
  show ?thesis
    using assms(1) st concluded_commit [OF _ assms(2,3)]
    by (fastforce simp: generate_opened_def Let_def split: sum.splits prod.splits bool.splits if_splits)
qed

lemma restored_refl: "settled w \<Longrightarrow> restored w w"
  by (simp add: restored_def nodes_kept_def)

lemma staging_destroyed: "staging w0 tx w \<Longrightarrow> wf_world w0 \<Longrightarrow> restored w0 (snd (tx_destroy tx w))"
  using staging_destroy by (cases "tx_destroy tx w") simp

lemma apply_delta_settled:
  assumes "apply_delta nr T U p q out_path m w = (r, w')" and "settled w"
  shows "if \<exists>u. r = Inr u then installed w w' out_path else restored w w'"
proof -
  have wf: "wf_world w" and nf: "no_faults w" using assms(2) by (simp_all add: settled_def)
  obtain ok1 f w1 where o1: "fio_open nr p IN fio_default w = (ok1, f, w1)" by (cases "fio_open nr p IN fio_default w") auto
  have w1: "w1 = w" by (rule fio_open_input_quiet [OF nf o1])
  obtain ok2 g w2 where o2: "fio_open nr q IN fio_default w = (ok2, g, w2)" by (cases "fio_open nr q IN fio_default w") auto
  have w2: "w2 = w" by (rule fio_open_input_quiet [OF nf o2])
  obtain x tx w3 where o3: "tx_open nr out_path [p, q] tx_new w = (x, tx, w3)" by (cases "tx_open nr out_path [p, q] tx_new w") auto
  note st = staging_open [OF o3 assms(2)]
  obtain y tx1 w4 where o4: "apply_opened T U p m f g tx w3 = (y, tx1, w4)" by (cases "apply_opened T U p m f g tx w3") auto
  have c: "if \<exists>u. y = Inr u then installed w (snd (tx_destroy tx1 w4)) out_path else restored w (snd (tx_destroy tx1 w4))"
    if "x = Inr ()"
    using concluded_destroy [OF apply_opened_concluded [OF o4 _ wf] wf] st that by auto
  have "if \<exists>u. z = Inr u then installed w v out_path else restored w v"
    if "apply_delta_impl nr T U p q out_path m w = (z, v)" for z v
    using that o1 o2 o3 o4 w1 w2 c restored_refl [OF assms(2)] staging_destroyed [OF conjunct1 [OF st] wf]
    by (auto simp: apply_delta_impl_def split: if_splits sum.splits)
  then show ?thesis
    using assms(1) by (cases "apply_delta_impl nr T U p q out_path m w") (fastforce simp: apply_delta_def split: sum.splits failure.splits)
qed

lemma generate_delta_settled:
  assumes "generate_delta nr U og nf p q delta_path w = (r, w')" and "settled w"
  shows "if \<exists>u. r = Inr u then installed w w' delta_path else restored w w'"
proof -
  have wf: "wf_world w" and nf: "no_faults w" using assms(2) by (simp_all add: settled_def)
  obtain ok1 f w1 where o1: "fio_open nr p IN fio_default w = (ok1, f, w1)" by (cases "fio_open nr p IN fio_default w") auto
  have w1: "w1 = w" by (rule fio_open_input_quiet [OF nf o1])
  obtain ok2 g w2 where o2: "fio_open nr q IN fio_default w = (ok2, g, w2)" by (cases "fio_open nr q IN fio_default w") auto
  have w2: "w2 = w" by (rule fio_open_input_quiet [OF nf o2])
  obtain x tx w3 where o3: "tx_open nr delta_path [p, q] tx_new w = (x, tx, w3)" by (cases "tx_open nr delta_path [p, q] tx_new w") auto
  note st = staging_open [OF o3 assms(2)]
  obtain y tx1 w4 where o4: "generate_opened U og nf f g tx w3 = (y, tx1, w4)" by (cases "generate_opened U og nf f g tx w3") auto
  have c: "if \<exists>u. y = Inr u then installed w (snd (tx_destroy tx1 w4)) delta_path else restored w (snd (tx_destroy tx1 w4))"
    if "x = Inr ()"
    using concluded_destroy [OF generate_opened_concluded [OF o4 _ wf] wf] st that by auto
  have "if \<exists>u. z = Inr u then installed w v delta_path else restored w v"
    if "generateImpl nr U og nf p q delta_path w = (z, v)" for z v
    using that o1 o2 o3 o4 w1 w2 c restored_refl [OF assms(2)] staging_destroyed [OF conjunct1 [OF st] wf]
    by (auto simp: generateImpl_def openFiles_def split: if_splits sum.splits)
  then show ?thesis
    using assms(1) by (cases "generateImpl nr U og nf p q delta_path w") (fastforce simp: generate_delta_def split: sum.splits failure.splits)
qed

text \<open>C7 On a disk without faults no operation leaves a staged file behind: one that fails leaves exactly the
  names there were, one that succeeds adds or replaces the name of its output alone; every file that
  existed keeps its contents, and no slot of the signal handler stays in use.\<close>

theorem operations_leave_no_trace:
  assumes "settled w" and "generate_delta nr U og nf p q dest w = (r, w1)" and "apply_delta nr T V p q dest m w = (s, w2)"
  shows "(if \<exists>u. r = Inr u then installed w w1 dest else restored w w1) \<and>
    (if \<exists>u. s = Inr u then installed w w2 dest else restored w w2)"
  using generate_delta_settled [OF assms(2,1)] apply_delta_settled [OF assms(3,1)] by blast

lemma settled_world_of: "settled (world_of fs)"
  unfolding settled_def using world_of_wf world_of_slots no_faults_world_of by blast

theorem operations_leave_no_trace_witness:
  "\<exists>stats w1 s w2. generate_delta True sample_hash (sample_signature [1]) (sample_signature [2]) ''a'' ''b'' ''d'' sample_world =
       (Inr stats, w1) \<and> w_names w1 = (w_names sample_world)(''d'' \<mapsto> 2) \<and>
     apply_delta True (rk_alg rk_default) sample_hash ''a'' ''b'' ''d'' 9 sample_world = (s, w2) \<and>
     (w_names w2 = w_names sample_world \<or> w_names w2 = (w_names sample_world)(''d'' \<mapsto> 2))"
proof -
  obtain stats w1 where g: "generate_delta True sample_hash (sample_signature [1]) (sample_signature [2]) ''a'' ''b'' ''d''
      sample_world = (Inr stats, w1)" using sample_created by blast
  obtain s w2 where a: "apply_delta True (rk_alg rk_default) sample_hash ''a'' ''b'' ''d'' 9 sample_world = (s, w2)" by fastforce
  have "settled sample_world" unfolding sample_world_def by (rule settled_world_of)
  moreover have "w_next sample_world = 2" by (simp add: sample_world_def world_of_def)
  ultimately show ?thesis
    using operations_leave_no_trace [OF _ g a] g a by (auto simp: installed_def restored_def split: if_splits)
qed

end
