(* ===== verification/Fuzz_Workspace.thy ===== *)
theory Fuzz_Workspace imports Clean_Runs Cli_Main begin

text \<open>
  The scratch directory of the fuzz targets (\<^verbatim>\<open>src/fuzz/FuzzWorkspace.hpp\<close>) and their seed data
  (\<^verbatim>\<open>src/fuzz/SeedData.hpp\<close>).  On a disk without faults the files of a workspace behave like a map from
  names to bytes; the locale \<open>scratch_files\<close> states that contract.
\<close>

section \<open>Directories\<close>

text \<open>The overload of \<open>create_directory\<close> that throws: the flag tells whether it was created.\<close>

definition fs_create_directory :: "path \<Rightarrow> world \<Rightarrow> (string + bool) \<times> world" where
  "fs_create_directory p w =
     (case take_fault w of
        (Some msg, w1) \<Rightarrow> (Inl msg, w1)
      | (None, w1) \<Rightarrow>
          (case node_at w1 p of
             None \<Rightarrow> (Inr True, w1\<lparr>w_names := (w_names w1)(p \<mapsto> w_next w1),
                                    w_nodes := (w_nodes w1)(w_next w1 := new_node\<lparr>nd_kind := Directory\<rparr>),
                                    w_next := Suc (w_next w1)\<rparr>)
           | Some n \<Rightarrow> (if nd_kind n = Directory then Inr False else Inl ''File exists'', w1)))"

fun workspace_attempts :: "nat \<Rightarrow> path \<Rightarrow> world \<Rightarrow> (string + path) \<times> world" where
  "workspace_attempts 0 tmp w = (Inl ''Cannot create fuzz workspace'', w)"
| "workspace_attempts (Suc n) tmp w =
     (let (r1, w1) = take_random w; (r2, w2) = take_random w1;
          candidate = path_append tmp (''rh_fuzz_'' @ to_dec r1 @ ''_'' @ to_dec r2)
      in case fs_create_directory candidate w2 of
           (Inl msg, w3) \<Rightarrow> (Inl msg, w3)
         | (Inr True, w3) \<Rightarrow> (Inr candidate, w3)
         | (Inr False, w3) \<Rightarrow> workspace_attempts n tmp w3)"

text \<open>The constructor; \<open>tmp\<close> is the system's directory for temporary files.\<close>

definition workspace_new :: "path \<Rightarrow> world \<Rightarrow> (string + path) \<times> world" where
  "workspace_new tmp w = workspace_attempts 32 tmp w"

definition workspace_path :: "path \<Rightarrow> string \<Rightarrow> path" where
  "workspace_path root name = path_append root name"

section \<open>Running one step after another\<close>

definition and_run :: "('e, 'a, 's) outcome \<Rightarrow> ('a \<Rightarrow> 's \<Rightarrow> ('e, 'b, 's) outcome) \<Rightarrow> ('e, 'b, 's) outcome" where
  "and_run r k = (case r of (Inl e, s) \<Rightarrow> (Inl e, s) | (Inr x, s) \<Rightarrow> k x s)"

lemma and_run_Inr [simp]: "and_run (Inr x, s) k = k x s"
  by (simp add: and_run_def)

section \<open>Files\<close>

definition IOSTREAM_ERROR :: string where
  "IOSTREAM_ERROR = ''basic_ios::clear: iostream error''"

text \<open>A stream whose bits \<open>badbit\<close> and \<open>failbit\<close> throw.  When it goes out of scope, what was written
  before the exception has reached the file.\<close>

definition ws_write :: "path \<Rightarrow> bytes \<Rightarrow> world \<Rightarrow> (string + unit) \<times> world" where
  "ws_write p bs w =
     (case stream_open p OUT False w of (s, w1) \<Rightarrow>
        if st_failed s then (Inl IOSTREAM_ERROR, w1)
        else let s1 = (if bs \<noteq> [] then st_write bs s else s);
                 w2 = store_data p (st_data s1) w1
          in (if st_failed s1 \<or> st_failed (st_close s1) then Inl IOSTREAM_ERROR else Inr (), w2))"

definition ws_read :: "path \<Rightarrow> world \<Rightarrow> (string + bytes) \<times> world" where
  "ws_read p w =
     (case stream_open p IN False w of (s, w1) \<Rightarrow>
        let s1 = (if st_failed s then s else st_seek (length (st_data s)) s) in
        if st_failed s1 then (Inl IOSTREAM_ERROR, w1)
        else let n = st_pos s1 in
          if n = 0 then (Inr [], w1)
          else let s2 = st_seek 0 s1 in
            if st_failed s2 then (Inl IOSTREAM_ERROR, w1)
            else let (buf, s3) = st_read n s2 in
              if st_failed s3 then (Inl IOSTREAM_ERROR, w1) else (Inr buf, w1))"

definition ws_exists :: "path \<Rightarrow> world \<Rightarrow> (string + bool) \<times> world" where
  "ws_exists p w =
     (case fs_status p w of
        (St_error msg, w1) \<Rightarrow> (Inl msg, w1)
      | (St_missing, w1) \<Rightarrow> (Inr False, w1)
      | (St_found _ _, w1) \<Rightarrow> (Inr True, w1))"

text \<open>Removing a file that does not exist is no error.\<close>

definition ws_remove :: "path \<Rightarrow> world \<Rightarrow> (string + unit) \<times> world" where
  "ws_remove p w =
     (case take_fault w of
        (Some msg, w1) \<Rightarrow> (if msg = ENOENT then Inr () else Inl msg, w1)
      | (None, w1) \<Rightarrow> (Inr (), w1\<lparr>w_names := (w_names w1)(p := None)\<rparr>))"

section \<open>Seed data\<close>

definition seed_step :: "nat \<Rightarrow> u32 \<Rightarrow> byte \<times> u32" where
  "seed_step i state =
     (let state1 = state * 1103515245 + 12345
      in (ucast ((ucast (drop_bit 16 state1) :: u64) XOR (of_nat i AND 0x3F)), state1))"

fun seed_loop :: "nat \<Rightarrow> nat \<Rightarrow> u32 \<Rightarrow> bytes" where
  "seed_loop 0 i state = []"
| "seed_loop (Suc n) i state = (case seed_step i state of (b, state1) \<Rightarrow> b # seed_loop n (Suc i) state1)"

definition make_old_content :: bytes where
  "make_old_content = seed_loop (48 * 1024) 0 0x1234567"

lemma length_seed_loop [simp]: "length (seed_loop n i st) = n"
  by (induction n arbitrary: i st) (auto split: prod.split)

lemma length_make_old_content [simp]: "length make_old_content = 49152"
  by (simp add: make_old_content_def)

section \<open>Names that are no staged files\<close>

definition staged_name :: "path \<Rightarrow> bool" where
  "staged_name p \<longleftrightarrow> (\<exists>dir r1 r2 k.
     p = path_append dir (''.rolling_hash-'' @ to_dec r1 @ ''-'' @ to_dec r2 @ ''-'' @ to_dec k))"

lemma candidate_staged: "staged_name (fst (candidate_path dest w))"
  unfolding staged_name_def candidate_path_def by (auto simp: Let_def split: prod.splits)

lemma to_dec_last: "to_dec n \<noteq> [] \<and> is_digit (last (to_dec n))"
proof (induction n rule: to_dec.induct)
  case (1 n)
  have d: "is_digit (char_of (48 + m))" if "m < 10" for m :: nat
    using that by (simp add: is_digit_def of_char_of)
  show ?case using 1 d [of n] d [of "n mod 10"] by (subst (1 2) to_dec.simps) simp
qed

lemma path_append_last: "name \<noteq> [] \<Longrightarrow> last (path_append dir name) = last name"
  by (simp add: path_append_def)

lemma staged_name_last:
  assumes "staged_name p"
  shows "is_digit (last p)"
proof -
  obtain dir r1 r2 k where p: "p = path_append dir ((''.rolling_hash-'' @ to_dec r1 @ ''-'' @ to_dec r2 @ ''-'') @ to_dec k)"
    using assms unfolding staged_name_def by auto
  show ?thesis unfolding p using to_dec_last [of k] by (subst path_append_last) (simp_all add: last_append)
qed

lemma path_append_split: "\<exists>pre. \<forall>name. path_append dir name = pre @ name \<and> (pre = [] \<or> last pre = CHR ''/'')"
  by (rule exI [of _ "if dir = [] then [] else if last dir = CHR ''/'' then dir else dir @ ''/''"]) (simp add: path_append_def)

lemma filename_append: "CHR ''/'' \<notin> set name \<Longrightarrow> filename (path_append dir name) = name"
proof -
  assume n: "CHR ''/'' \<notin> set name"
  obtain pre where p: "path_append dir name = pre @ name" "pre = [] \<or> last pre = CHR ''/''" using path_append_split by blast
  have "takeWhile (\<lambda>c. c \<noteq> CHR ''/'') (rev name @ rev pre) = rev name"
  proof (cases "pre = []")
    case False
    then have "hd (rev pre) = CHR ''/''" using p(2) by (simp add: hd_rev)
    then obtain r where "rev pre = CHR ''/'' # r" using False by (cases "rev pre") auto
    then show ?thesis using n by (subst takeWhile_append2) auto
  qed (use n in \<open>auto simp: takeWhile_eq_all_conv\<close>)
  then show ?thesis by (simp add: filename_def p)
qed

lemma path_append_inj: "path_append dir a = path_append dir b \<longleftrightarrow> a = b"
  by (simp add: path_append_def)

section \<open>A workspace that is ready for use\<close>

definition reaches :: "('e, 'a, 's) outcome \<Rightarrow> ('a \<Rightarrow> 's \<Rightarrow> bool) \<Rightarrow> bool" where
  "reaches m Q \<longleftrightarrow> (\<exists>x s. m = (Inr x, s) \<and> Q x s)"

lemma reaches_simps [simp]: "reaches (Inr x, s) Q = Q x s" "reaches (Inl e, s) Q = False"
  by (simp_all add: reaches_def)

lemma reaches_mono: "reaches m Q \<Longrightarrow> (\<And>x s. Q x s \<Longrightarrow> R x s) \<Longrightarrow> reaches m R"
  by (auto simp: reaches_def)

definition content :: "world \<Rightarrow> path \<Rightarrow> bytes option" where
  "content w p = map_option nd_data (node_at w p)"

text \<open>No device fails, no staged file is around, and each of the names is free or stands for a regular
  file that has no other name.\<close>

definition own_file :: "world \<Rightarrow> path \<Rightarrow> bool" where
  "own_file w p \<longleftrightarrow> (\<forall>i. w_names w p = Some i \<longrightarrow> nd_kind (w_nodes w i) = Regular \<and> (\<forall>q. w_names w q = Some i \<longrightarrow> q = p))"

definition fuzz_ready :: "path set \<Rightarrow> world \<Rightarrow> bool" where
  "fuzz_ready ps w \<longleftrightarrow> settled w \<and> (\<forall>p. staged_name p \<longrightarrow> w_names w p = None) \<and>
     (\<forall>p \<in> ps. \<not> staged_name p \<and> filename p \<noteq> [] \<and> own_file w p)"

lemma ready_file:
  assumes "fuzz_ready ps w" and "p \<in> ps" and "content w p = Some bs"
  shows "file_at w p bs"
  using assms by (auto simp: fuzz_ready_def own_file_def content_def node_at_def file_at_def)

lemma filename_nonempty: "filename p \<noteq> [] \<Longrightarrow> p \<noteq> []"
  by (auto simp: filename_def)

lemma ready_output:
  assumes "fuzz_ready ps w" and "dest \<in> ps" and "set ins \<subseteq> ps - {dest}" and "\<forall>p \<in> set ins. content w p \<noteq> None"
  shows "output_ready w dest ins"
proof -
  have d: "own_file w dest" "\<not> staged_name dest" "filename dest \<noteq> []" and s: "settled w"
    using assms(1,2) by (auto simp: fuzz_ready_def)
  have "may_publish w dest ins"
    using d(1) assms(3,4) by (auto simp: may_publish_def own_file_def content_def node_at_def)
  moreover have "w_names w (fst (candidate_path dest w)) = None"
    using assms(1) candidate_staged by (simp add: fuzz_ready_def)
  ultimately show ?thesis using d(3) s filename_nonempty by (auto simp: output_ready_def settled_def)
qed

text \<open>The name \<open>p\<close> stands for a new regular file, or for one that was its own.\<close>

lemma content_update:
  assumes "own_file w p" and "w_names w p = Some i"
  shows "content (w\<lparr>w_nodes := (w_nodes w)(i := n)\<rparr>) = (content w)(p \<mapsto> nd_data n)"
proof
  fix q
  have "w_names w q = Some i \<longleftrightarrow> q = p" using assms unfolding own_file_def by blast
  then show "content (w\<lparr>w_nodes := (w_nodes w)(i := n)\<rparr>) q = ((content w)(p \<mapsto> nd_data n)) q"
    using assms(2) by (cases "w_names w q") (auto simp: content_def node_at_def)
qed

lemma content_new:
  assumes "wf_world w" and "w_names w' = (w_names w)(p \<mapsto> w_next w)" and "nodes_kept w w'"
  shows "content w' = (content w)(p \<mapsto> nd_data (w_nodes w' (w_next w)))"
proof
  fix q
  show "content w' q = ((content w)(p \<mapsto> nd_data (w_nodes w' (w_next w)))) q"
  proof (cases "w_names w q")
    case (Some i)
    then have "i < w_next w" using assms(1) by (simp add: wf_world_def)
    then show ?thesis using assms(2,3) Some by (simp add: content_def node_at_def nodes_kept_def)
  qed (use assms(2) in \<open>simp add: content_def node_at_def\<close>)
qed

lemma content_kept:
  assumes "wf_world w" and "w_names w' = w_names w" and "nodes_kept w w'"
  shows "content w' = content w"
proof
  fix q
  show "content w' q = content w q"
  proof (cases "w_names w q")
    case (Some i)
    then have "i < w_next w" using assms(1) by (simp add: wf_world_def)
    then show ?thesis using assms(2,3) Some by (simp add: content_def node_at_def nodes_kept_def)
  qed (use assms(2) in \<open>simp add: content_def node_at_def\<close>)
qed

lemma own_file_kept:
  assumes "wf_world w" and "w_names w' = w_names w" and "nodes_kept w w'" and "own_file w p"
  shows "own_file w' p"
  unfolding own_file_def
proof (intro allI impI)
  fix i assume i: "w_names w' p = Some i"
  then have "i < w_next w" using assms(1,2) by (simp add: wf_world_def)
  then have "w_nodes w' i = w_nodes w i" using assms(3) by (simp add: nodes_kept_def)
  then show "nd_kind (w_nodes w' i) = Regular \<and> (\<forall>q. w_names w' q = Some i \<longrightarrow> q = p)"
    using i assms(2,4) by (simp add: own_file_def)
qed

lemma own_file_new:
  assumes "wf_world w" and "w_names w' = (w_names w)(dest \<mapsto> w_next w)" and "nd_kind (w_nodes w' (w_next w)) = Regular"
    and "nodes_kept w w'" and "own_file w p"
  shows "own_file w' p"
  unfolding own_file_def
proof (intro allI impI)
  fix i assume i: "w_names w' p = Some i"
  have fresh: "w_names w q \<noteq> Some (w_next w)" for q using assms(1) by (auto simp: wf_world_def)
  show "nd_kind (w_nodes w' i) = Regular \<and> (\<forall>q. w_names w' q = Some i \<longrightarrow> q = p)"
  proof (cases "p = dest")
    case True
    then have "i = w_next w" using i assms(2) by simp
    then show ?thesis using assms(2,3) fresh True by (simp split: if_splits)
  next
    case False
    then have j: "w_names w p = Some i" using i assms(2) by simp
    then have "i < w_next w" using assms(1) by (simp add: wf_world_def)
    then have "w_nodes w' i = w_nodes w i" "i \<noteq> w_next w" using assms(4) by (simp_all add: nodes_kept_def)
    moreover have "w_names w q = Some i" if "w_names w' q = Some i" for q
      using that assms(2) \<open>i \<noteq> w_next w\<close> by (cases "q = dest") simp_all
    ultimately show ?thesis using j assms(5) unfolding own_file_def by metis
  qed
qed

lemma ready_installed:
  assumes "fuzz_ready ps w" and "dest \<in> ps" and "installed w w' dest"
  shows "fuzz_ready ps w'"
proof -
  have wf: "wf_world w" using assms(1) by (simp add: fuzz_ready_def settled_def)
  have n: "w_names w' = (w_names w)(dest \<mapsto> w_next w)" "nd_kind (w_nodes w' (w_next w)) = Regular" "nodes_kept w w'"
    using assms(3) by (simp_all add: installed_def)
  have "own_file w' p" if "p \<in> ps" for p
  proof -
    have "own_file w p" using assms(1) that by (simp add: fuzz_ready_def)
    then show ?thesis using own_file_new [OF wf n] by blast
  qed
  moreover have "w_names w' p = None" if "staged_name p" for p
    using assms(1,2) n(1) that by (cases "p = dest") (simp_all add: fuzz_ready_def)
  ultimately show ?thesis using assms(1,3) by (simp add: fuzz_ready_def installed_def)
qed

lemma ready_restored:
  assumes "fuzz_ready ps w" and "restored w w'"
  shows "fuzz_ready ps w'" and "content w' = content w"
proof -
  have wf: "wf_world w" using assms(1) by (simp add: fuzz_ready_def settled_def)
  have n: "w_names w' = w_names w" "nodes_kept w w'" using assms(2) by (simp_all add: restored_def)
  show "content w' = content w" by (rule content_kept [OF wf n])
  have "own_file w' p" if "p \<in> ps" for p
  proof -
    have "own_file w p" using assms(1) that by (simp add: fuzz_ready_def)
    then show ?thesis using own_file_kept [OF wf n] by blast
  qed
  then show "fuzz_ready ps w'" using assms n(1) by (simp add: fuzz_ready_def restored_def)
qed

lemma ready_update:
  assumes "fuzz_ready ps w" and "w_names w p = Some i"
  shows "fuzz_ready ps (w\<lparr>w_nodes := (w_nodes w)(i := (w_nodes w i)\<lparr>nd_data := bs\<rparr>)\<rparr>)" (is "fuzz_ready ps ?w")
proof -
  have "nd_kind (w_nodes ?w j) = nd_kind (w_nodes w j)" for j by simp
  then have "own_file ?w q = own_file w q" for q unfolding own_file_def by simp
  then show ?thesis using assms(1) by (simp add: fuzz_ready_def settled_def wf_world_def)
qed

lemma ready_drop:
  assumes "fuzz_ready ps w"
  shows "fuzz_ready ps (w\<lparr>w_names := (w_names w)(p := None)\<rparr>)"
    and "content (w\<lparr>w_names := (w_names w)(p := None)\<rparr>) = (content w)(p := None)"
proof -
  let ?w = "w\<lparr>w_names := (w_names w)(p := None)\<rparr>"
  have o: "own_file ?w q" if "own_file w q" for q
    using that unfolding own_file_def by (auto split: if_splits)
  have "wf_world w" using assms by (simp add: fuzz_ready_def settled_def)
  then have "settled ?w" using assms by (auto simp: fuzz_ready_def settled_def wf_world_def)
  then show "fuzz_ready ps ?w" using assms o by (simp add: fuzz_ready_def)
  show "content ?w = (content w)(p := None)" by (rule ext) (simp add: content_def node_at_def)
qed

section \<open>The contract of the files of a workspace\<close>

locale scratch_files =
  fixes ready :: "path set \<Rightarrow> 's \<Rightarrow> bool"
    and bytes_at :: "'s \<Rightarrow> path \<Rightarrow> bytes option"
    and put :: "path \<Rightarrow> bytes \<Rightarrow> 's \<Rightarrow> (string, unit, 's) outcome"
    and fetch :: "path \<Rightarrow> 's \<Rightarrow> (string, bytes, 's) outcome"
    and discard :: "path \<Rightarrow> 's \<Rightarrow> (string, unit, 's) outcome"
    and present :: "path \<Rightarrow> 's \<Rightarrow> (string, bool, 's) outcome"
  assumes put: "ready ps s \<Longrightarrow> p \<in> ps \<Longrightarrow>
      reaches (put p bs s) (\<lambda>_ s'. ready ps s' \<and> bytes_at s' = (bytes_at s)(p \<mapsto> bs))"
    and discard: "ready ps s \<Longrightarrow> p \<in> ps \<Longrightarrow>
      reaches (discard p s) (\<lambda>_ s'. ready ps s' \<and> bytes_at s' = (bytes_at s)(p := None))"
    and fetch: "ready ps s \<Longrightarrow> p \<in> ps \<Longrightarrow> bytes_at s p = Some bs \<Longrightarrow> fetch p s = (Inr bs, s)"
    and present: "ready ps s \<Longrightarrow> p \<in> ps \<Longrightarrow> present p s = (Inr (bytes_at s p \<noteq> None), s)"
begin

lemma put_fetch: "ready ps s \<Longrightarrow> p \<in> ps \<Longrightarrow> reaches (put p bs s) (\<lambda>_ s'. fetch p s' = (Inr bs, s'))"
  by (rule reaches_mono [OF put]) (auto intro: fetch)

lemma discard_present: "ready ps s \<Longrightarrow> p \<in> ps \<Longrightarrow> reaches (discard p s) (\<lambda>_ s'. present p s' = (Inr False, s'))"
  by (rule reaches_mono [OF discard]) (auto simp: present)

lemma put_elsewhere:
  "ready ps s \<Longrightarrow> p \<in> ps \<Longrightarrow> q \<in> ps \<Longrightarrow> p \<noteq> q \<Longrightarrow> bytes_at s q = Some cs \<Longrightarrow>
     reaches (put p bs s) (\<lambda>_ s'. fetch q s' = (Inr cs, s'))"
  by (rule reaches_mono [OF put]) (auto intro: fetch)

end

lemma written_stream:
  fixes bs :: bytes
  defines "s \<equiv> if bs \<noteq> [] then st_write bs (opened_stream [] []) else opened_stream [] []"
  shows "st_data s = bs" and "\<not> st_failed s" and "\<not> st_failed (st_close s)"
  by (simp_all add: s_def st_write_def opened_stream_def st_defs st_overwrite_def st_close_def)

lemma ws_write_ready:
  assumes "fuzz_ready ps w" and "p \<in> ps"
  shows "reaches (ws_write p bs w) (\<lambda>_ w'. fuzz_ready ps w' \<and> content w' = (content w)(p \<mapsto> bs))"
proof -
  have nf: "no_faults w" and wf: "wf_world w" and own: "own_file w p"
    using assms by (simp_all add: fuzz_ready_def settled_def)
  have op: "\<not> st_failed (opened_stream [] [])" by (simp add: opened_stream_def st_failed_def)
  note ws = written_stream [of bs]
  show ?thesis
  proof (cases "w_names w p")
    case None
    define w' where "w' = store_data p bs (create_name p w)"
    have "stream_open p OUT False w = (opened_stream [] [], create_name p w)"
      using None by (simp add: stream_open_def no_faults_take nf node_at_def)
    then have r: "ws_write p bs w = (Inr (), w')" using op ws by (simp add: ws_write_def Let_def w'_def)
    have k: "w_names w' = (w_names w)(p \<mapsto> w_next w)" "nodes_kept w w'" "nd_data (w_nodes w' (w_next w)) = bs"
      by (simp_all add: w'_def store_data_def create_name_def nodes_kept_def)
    have "installed w w' p"
      using assms(1) k wf_world_update [OF wf, of w' p]
      by (simp add: installed_def settled_def fuzz_ready_def w'_def store_data_def create_name_def new_node_def no_faults_def)
    with r show ?thesis using ready_installed [OF assms] content_new [OF wf k(1,2)] k(3) by simp
  next
    case (Some i)
    define w' where "w' = w\<lparr>w_nodes := (w_nodes w)(i := (w_nodes w i)\<lparr>nd_data := bs\<rparr>)\<rparr>"
    have "nd_kind (w_nodes w i) = Regular" using own Some by (simp add: own_file_def)
    then have "stream_open p OUT False w = (opened_stream [] [], store_data p [] w)"
      using Some nf by (simp add: stream_open_def no_faults_take node_at_def)
    then have "ws_write p bs w = (Inr (), w')"
      using op ws Some by (simp add: ws_write_def Let_def w'_def store_data_def)
    then show ?thesis using ready_update [OF assms(1) Some] content_update [OF own Some] by (simp add: w'_def)
  qed
qed

lemma ws_remove_ready:
  assumes "fuzz_ready ps w"
  shows "reaches (ws_remove p w) (\<lambda>_ w'. fuzz_ready ps w' \<and> content w' = (content w)(p := None))"
proof -
  have "no_faults w" using assms by (simp add: fuzz_ready_def settled_def)
  then show ?thesis using ready_drop [OF assms] by (simp add: ws_remove_def no_faults_take)
qed

lemma ws_read_ready:
  assumes "fuzz_ready ps w" and "p \<in> ps" and "content w p = Some bs"
  shows "ws_read p w = (Inr bs, w)"
proof -
  have nf: "no_faults w" using assms(1) by (simp add: fuzz_ready_def settled_def)
  obtain n where n: "node_at w p = Some n" "nd_kind n = Regular" "nd_data n = bs"
    using ready_file [OF assms] by (auto simp: file_at_def)
  then have "stream_open p IN False w = (opened_stream bs [], w)"
    by (simp add: stream_open_def no_faults_take nf)
  then show ?thesis by (simp add: ws_read_def Let_def opened_stream_def st_seek_def st_read_def st_defs)
qed

lemma ws_exists_ready:
  assumes "fuzz_ready ps w"
  shows "ws_exists p w = (Inr (content w p \<noteq> None), w)"
proof -
  have "no_faults w" using assms by (simp add: fuzz_ready_def settled_def)
  then show ?thesis by (simp add: ws_exists_def fs_status_def no_faults_take content_def split: option.split)
qed

interpretation ws: scratch_files fuzz_ready content ws_write ws_read ws_remove ws_exists
  by unfold_locales (rule ws_write_ready ws_remove_ready ws_read_ready ws_exists_ready; assumption)+

end
