(* ===== verification/Fuzz_Targets.thy ===== *)
theory Fuzz_Targets imports Fuzz_Workspace begin

text \<open>
  The fuzz targets (\<^verbatim>\<open>src/fuzz/fuzz_roundtrip.cpp\<close>, \<^verbatim>\<open>src/fuzz/fuzz_apply.cpp\<close>) and the driver that replays
  inputs (\<^verbatim>\<open>src/fuzz/replay_main.cpp\<close>).  A target checks invariants of the program and aborts when one is violated; the theorems say that it
  never does.
\<close>

section \<open>Targets\<close>

text \<open>An input ends with the call's return, with \<open>std::abort\<close> after a message, or with an exception.\<close>

datatype fuzz_stop = Escaped string | Aborted string

type_synonym 'a fuzz_run = "(fuzz_stop, 'a, world) outcome"

definition escaping :: "(string + 'a) \<times> world \<Rightarrow> 'a fuzz_run" where
  "escaping r = (case r of (Inl e, w) \<Rightarrow> (Inl (Escaped e), w) | (Inr x, w) \<Rightarrow> (Inr x, w))"

definition fail_with :: "string \<Rightarrow> world \<Rightarrow> 'a fuzz_run" where
  "fail_with what w = (Inl (Aborted what), w)"

record RoundtripFixture =
  rf_old :: path
  rf_new :: path
  rf_delta :: path
  rf_out :: path

definition roundtrip_fixture :: "path \<Rightarrow> RoundtripFixture" where
  "roundtrip_fixture root =
     \<lparr>rf_old = workspace_path root ''old.bin'', rf_new = workspace_path root ''new.bin'',
      rf_delta = workspace_path root ''gen.delta'', rf_out = workspace_path root ''out.bin''\<rparr>"

text \<open>The content of an input: where it is split, and the two halves.\<close>

definition split_point :: "bytes \<Rightarrow> nat" where
  "split_point data = (push_bit 8 (unat (data ! 0)) OR unat (data ! 1)) mod (length data - 2 + 1)"

definition old_half :: "bytes \<Rightarrow> bytes" where
  "old_half data = take (split_point data) (drop 2 data)"

definition new_half :: "bytes \<Rightarrow> bytes" where
  "new_half data = drop (split_point data) (drop 2 data)"

text \<open>From the signatures to the comparison of the files.\<close>

definition roundtrip_apply :: "bool \<Rightarrow> 'u strong_hash \<Rightarrow> RoundtripFixture \<Rightarrow> world \<Rightarrow> unit fuzz_run" where
  "roundtrip_apply nr U fx w =
     (case apply_delta nr (rk_alg rk_default) U (rf_old fx) (rf_delta fx) (rf_out fx) (- 1) w of
        (Inl _, w1) \<Rightarrow> fail_with ''a freshly generated delta failed to apply'' w1
      | (Inr _, w1) \<Rightarrow>
          and_run (escaping (ws_read (rf_out fx) w1)) (\<lambda>result w2.
          and_run (escaping (ws_read (rf_new fx) w2)) (\<lambda>expected w3.
            if result \<noteq> expected then fail_with ''round trip did not reproduce the new file'' w3 else (Inr (), w3))))"

definition roundtrip_check ::
  "bool \<Rightarrow> 'u strong_hash \<Rightarrow> RoundtripFixture \<Rightarrow> Signature \<Rightarrow> Signature \<Rightarrow> world \<Rightarrow> unit fuzz_run" where
  "roundtrip_check nr U fx old_sig new_sig w =
     (case generate_delta nr U old_sig new_sig (rf_old fx) (rf_new fx) (rf_delta fx) w of
        (Inl _, w1) \<Rightarrow> fail_with ''delta generation failed for two readable files'' w1
      | (Inr generated, w1) \<Rightarrow>
          and_run (escaping (ws_read (rf_delta fx) w1)) (\<lambda>delta w2.
            if ds_bytes_written generated \<noteq> length delta
            then fail_with ''reported delta bytes disagree with the delta file size'' w2
            else (case view_delta nr (rf_delta fx) w2 of (status, _, _, w3) \<Rightarrow>
              if status \<noteq> 0 then fail_with ''view rejected a generated delta'' w3
              else roundtrip_apply nr U fx w3)))"

definition roundtrip_sign :: "bool \<Rightarrow> 'u strong_hash \<Rightarrow> RoundtripFixture \<Rightarrow> world \<Rightarrow> unit fuzz_run" where
  "roundtrip_sign nr U fx w =
     and_run (escaping (generate_signatures_path nr (rk_alg rk_default) U (rf_old fx) Skip w)) (\<lambda>(old_ok, old_sig) w1.
       if \<not> old_ok then fail_with ''signature generation failed on a file that was just written'' w1
       else
     and_run (escaping (generate_signatures_path nr (rk_alg rk_default) U (rf_new fx) Compute w1)) (\<lambda>(new_ok, new_sig) w2.
       if \<not> new_ok then fail_with ''signature generation failed on a file that was just written'' w2
       else roundtrip_check nr U fx old_sig new_sig w2))"

definition roundtrip_one_input :: "bool \<Rightarrow> 'u strong_hash \<Rightarrow> RoundtripFixture \<Rightarrow> bytes \<Rightarrow> world \<Rightarrow> unit fuzz_run" where
  "roundtrip_one_input nr U fx data w =
     (if length data < 2 then (Inr (), w)
      else
        and_run (escaping (ws_write (rf_old fx) (old_half data) w)) (\<lambda>_ w1.
        and_run (escaping (ws_write (rf_new fx) (new_half data) w1)) (\<lambda>_ w2.
        and_run (escaping (ws_remove (rf_delta fx) w2)) (\<lambda>_ w3.
        and_run (escaping (ws_remove (rf_out fx) w3)) (\<lambda>_ w4.
          roundtrip_sign nr U fx w4)))))"

record ApplyFixture =
  af_old :: path
  af_delta :: path
  af_out :: path
  af_out_again :: path

definition apply_fixture :: "path \<Rightarrow> ApplyFixture" where
  "apply_fixture root =
     \<lparr>af_old = workspace_path root ''old.bin'', af_delta = workspace_path root ''input.delta'',
      af_out = workspace_path root ''out.bin'', af_out_again = workspace_path root ''out2.bin''\<rparr>"

text \<open>The constructor of the fixture writes the old file.\<close>

definition apply_fixture_new :: "path \<Rightarrow> world \<Rightarrow> ApplyFixture fuzz_run" where
  "apply_fixture_new root w =
     and_run (escaping (ws_write (af_old (apply_fixture root)) make_old_content w)) (\<lambda>_ w1. (Inr (apply_fixture root), w1))"

definition sentinel :: bytes where
  "sentinel = map (\<lambda>c. of_nat (of_char c)) ''preserve''"

definition apply_rejected :: "bool \<Rightarrow> ApplyFixture \<Rightarrow> world \<Rightarrow> unit fuzz_run" where
  "apply_rejected existing fx w =
     (if existing
      then and_run (escaping (ws_read (af_out fx) w)) (\<lambda>bs w1.
             if bs \<noteq> sentinel then fail_with ''failed apply changed an existing destination'' w1 else (Inr (), w1))
      else and_run (escaping (ws_exists (af_out fx) w)) (\<lambda>there w1.
             if there then fail_with ''failed apply left an output file behind'' w1 else (Inr (), w1)))"

definition apply_accepted ::
  "bool \<Rightarrow> 'u strong_hash \<Rightarrow> ApplyFixture \<Rightarrow> nat \<Rightarrow> ApplyStats \<Rightarrow> world \<Rightarrow> unit fuzz_run" where
  "apply_accepted nr U fx viewed stats w =
     (if viewed \<noteq> 0 then fail_with ''view rejected a successfully applied delta'' w
      else and_run (escaping (ws_read (af_out fx) w)) (\<lambda>first w1.
        if length first \<noteq> as_bytes_written stats
        then fail_with ''reported bytes_written disagrees with the output file size'' w1
        else (case apply_delta nr (rk_alg rk_default) U (af_old fx) (af_delta fx) (af_out_again fx) (- 1) w1 of
                (Inl _, w2) \<Rightarrow> fail_with ''apply succeeded once and then failed on the same input'' w2
              | (Inr _, w2) \<Rightarrow>
                  and_run (escaping (ws_read (af_out_again fx) w2)) (\<lambda>again w3.
                    if again \<noteq> first then fail_with ''apply is not deterministic for the same delta'' w3
                    else (Inr (), w3)))))"

text \<open>After the view: a sentinel in the output for inputs of odd size, and the application.\<close>

definition apply_viewed :: "bool \<Rightarrow> 'u strong_hash \<Rightarrow> ApplyFixture \<Rightarrow> bool \<Rightarrow> nat \<Rightarrow> world \<Rightarrow> unit fuzz_run" where
  "apply_viewed nr U fx existing viewed w =
     and_run (if existing then escaping (ws_write (af_out fx) sentinel w) else (Inr (), w)) (\<lambda>_ w1.
       case apply_delta nr (rk_alg rk_default) U (af_old fx) (af_delta fx) (af_out fx) (- 1) w1 of
         (Inl _, w2) \<Rightarrow> apply_rejected existing fx w2
       | (Inr stats, w2) \<Rightarrow> apply_accepted nr U fx viewed stats w2)"

definition apply_one_input :: "bool \<Rightarrow> 'u strong_hash \<Rightarrow> ApplyFixture \<Rightarrow> bytes \<Rightarrow> world \<Rightarrow> unit fuzz_run" where
  "apply_one_input nr U fx data w =
     and_run (escaping (ws_write (af_delta fx) data w)) (\<lambda>_ w1.
     and_run (escaping (ws_remove (af_out fx) w1)) (\<lambda>_ w2.
     and_run (escaping (ws_remove (af_out_again fx) w2)) (\<lambda>_ w3.
       case view_delta nr (af_delta fx) w3 of (viewed, _, _, w4) \<Rightarrow>
         apply_viewed nr U fx (odd (length data)) viewed w4)))"

section \<open>Replaying inputs\<close>

definition read_file :: "path \<Rightarrow> world \<Rightarrow> (string + bytes) \<times> world" where
  "read_file p w =
     (case stream_open p IN False w of (s, w1) \<Rightarrow>
        if st_failed s then (Inl (''cannot open '' @ p), w1)
        else (case st_read (length (st_data s)) s of (bs, s1) \<Rightarrow>
                (if st_failed s1 then Inl ''error reading the file'' else Inr bs, w1)))"

text \<open>The loop over the arguments: exit status 2 and the message for a file that cannot be read, or the
  number of inputs that passed.\<close>

fun replay_loop :: "(bytes \<Rightarrow> world \<Rightarrow> unit fuzz_run) \<Rightarrow> nat \<Rightarrow> path list \<Rightarrow> world \<Rightarrow> (string + nat) fuzz_run" where
  "replay_loop target replayed [] w = (Inr (Inr replayed), w)"
| "replay_loop target replayed (p # args) w =
     (case read_file p w of
        (Inl msg, w1) \<Rightarrow> (Inr (Inl msg), w1)
      | (Inr data, w1) \<Rightarrow> and_run (target data w1) (\<lambda>_ w2. replay_loop target (Suc replayed) args w2))"

definition replay_main ::
  "(bytes \<Rightarrow> world \<Rightarrow> unit fuzz_run) \<Rightarrow> bytes \<Rightarrow> string list \<Rightarrow> world \<Rightarrow> printed fuzz_run" where
  "replay_main target stdin argv w =
     (if length argv < 2 then and_run (target stdin w) (\<lambda>_ w1. (Inr (0, [], []), w1))
      else and_run (replay_loop target 0 (tl argv) w) (\<lambda>r w1.
        case r of
          Inl msg \<Rightarrow> (Inr (2, [], msg @ newline), w1)
        | Inr replayed \<Rightarrow>
            (Inr (0, ''replayed '' @ to_dec replayed @ '' input(s) with no invariant violations'' @ newline, []), w1)))"

section \<open>The applier and the viewer agree\<close>

lemma entry_output_valid: "entry_output D old cs e p \<Longrightarrow> body_valid e"
  by (auto elim!: entry_outputE)

lemma applied_wire_valid:
  assumes "stream_wire rest es (D bs)" and "list_all2 (entry_output D old cs) es ps" and "length (D bs) = HASH_SIZE"
  shows "wire_valid rest es (D bs)"
proof -
  have "body_valid e" if "e \<in> set es" for e
    using assms(2) that entry_output_valid by (metis list_all2_conv_all_nth in_set_conv_nth)
  then show ?thesis using assms(1,3) by (simp add: wire_valid_def)
qed

section \<open>Steps that succeed\<close>

lemma and_run_reaches:
  assumes "reaches m Q" and "\<And>x w. Q x w \<Longrightarrow> reaches (k x w) R"
  shows "reaches (and_run m k) R"
  using assms by (auto simp: reaches_def and_run_def)

lemma escaping_reaches: "reaches m Q \<Longrightarrow> reaches (escaping m) Q"
  by (auto simp: reaches_def escaping_def)

lemma escaping_Inr [simp]: "escaping (Inr x, w) = (Inr x, w)"
  by (simp add: escaping_def)

text \<open>A file operation followed by the rest.\<close>

lemma then_write:
  assumes "fuzz_ready ps w" and "p \<in> ps"
    and "\<And>w'. fuzz_ready ps w' \<Longrightarrow> content w' = (content w)(p \<mapsto> bs) \<Longrightarrow> reaches (k () w') R"
  shows "reaches (and_run (escaping (ws_write p bs w)) k) R"
  by (rule and_run_reaches [OF escaping_reaches [OF ws.put [OF assms(1,2)]]]) (use assms(3) in simp)

lemma then_remove:
  assumes "fuzz_ready ps w" and "p \<in> ps"
    and "\<And>w'. fuzz_ready ps w' \<Longrightarrow> content w' = (content w)(p := None) \<Longrightarrow> reaches (k () w') R"
  shows "reaches (and_run (escaping (ws_remove p w)) k) R"
  by (rule and_run_reaches [OF escaping_reaches [OF ws.discard [OF assms(1,2)]]]) (use assms(3) in simp)

lemma then_read:
  assumes "fuzz_ready ps w" and "p \<in> ps" and "content w p = Some bs"
  shows "and_run (escaping (ws_read p w)) k = k bs w"
  by (simp add: ws.fetch [OF assms])

lemma then_exists:
  assumes "fuzz_ready ps w" and "p \<in> ps"
  shows "and_run (escaping (ws_exists p w)) k = k (content w p \<noteq> None) w"
  by (simp add: ws.present [OF assms])

section \<open>The program on a workspace\<close>

lemma ready_settled: "fuzz_ready ps w \<Longrightarrow> settled w"
  by (simp add: fuzz_ready_def)

lemma settledD: "settled w \<Longrightarrow> no_faults w \<and> wf_world w \<and> (\<forall>s \<in> set (w_slots w). s = None)"
  by (simp add: settled_def)

lemma view_delta_quiet:
  assumes "no_faults w"
  shows "\<exists>prn err. view_delta nr p w = (fst (view_delta nr p w), prn, err, w)"
proof -
  obtain ok f w1 where o: "fio_open nr p IN fio_default w = (ok, f, w1)" by (cases "fio_open nr p IN fio_default w") auto
  have "w1 = w" by (rule fio_open_input_quiet [OF assms o])
  then show ?thesis using o by (auto simp: view_delta_def split: sum.splits prod.splits)
qed

lemma installed_content:
  assumes "fuzz_ready ps w" and "dest \<in> ps" and "installed w w' dest" and "published w w' dest bs"
  shows "fuzz_ready ps w'" and "content w' = (content w)(dest \<mapsto> bs)"
proof -
  show "fuzz_ready ps w'" by (rule ready_installed [OF assms(1-3)])
  have wf: "wf_world w" using assms(1) by (simp add: fuzz_ready_def settled_def)
  have n: "w_names w' = (w_names w)(dest \<mapsto> w_next w)" "nodes_kept w w'" using assms(3) by (simp_all add: installed_def)
  have "nd_data (w_nodes w' (w_next w)) = bs" using assms(4) n(1) by (auto simp: published_def)
  with content_new [OF wf n] show "content w' = (content w)(dest \<mapsto> bs)" by simp
qed

text \<open>What a delta stands for: the bytes it is turned into over the old file.\<close>

definition delta_yields :: "(bytes \<Rightarrow> bytes) \<Rightarrow> bytes \<Rightarrow> bytes \<Rightarrow> bytes \<Rightarrow> bool" where
  "delta_yields D old delta bs \<longleftrightarrow> (\<exists>rest es ps. delta = header_bytes @ rest \<and> stream_wire rest es (D (concat ps)) \<and>
     list_all2 (entry_output D old (sign D old)) es ps \<and> bs = concat ps)"

lemma yields_viewable:
  assumes "delta_yields D old delta bs" and "\<And>m. length (D m) = HASH_SIZE" and "file_at w p delta" and "no_faults w"
  shows "fst (view_delta nr p w) = 0"
proof -
  obtain rest es ps where y: "delta = header_bytes @ rest" "stream_wire rest es (D (concat ps))"
    "list_all2 (entry_output D old (sign D old)) es ps" using assms(1) by (auto simp: delta_yields_def)
  show ?thesis by (rule view_delta_complete [OF assms(3,4) y(1) applied_wire_valid [OF y(2,3) assms(2)]])
qed

lemma apply_ready_sound:
  assumes "apply_delta nr (rk_alg rk_default) U opath dpath outp m w = (Inr stats, w')" and "fuzz_ready ps w"
    and "opath \<in> ps" and "dpath \<in> ps" and "outp \<in> ps" and "content w opath = Some old" and "content w dpath = Some delta"
    and "strong_hash_sound U D msg" and "DELTA_DIGEST_BYTES \<le> sh_size U"
  shows "\<exists>bs. fuzz_ready ps w' \<and> content w' = (content w)(outp \<mapsto> bs) \<and> as_bytes_written stats = length bs \<and>
    delta_yields D old delta bs \<and> length bs \<le> unat m"
proof -
  note s = settledD [OF ready_settled [OF assms(2)]]
  obtain n d rest es ps' where a: "node_at w opath = Some n" "node_at w dpath = Some d"
    "nd_data d = header_bytes @ rest" "stream_wire rest es (D (concat ps'))"
    "list_all2 (entry_output D (nd_data n) (sign D (nd_data n))) es ps'"
    "published w w' outp (concat ps')" "length (concat ps') \<le> unat m"
    "stats = \<lparr>as_entries_processed = length es, as_bytes_written = length (concat ps')\<rparr>"
    using apply_delta_publishes [OF assms(1,8,9)] s by blast
  have "installed w w' outp" using apply_delta_settled [OF assms(1) ready_settled [OF assms(2)]] by simp
  note ic = installed_content [OF assms(2,5) this a(6)]
  have "nd_data n = old" "nd_data d = delta" using a(1,2) assms(6,7) by (simp_all add: content_def)
  then have "delta_yields D old delta (concat ps')" unfolding delta_yields_def using a(3-5) by blast
  then show ?thesis using ic a(7,8) by (intro exI [of _ "concat ps'"]) simp
qed

lemma apply_ready_complete:
  assumes "delta_yields D old delta bs" and "length bs \<le> unat m" and "fuzz_ready ps w"
    and "{opath, dpath} \<subseteq> ps - {outp}" and "outp \<in> ps" and "content w opath = Some old" and "content w dpath = Some delta"
    and "length old \<le> STREAMOFF_MAX"
    and "strong_hash_sound U D msg" and "strong_hash_total U msg live" and "DELTA_DIGEST_BYTES \<le> sh_size U"
  shows "\<exists>stats w'. apply_delta nr (rk_alg rk_default) U opath dpath outp m w = (Inr stats, w') \<and> fuzz_ready ps w' \<and>
    content w' = (content w)(outp \<mapsto> bs) \<and> as_bytes_written stats = length bs"
proof -
  obtain rest es ps' where y: "delta = header_bytes @ rest" "stream_wire rest es (D (concat ps'))"
    "list_all2 (entry_output D old (sign D old)) es ps'" "bs = concat ps'" using assms(1) by (auto simp: delta_yields_def)
  have out: "output_ready w outp [opath, dpath]" by (rule ready_output [OF assms(3,5)]) (use assms(4,6,7) in auto)
  have f: "file_at w opath old" "file_at w dpath (header_bytes @ rest)"
    using ready_file [OF assms(3) _ assms(6)] ready_file [OF assms(3) _ assms(7)] assms(4) y(1) by auto
  obtain w' where a: "apply_delta nr (rk_alg rk_default) U opath dpath outp m w =
      (Inr \<lparr>as_entries_processed = length es, as_bytes_written = length (concat ps')\<rparr>, w')"
    "published w w' outp (concat ps')"
    using apply_delta_succeeds [OF out f y(2,3) _ assms(8-11)] assms(2) y(4) by blast
  have "installed w w' outp" using apply_delta_settled [OF a(1) ready_settled [OF assms(3)]] by simp
  from installed_content [OF assms(3,5) this a(2)] a(1) y(4) show ?thesis by auto
qed

lemma sign_ready:
  assumes "fuzz_ready ps w" and "p \<in> ps" and "content w p = Some bs"
    and "strong_hash_sound U D msg" and "strong_hash_total U msg live" and "DELTA_DIGEST_BYTES \<le> sh_size U"
  shows "generate_signatures_path nr (rk_alg rk_default) U p mode w = (Inr (True, signature_of D (rk_value rk_default) 48 mode bs), w)"
proof -
  have "no_faults w" using settledD [OF ready_settled [OF assms(1)]] by blast
  then show ?thesis by (rule signatures_path_complete [OF _ ready_file [OF assms(1-3)] assms(4-6)])
qed

lemma hash_fits:
  assumes "sh_size U = HASH_SIZE"
  shows "DELTA_DIGEST_BYTES \<le> sh_size U" and "sh_size U \<le> STREAMOFF_MAX"
  by (simp_all add: assms HASH_SIZE_def DELTA_DIGEST_BYTES_def STREAMOFF_MAX_def)

lemma generate_ready:
  assumes "fuzz_ready ps w" and "{opath, npath} \<subseteq> ps - {dpath}" and "dpath \<in> ps"
    and "content w opath = Some old" and "content w npath = Some new"
    and "length old \<le> STREAMOFF_MAX" and "length new \<le> STREAMOFF_MAX"
    and "strong_hash_sound U D msg" and "strong_hash_total U msg live" and "sh_size U = HASH_SIZE"
  shows "\<exists>stats w' d. generate_delta nr U (signature_of D (rk_value rk_default) 48 Skip old)
      (signature_of D (rk_value rk_default) 48 Compute new) opath npath dpath w = (Inr stats, w') \<and>
    fuzz_ready ps w' \<and> content w' = (content w)(dpath \<mapsto> d) \<and> ds_bytes_written stats = length d"
proof -
  let ?og = "signature_of D (rk_value rk_default) 48 Skip old"
  let ?nf = "signature_of D (rk_value rk_default) 48 Compute new"
  note s = settledD [OF ready_settled [OF assms(1)]]
  note h = hash_fits [OF assms(10)]
  have out: "output_ready w dpath [opath, npath]" by (rule ready_output [OF assms(1,3)]) (use assms(2,4,5) in auto)
  have f: "file_at w opath old" "file_at w npath new"
    using ready_file [OF assms(1) _ assms(4)] ready_file [OF assms(1) _ assms(5)] assms(2) by auto
  have len: "length (sg_whole ?nf) \<le> STREAMOFF_MAX"
    using h(2) strong_hash_soundD(1) [OF assms(8)] by (simp add: signature_of_def)
  have sg: "tiling (sg_chunks ?og) (length old) 0" "tiling (sg_chunks ?nf) (length new) 0"
    "\<forall>c \<in> set (sg_chunks ?og). chunk_matches D old c" "\<forall>c \<in> set (sg_chunks ?nf). chunk_matches D new c"
    using sign_tiling sign_matches_all [OF assms(8) h(1)] by (simp_all add: signature_of_chunks)
  obtain stats w' where g: "generate_delta nr U ?og ?nf opath npath dpath w = (Inr stats, w')"
    using generate_delta_succeeds [OF out f sg assms(6,7) len h(2) assms(8,9) h(1)] by blast
  obtain n m es ps' dig where p:
    "node_at w opath = Some n" "node_at w npath = Some m"
    "tiling (sg_chunks ?og) (length (nd_data n)) 0" "tiling (sg_chunks ?nf) (length (nd_data m)) 0"
    "\<forall>c \<in> set (sg_chunks ?og). chunk_matches D (nd_data n) c"
    "gen_entries D (nd_data n) (nd_data m) (sg_chunks ?og) 0 (sg_chunks ?nf) es ps'"
    "trailer_ok D (nd_data m) (sg_chunks ?nf) (sg_whole ?nf) dig"
    "published w w' dpath (encode_delta es dig)"
    "stats = \<lparr>ds_chunks_processed = length (sg_chunks ?nf), ds_bytes_written = length (encode_delta es dig)\<rparr>"
    by (rule generate_delta_publishes [OF g assms(8)]) (use s in blast)+
  have "installed w w' dpath" using generate_delta_settled [OF g ready_settled [OF assms(1)]] by simp
  from installed_content [OF assms(1,3) this p(8)] g p(9) show ?thesis by auto
qed

lemma created_ready_applies:
  assumes "generate_delta nr U (signature_of D (rk_value rk_default) 48 Skip old)
      (signature_of D (rk_value rk_default) 48 Compute new) opath npath dpath w = (Inr stats, w1)"
    and "fuzz_ready ps w" and "fuzz_ready ps w1" and "{opath, npath} \<subseteq> ps" and "{opath, dpath} \<subseteq> ps - {outp}" and "outp \<in> ps"
    and "content w opath = Some old" and "content w npath = Some new"
    and "content w1 opath = Some old" and "content w1 dpath = Some d"
    and "length old \<le> STREAMOFF_MAX" and "length new \<le> STREAMOFF_MAX" and "digest_separates D old new"
    and "strong_hash_sound U D msg" and "strong_hash_total U msg live" and "sh_size U = HASH_SIZE"
  shows "\<exists>stats2 w2. apply_delta nr (rk_alg rk_default) U opath dpath outp (- 1) w1 = (Inr stats2, w2) \<and>
    fuzz_ready ps w2 \<and> content w2 = (content w1)(outp \<mapsto> new) \<and> delta_yields D old d new"
proof -
  note s = settledD [OF ready_settled [OF assms(2)]] and h = hash_fits [OF assms(16)]
  have f: "file_at w opath old" "file_at w npath new" "file_at w1 opath old" "file_at w1 dpath d"
    using ready_file [OF assms(2)] ready_file [OF assms(3)] assms(4,5,7-10) by auto
  then obtain n where n: "node_at w1 dpath = Some n" "nd_data n = d" by (auto simp: file_at_def)
  have out: "output_ready w1 outp [opath, dpath]" by (rule ready_output [OF assms(3,6)]) (use assms(5,9,10) in auto)
  have "length new \<le> unat (- 1 :: u64)" using assms(12) by (simp add: unat_minus_1 STREAMOFF_MAX_def)
  then obtain w2 where a: "apply_delta nr (rk_alg rk_default) U opath dpath outp (- 1) w1 =
      (Inr \<lparr>as_entries_processed = length (sign D new), as_bytes_written = length new\<rparr>, w2)" "published w1 w2 outp new"
    using created_delta_applies [OF assms(1) f(1,2) refl refl _ _ n(1) _ f(3) out _ assms(13,11,12,14,15) h(1)] s f(4) n(2)
    by blast
  have "installed w1 w2 outp" using apply_delta_settled [OF a(1) ready_settled [OF assms(3)]] by simp
  note ic = installed_content [OF assms(3,6) this a(2)]
  have "\<exists>bs. content w2 = (content w1)(outp \<mapsto> bs) \<and> delta_yields D old d bs"
    using apply_ready_sound [OF a(1) assms(3) _ _ assms(6,9,10,14) h(1)] assms(5) by auto
  then have "delta_yields D old d new" using ic(2) by (metis fun_upd_same option.inject)
  with ic a(1) show ?thesis by blast
qed

section \<open>The round trip target\<close>

definition rf_paths :: "RoundtripFixture \<Rightarrow> path set" where
  "rf_paths fx = {rf_old fx, rf_new fx, rf_delta fx, rf_out fx}"

definition rf_distinct :: "RoundtripFixture \<Rightarrow> bool" where
  "rf_distinct fx \<longleftrightarrow> distinct [rf_old fx, rf_new fx, rf_delta fx, rf_out fx]"

lemma roundtrip_fixture_distinct: "rf_distinct (roundtrip_fixture root)"
  by (simp add: rf_distinct_def roundtrip_fixture_def workspace_path_def path_append_inj)

lemma roundtrip_check_reaches:
  assumes "fuzz_ready (rf_paths fx) w" and "rf_distinct fx"
    and "content w (rf_old fx) = Some old" and "content w (rf_new fx) = Some new"
    and "length old \<le> STREAMOFF_MAX" and "length new \<le> STREAMOFF_MAX" and "digest_separates D old new"
    and "strong_hash_sound U D msg" and "strong_hash_total U msg live" and "sh_size U = HASH_SIZE"
  shows "reaches (roundtrip_check nr U fx (signature_of D (rk_value rk_default) 48 Skip old)
      (signature_of D (rk_value rk_default) 48 Compute new) w)
    (\<lambda>_ w'. fuzz_ready (rf_paths fx) w' \<and> (\<forall>q. q \<notin> rf_paths fx \<longrightarrow> content w' q = content w q))"
proof -
  have p: "{rf_old fx, rf_new fx} \<subseteq> rf_paths fx - {rf_delta fx}" "{rf_old fx, rf_delta fx} \<subseteq> rf_paths fx - {rf_out fx}"
      "rf_delta fx \<in> rf_paths fx" "rf_out fx \<in> rf_paths fx" "rf_new fx \<in> rf_paths fx" "{rf_old fx, rf_new fx} \<subseteq> rf_paths fx"
      "rf_old fx \<noteq> rf_delta fx" "rf_new fx \<noteq> rf_delta fx" "rf_new fx \<noteq> rf_out fx"
    using assms(2) by (auto simp: rf_paths_def rf_distinct_def)
  obtain stats w1 d where g: "generate_delta nr U (signature_of D (rk_value rk_default) 48 Skip old)
      (signature_of D (rk_value rk_default) 48 Compute new) (rf_old fx) (rf_new fx) (rf_delta fx) w = (Inr stats, w1)"
    "fuzz_ready (rf_paths fx) w1" "content w1 = (content w)(rf_delta fx \<mapsto> d)" "ds_bytes_written stats = length d"
    using generate_ready [OF assms(1) p(1,3) assms(3-6,8-10)] by blast
  have c1: "content w1 (rf_old fx) = Some old" "content w1 (rf_delta fx) = Some d" using g(3) p(7) assms(3) by simp_all
  obtain stats2 w2 where a: "apply_delta nr (rk_alg rk_default) U (rf_old fx) (rf_delta fx) (rf_out fx) (- 1) w1 = (Inr stats2, w2)"
    "fuzz_ready (rf_paths fx) w2" "content w2 = (content w1)(rf_out fx \<mapsto> new)" "delta_yields D old d new"
    using created_ready_applies [OF g(1) assms(1) g(2) p(6,2,4) assms(3,4) c1 assms(5-10)] by blast
  have nf: "no_faults w1" using settledD [OF ready_settled [OF g(2)]] by blast
  have dl: "length (D m) = HASH_SIZE" for m by (simp add: strong_hash_soundD(1) [OF assms(8)] assms(10))
  have "fst (view_delta nr (rf_delta fx) w1) = 0"
    by (rule yields_viewable [OF a(4) dl ready_file [OF g(2) p(3) c1(2)] nf])
  then obtain prn err where v: "view_delta nr (rf_delta fx) w1 = (0, prn, err, w1)"
    using view_delta_quiet [OF nf, of nr "rf_delta fx"] by auto
  have r: "content w2 (rf_out fx) = Some new" "content w2 (rf_new fx) = Some new"
    using a(3) g(3) assms(4) p(8,9) by simp_all
  have "roundtrip_apply nr U fx w1 = (Inr (), w2)"
    by (simp add: roundtrip_apply_def a(1) then_read [OF a(2) p(4) r(1)] then_read [OF a(2) p(5) r(2)])
  then have "roundtrip_check nr U fx (signature_of D (rk_value rk_default) 48 Skip old)
      (signature_of D (rk_value rk_default) 48 Compute new) w = (Inr (), w2)"
    by (simp add: roundtrip_check_def g(1,4) v then_read [OF g(2) p(3) c1(2)])
  moreover have "content w2 q = content w q" if "q \<notin> rf_paths fx" for q
    using that a(3) g(3) p(3,4) by auto
  ultimately show ?thesis using a(2) by simp
qed

lemma halves_length: "length (old_half data) \<le> length data" "length (new_half data) \<le> length data"
  by (simp_all add: old_half_def new_half_def)

lemma roundtrip_reaches:
  assumes "fuzz_ready (rf_paths fx) w" and "rf_distinct fx" and "length data \<le> STREAMOFF_MAX"
    and "digest_separates D (old_half data) (new_half data)"
    and "strong_hash_sound U D msg" and "strong_hash_total U msg live" and "sh_size U = HASH_SIZE"
  shows "reaches (roundtrip_one_input nr U fx data w)
    (\<lambda>_ w'. fuzz_ready (rf_paths fx) w' \<and> (\<forall>q. q \<notin> rf_paths fx \<longrightarrow> content w' q = content w q))"
proof (cases "length data < 2")
  case False
  have p: "rf_old fx \<in> rf_paths fx" "rf_new fx \<in> rf_paths fx" "rf_delta fx \<in> rf_paths fx" "rf_out fx \<in> rf_paths fx"
    by (simp_all add: rf_paths_def)
  note h = hash_fits [OF assms(7)]
  note len = order_trans [OF halves_length(1) assms(3)] order_trans [OF halves_length(2) assms(3)]
  show ?thesis
    unfolding roundtrip_one_input_def
  proof (simp only: False if_False, rule then_write [OF assms(1) p(1)], rule then_write [OF _ p(2)], assumption,
      rule then_remove [OF _ p(3)], assumption, rule then_remove [OF _ p(4)], assumption)
    fix w1 w2 w3 w4
    assume c: "content w1 = (content w)(rf_old fx \<mapsto> old_half data)" "content w2 = (content w1)(rf_new fx \<mapsto> new_half data)"
      "content w3 = (content w2)(rf_delta fx := None)" "content w4 = (content w3)(rf_out fx := None)"
      and r: "fuzz_ready (rf_paths fx) w4"
    have o: "content w4 (rf_old fx) = Some (old_half data)" "content w4 (rf_new fx) = Some (new_half data)"
      using c assms(2) by (simp_all add: rf_distinct_def)
    have k: "content w4 q = content w q" if "q \<notin> rf_paths fx" for q using c that by (auto simp: rf_paths_def)
    have "roundtrip_sign nr U fx w4 = roundtrip_check nr U fx
        (signature_of D (rk_value rk_default) 48 Skip (old_half data))
        (signature_of D (rk_value rk_default) 48 Compute (new_half data)) w4"
      using sign_ready [OF r p(1) o(1) assms(5,6) h(1)] sign_ready [OF r p(2) o(2) assms(5,6) h(1)]
      by (simp add: roundtrip_sign_def)
    then show "reaches (roundtrip_sign nr U fx w4)
        (\<lambda>_ w'. fuzz_ready (rf_paths fx) w' \<and> (\<forall>q. q \<notin> rf_paths fx \<longrightarrow> content w' q = content w q))"
      using reaches_mono [OF roundtrip_check_reaches [OF r assms(2) o len assms(4-7), of nr]] k by simp
  qed
qed (use assms(1) in \<open>simp add: roundtrip_one_input_def\<close>)

section \<open>The target for hostile deltas\<close>

definition af_paths :: "ApplyFixture \<Rightarrow> path set" where
  "af_paths fx = {af_old fx, af_delta fx, af_out fx, af_out_again fx}"

definition af_distinct :: "ApplyFixture \<Rightarrow> bool" where
  "af_distinct fx \<longleftrightarrow> distinct [af_old fx, af_delta fx, af_out fx, af_out_again fx]"

lemma apply_fixture_distinct: "af_distinct (apply_fixture root)"
  by (simp add: af_distinct_def apply_fixture_def workspace_path_def path_append_inj)

text \<open>The workspace may be part of a larger set of files that are ready.\<close>

definition af_within :: "path set \<Rightarrow> ApplyFixture \<Rightarrow> bool" where
  "af_within ps fx \<longleftrightarrow> af_distinct fx \<and> af_paths fx \<subseteq> ps"

text \<open>What every input leaves: the workspace ready for the next one, with its old file, and no other
  file of the disk changed.\<close>

definition af_left :: "path set \<Rightarrow> ApplyFixture \<Rightarrow> bytes \<Rightarrow> world \<Rightarrow> world \<Rightarrow> bool" where
  "af_left ps fx old w w' \<longleftrightarrow> fuzz_ready ps w' \<and> content w' (af_old fx) = Some old \<and>
     (\<forall>q. q \<notin> af_paths fx \<longrightarrow> content w' q = content w q)"

lemma af_left_trans: "af_left ps fx old w1 w2 \<Longrightarrow> \<forall>q. q \<notin> af_paths fx \<longrightarrow> content w1 q = content w q \<Longrightarrow> af_left ps fx old w w2"
  by (simp add: af_left_def)

lemma apply_accepted_reaches:
  assumes "fuzz_ready ps w" and "af_within ps fx" and "content w (af_old fx) = Some old"
    and "content w (af_delta fx) = Some delta" and "content w (af_out fx) = Some bs"
    and "delta_yields D old delta bs" and "as_bytes_written stats = length bs" and "length bs \<le> unat (- 1 :: u64)"
    and "length old \<le> STREAMOFF_MAX"
    and "strong_hash_sound U D msg" and "strong_hash_total U msg live" and "sh_size U = HASH_SIZE"
  shows "reaches (apply_accepted nr U fx 0 stats w) (\<lambda>_. af_left ps fx old w)"
proof -
  have p: "{af_old fx, af_delta fx} \<subseteq> ps - {af_out_again fx}" "af_out_again fx \<in> ps" "af_out fx \<in> ps"
      "af_old fx \<noteq> af_out_again fx" "af_out_again fx \<in> af_paths fx"
    using assms(2) by (auto simp: af_within_def af_paths_def af_distinct_def)
  obtain stats2 w' where a: "apply_delta nr (rk_alg rk_default) U (af_old fx) (af_delta fx) (af_out_again fx) (- 1) w = (Inr stats2, w')"
    "fuzz_ready ps w'" "content w' = (content w)(af_out_again fx \<mapsto> bs)"
    using apply_ready_complete [OF assms(6,8,1) p(1,2) assms(3,4,9-11) hash_fits(1) [OF assms(12)]] by blast
  have c: "content w' (af_out_again fx) = Some bs" using a(3) by simp
  have "apply_accepted nr U fx 0 stats w = (Inr (), w')"
    by (simp add: apply_accepted_def then_read [OF assms(1) p(3) assms(5)] assms(7) a(1) then_read [OF a(2) p(2) c])
  moreover have "af_left ps fx old w w'" using a(2,3) assms(3) p by (auto simp: af_left_def)
  ultimately show ?thesis by simp
qed

lemma apply_rejected_reaches:
  assumes "fuzz_ready ps w" and "af_out fx \<in> ps" and "content w (af_out fx) = (if existing then Some sentinel else None)"
  shows "apply_rejected existing fx w = (Inr (), w)"
proof (cases existing)
  case True
  then have "content w (af_out fx) = Some sentinel" using assms(3) by simp
  then show ?thesis using True by (simp add: apply_rejected_def then_read [OF assms(1,2)])
next
  case False
  then show ?thesis using assms(3) by (simp add: apply_rejected_def then_exists [OF assms(1,2)])
qed

lemma apply_viewed_reaches:
  assumes "fuzz_ready ps w" and "af_within ps fx" and "content w (af_old fx) = Some old"
    and "content w (af_delta fx) = Some delta" and "content w (af_out fx) = None"
    and "\<forall>bs. delta_yields D old delta bs \<longrightarrow> viewed = 0" and "length old \<le> STREAMOFF_MAX"
    and "strong_hash_sound U D msg" and "strong_hash_total U msg live" and "sh_size U = HASH_SIZE"
  shows "reaches (apply_viewed nr U fx existing viewed w) (\<lambda>_. af_left ps fx old w)"
proof -
  have p: "af_old fx \<in> ps" "af_delta fx \<in> ps" "af_out fx \<in> ps"
      "af_old fx \<noteq> af_out fx" "af_delta fx \<noteq> af_out fx" "af_out fx \<in> af_paths fx"
    using assms(2) by (auto simp: af_within_def af_paths_def af_distinct_def)
  have main: "reaches (case apply_delta nr (rk_alg rk_default) U (af_old fx) (af_delta fx) (af_out fx) (- 1) w1 of
        (Inl _, w2) \<Rightarrow> apply_rejected existing fx w2
      | (Inr stats, w2) \<Rightarrow> apply_accepted nr U fx viewed stats w2) (\<lambda>_. af_left ps fx old w)"
    if w1: "fuzz_ready ps w1" "content w1 = (content w)(af_out fx := if existing then Some sentinel else None)" for w1
  proof -
    have c1: "content w1 (af_old fx) = Some old" "content w1 (af_delta fx) = Some delta"
      "\<forall>q. q \<notin> af_paths fx \<longrightarrow> content w1 q = content w q"
      using w1(2) assms(3,4) p by auto
    obtain r w2 where r: "apply_delta nr (rk_alg rk_default) U (af_old fx) (af_delta fx) (af_out fx) (- 1) w1 = (r, w2)" by fastforce
    show ?thesis
    proof (cases r)
      case (Inl e)
      then have "restored w1 w2" using apply_delta_settled [OF r ready_settled [OF w1(1)]] by simp
      note rs = ready_restored [OF w1(1) this]
      have "apply_rejected existing fx w2 = (Inr (), w2)"
        by (rule apply_rejected_reaches [OF rs(1) p(3)]) (simp add: rs(2) w1(2))
      then show ?thesis using r Inl rs c1 by (simp add: af_left_def)
    next
      case (Inr stats)
      obtain bs where b: "fuzz_ready ps w2" "content w2 = (content w1)(af_out fx \<mapsto> bs)"
        "as_bytes_written stats = length bs" "delta_yields D old delta bs" "length bs \<le> unat (- 1 :: u64)"
        using apply_ready_sound [OF r [unfolded Inr] w1(1) p(1-3) c1(1,2) assms(8) hash_fits(1) [OF assms(10)]] by blast
      have c2: "content w2 (af_old fx) = Some old" "content w2 (af_delta fx) = Some delta" "content w2 (af_out fx) = Some bs"
        using b(2) c1 p(4,5) by simp_all
      have "reaches (apply_accepted nr U fx 0 stats w2) (\<lambda>_. af_left ps fx old w2)"
        by (rule apply_accepted_reaches [OF b(1) assms(2) c2 b(4,3,5) assms(7-10)])
      then have "reaches (apply_accepted nr U fx 0 stats w2) (\<lambda>_. af_left ps fx old w)"
        by (rule reaches_mono) (rule af_left_trans, assumption, use b(2) c1(3) p(6) in auto)
      moreover have "viewed = 0" using assms(6) b(4) by blast
      ultimately show ?thesis using r Inr by simp
    qed
  qed
  show ?thesis
  proof (cases existing)
    case True
    then show ?thesis
      unfolding apply_viewed_def if_P [OF True]
      by (intro then_write [OF assms(1) p(3)] main) (simp_all add: True)
  next
    case False
    show ?thesis
      unfolding apply_viewed_def if_not_P [OF False] and_run_Inr
      by (rule main [OF assms(1)]) (simp add: False assms(5) fun_upd_idem)
  qed
qed

lemma apply_target_reaches:
  assumes "fuzz_ready ps w" and "af_within ps fx" and "content w (af_old fx) = Some old" and "length old \<le> STREAMOFF_MAX"
    and "strong_hash_sound U D msg" and "strong_hash_total U msg live" and "sh_size U = HASH_SIZE"
  shows "reaches (apply_one_input nr U fx data w) (\<lambda>_. af_left ps fx old w)"
proof -
  have p: "af_delta fx \<in> ps" "af_out fx \<in> ps" "af_out_again fx \<in> ps"
      "af_old fx \<noteq> af_delta fx" "af_old fx \<noteq> af_out fx" "af_old fx \<noteq> af_out_again fx"
      "af_delta fx \<noteq> af_out fx" "af_delta fx \<noteq> af_out_again fx" "af_out fx \<noteq> af_out_again fx"
      "{af_delta fx, af_out fx, af_out_again fx} \<subseteq> af_paths fx"
    using assms(2) by (auto simp: af_within_def af_paths_def af_distinct_def)
  show ?thesis
    unfolding apply_one_input_def
  proof (rule then_write [OF assms(1) p(1)], rule then_remove [OF _ p(2)], assumption, rule then_remove [OF _ p(3)], assumption)
    fix w1 w2 w3
    assume c: "content w1 = (content w)(af_delta fx \<mapsto> data)" "content w2 = (content w1)(af_out fx := None)"
      "content w3 = (content w2)(af_out_again fx := None)" and r: "fuzz_ready ps w3"
    have c3: "content w3 (af_old fx) = Some old" "content w3 (af_delta fx) = Some data" "content w3 (af_out fx) = None"
      "\<forall>q. q \<notin> af_paths fx \<longrightarrow> content w3 q = content w q"
      using c assms(3) p by auto
    have nf: "no_faults w3" using settledD [OF ready_settled [OF r]] by blast
    obtain prn err where v: "view_delta nr (af_delta fx) w3 = (fst (view_delta nr (af_delta fx) w3), prn, err, w3)"
      using view_delta_quiet [OF nf] by blast
    have dl: "length (D m) = HASH_SIZE" for m by (simp add: strong_hash_soundD(1) [OF assms(5)] assms(7))
    have vw: "\<forall>bs. delta_yields D old data bs \<longrightarrow> fst (view_delta nr (af_delta fx) w3) = 0"
      by (intro allI impI) (rule yields_viewable [OF _ dl ready_file [OF r p(1) c3(2)] nf])
    from apply_viewed_reaches [where D = D, OF r assms(2) c3(1-3) vw assms(4-7)]
    have "reaches (apply_viewed nr U fx (odd (length data)) (fst (view_delta nr (af_delta fx) w3)) w3) (\<lambda>_. af_left ps fx old w)"
      by (rule reaches_mono) (rule af_left_trans [OF _ c3(4)])
    then show "reaches (case view_delta nr (af_delta fx) w3 of (viewed, _, _, w4) \<Rightarrow>
        apply_viewed nr U fx (odd (length data)) viewed w4) (\<lambda>_. af_left ps fx old w)"
      by (subst v) simp
  qed
qed

section \<open>Replaying any number of inputs\<close>

lemma read_file_ready:
  assumes "no_faults w" and "file_at w p bs"
  shows "read_file p w = (Inr bs, w)"
proof -
  obtain n where n: "node_at w p = Some n" "nd_kind n = Regular" "nd_data n = bs" using assms(2) by (auto simp: file_at_def)
  then have "stream_open p IN False w = (opened_stream bs [], w)"
    by (simp add: stream_open_def no_faults_take assms(1))
  then show ?thesis by (simp add: read_file_def opened_stream_def st_read_def st_defs)
qed

lemma replay_passes:
  assumes "\<And>w data. keep w \<Longrightarrow> data \<in> set inputs \<Longrightarrow> reaches (target data w) (\<lambda>_. keep)"
    and "\<And>w. keep w \<Longrightarrow> \<forall>(p, data) \<in> set (zip args inputs). read_file p w = (Inr data, w)"
    and "length args = length inputs" and "keep w"
  shows "reaches (replay_loop target k args w) (\<lambda>r w'. r = Inr (k + length args) \<and> keep w')"
  using assms
proof (induction args inputs arbitrary: k w rule: list_induct2')
  case (4 p args data inputs)
  have r: "read_file p w = (Inr data, w)" using "4.prems"(2,4) by fastforce
  obtain w1 where w1: "target data w = (Inr (), w1)" "keep w1"
    using "4.prems"(1) [OF "4.prems"(4), of data] by (auto simp: reaches_def)
  have "reaches (replay_loop target (Suc k) args w1) (\<lambda>r w'. r = Inr (Suc k + length args) \<and> keep w')"
  proof (rule "4.IH")
    show "reaches (target d v) (\<lambda>_. keep)" if "keep v" "d \<in> set inputs" for v d using "4.prems"(1) that by simp
    show "\<forall>(p, data) \<in> set (zip args inputs). read_file p v = (Inr data, v)" if "keep v" for v using "4.prems"(2) [OF that] by simp
  qed (use "4.prems"(3) w1(2) in simp_all)
  then show ?case using r w1(1) by simp
qed simp_all

text \<open>The inputs lie outside of the workspace, and are ready as it is.\<close>

definition inputs_at :: "world \<Rightarrow> path set \<Rightarrow> path list \<Rightarrow> bytes list \<Rightarrow> bool" where
  "inputs_at w ps args inputs \<longleftrightarrow> length args = length inputs \<and>
     (\<forall>(p, data) \<in> set (zip args inputs). p \<notin> ps \<and> content w p = Some data)"

section \<open>Properties of the targets\<close>

text \<open>C10 The round trip target never finds a violation: for every input whose halves the truncated digest
  tells apart, on a workspace without faults, it writes, signs, generates, views and applies and returns,
  leaving the workspace ready for the next input and every other file of the disk as it was.\<close>

theorem roundtrip_target_never_fails:
  assumes "fuzz_ready (rf_paths (roundtrip_fixture root)) w" and "length data \<le> STREAMOFF_MAX"
    and "digest_separates D (old_half data) (new_half data)"
    and "strong_hash_sound U D msg" and "strong_hash_total U msg live" and "sh_size U = HASH_SIZE"
  shows "reaches (roundtrip_one_input nr U (roundtrip_fixture root) data w)
    (\<lambda>_ w'. fuzz_ready (rf_paths (roundtrip_fixture root)) w' \<and>
       (\<forall>q. q \<notin> rf_paths (roundtrip_fixture root) \<longrightarrow> content w' q = content w q))"
  by (rule roundtrip_reaches [OF assms(1) roundtrip_fixture_distinct assms(2-6)])

text \<open>A disk of some files is ready for a workspace whose names it does not have.\<close>

lemma fixture_names: "p \<in> rf_paths (roundtrip_fixture root) \<union> af_paths (apply_fixture root) \<Longrightarrow>
    \<not> staged_name p \<and> filename p \<noteq> []"
proof -
  have k: "\<not> staged_name (path_append root name) \<and> filename (path_append root name) \<noteq> []"
    if "name \<noteq> []" "CHR ''/'' \<notin> set name" "\<not> is_digit (last name)" for name
    using staged_name_last [of "path_append root name"] filename_append [OF that(2), of root] path_append_last [OF that(1), of root] that
    by metis
  assume "p \<in> rf_paths (roundtrip_fixture root) \<union> af_paths (apply_fixture root)"
  then have "p \<in> path_append root ` {''old.bin'', ''new.bin'', ''gen.delta'', ''out.bin'', ''input.delta'', ''out2.bin''}"
    by (auto simp: rf_paths_def roundtrip_fixture_def af_paths_def apply_fixture_def workspace_path_def)
  then obtain name where p: "p = path_append root name" and m: "name \<in> {''old.bin'', ''new.bin'', ''gen.delta'', ''out.bin'', ''input.delta'', ''out2.bin''}"
    by (rule imageE)
  have n: "name \<noteq> []" "CHR ''/'' \<notin> set name" "\<not> is_digit (last name)" using m by (auto simp: is_digit_def)
  show ?thesis unfolding p by (rule k [OF n])
qed

lemma ready_start:
  assumes "settled w" and "\<forall>p. staged_name p \<longrightarrow> w_names w p = None" and "\<forall>p \<in> ps. \<not> staged_name p \<and> filename p \<noteq> []"
    and "\<forall>p \<in> ps. w_names w p = None"
  shows "fuzz_ready ps w"
  using assms by (simp add: fuzz_ready_def own_file_def)

theorem roundtrip_target_never_fails_witness:
  "reaches (roundtrip_one_input True sample_hash (roundtrip_fixture ''t'') [0, 1, 1, 2] (world_of [])) (\<lambda>_ w'. True)"
proof -
  have h: "old_half [0, 1, 1, 2] = [1]" "new_half [0, 1, 1, 2] = [2]" by (simp_all add: old_half_def new_half_def split_point_def)
  have "fuzz_ready (rf_paths (roundtrip_fixture ''t'')) (world_of [])"
    using fixture_names by (intro ready_start settled_world_of) (auto simp: world_of_def)
  then have "reaches (roundtrip_one_input True sample_hash (roundtrip_fixture ''t'') [0, 1, 1, 2] (world_of []))
    (\<lambda>_ w'. fuzz_ready (rf_paths (roundtrip_fixture ''t'')) w' \<and>
       (\<forall>q. q \<notin> rf_paths (roundtrip_fixture ''t'') \<longrightarrow> content w' q = content (world_of []) q))"
    by (rule roundtrip_target_never_fails [OF _ _ _ record_alg_sound record_alg_total])
      (simp_all add: h sample_separates STREAMOFF_MAX_def blake_alg_def)
  then show ?thesis by (rule reaches_mono) simp
qed

text \<open>C11 The target for hostile deltas never finds a violation, for any bytes whatever: the viewer accepts what
  the applier accepts, the applier is deterministic and reports the size it wrote, and when it refuses
  a delta the destination keeps its bytes or does not come into being.  So a replay of any number of
  recorded inputs ends with exit status 0.\<close>

theorem apply_target_never_fails:
  assumes "fuzz_ready (af_paths (apply_fixture root) \<union> set args) w"
    and "content w (af_old (apply_fixture root)) = Some make_old_content"
    and "inputs_at w (af_paths (apply_fixture root)) args inputs" and "args \<noteq> []"
    and "strong_hash_sound U D msg" and "strong_hash_total U msg live" and "sh_size U = HASH_SIZE"
  shows "reaches (replay_main (apply_one_input nr U (apply_fixture root)) stdin (prog # args) w)
    (\<lambda>printed w'. printed = (0, ''replayed '' @ to_dec (length args) @ '' input(s) with no invariant violations'' @ newline, []) \<and>
       (\<forall>q. q \<notin> af_paths (apply_fixture root) \<longrightarrow> content w' q = content w q))"
proof -
  let ?fx = "apply_fixture root"
  let ?ps = "af_paths ?fx \<union> set args"
  let ?inv = "af_left ?ps ?fx make_old_content w"
  have len: "length make_old_content \<le> STREAMOFF_MAX" by (simp add: STREAMOFF_MAX_def)
  have fx: "af_within ?ps ?fx" by (simp add: af_within_def apply_fixture_distinct)
  have step: "reaches (apply_one_input nr U ?fx data v) (\<lambda>_. ?inv)" if "?inv v" for v data
  proof (rule reaches_mono [OF apply_target_reaches [OF _ fx _ len assms(5-7)]])
    show "?inv v'" if "af_left ?ps ?fx make_old_content v v'" for v'
      using that \<open>?inv v\<close> by (simp add: af_left_def)
  qed (use that in \<open>simp_all add: af_left_def\<close>)
  have rd: "\<forall>(p, data) \<in> set (zip args inputs). read_file p v = (Inr data, v)" if "?inv v" for v
  proof clarify
    fix p data assume z: "(p, data) \<in> set (zip args inputs)"
    have v: "fuzz_ready ?ps v" "content v p = Some data" "p \<in> ?ps"
      using that assms(3) z by (auto simp: af_left_def inputs_at_def dest: set_zip_leftD)
    have "no_faults v" using settledD [OF ready_settled [OF v(1)]] by blast
    then show "read_file p v = (Inr data, v)" by (rule read_file_ready [OF _ ready_file [OF v(1,3,2)]])
  qed
  have "reaches (replay_loop (apply_one_input nr U ?fx) 0 args w) (\<lambda>r w'. r = Inr (0 + length args) \<and> ?inv w')"
    by (rule replay_passes [OF step rd]) (use assms(1-3) in \<open>simp_all add: inputs_at_def af_left_def\<close>)
  then show ?thesis using assms(4) by (cases args) (auto simp: replay_main_def reaches_def af_left_def)
qed

text \<open>A workspace with its old file written, and one input beside it.\<close>

theorem apply_target_never_fails_witness:
  "\<exists>w. content w ''i'' = Some [7] \<and> reaches (replay_main (apply_one_input True sample_hash (apply_fixture ''t'')) [] [''replay'', ''i''] w)
     (\<lambda>printed w'. fst printed = 0)"
proof -
  let ?fx = "apply_fixture ''t''"
  define w where "w = world_of [(af_old ?fx, make_old_content), (''i'', [7])]"
  have n: "af_old ?fx \<noteq> ''i''" "''i'' \<notin> af_paths ?fx" "\<not> is_digit (last ''i'')"
    by (auto simp: af_paths_def apply_fixture_def workspace_path_def path_append_def is_digit_def)
  have own: "own_file w p" for p
    using n(1) by (auto simp: own_file_def w_def world_of_def new_node_def upt_rec split: if_splits)
  have st: "w_names w p = None" if "staged_name p" for p
  proof -
    have "p \<noteq> ''i''" using that staged_name_last n(3) by blast
    moreover have "p \<noteq> af_old ?fx" using that fixture_names [of "af_old ?fx" "''t''"] by (auto simp: af_paths_def)
    ultimately show ?thesis by (simp add: w_def world_of_def upt_rec)
  qed
  have "\<not> staged_name ''i''" using staged_name_last n(3) by blast
  then have "\<forall>p \<in> af_paths ?fx \<union> set [''i'']. \<not> staged_name p \<and> filename p \<noteq> []"
    using fixture_names by (auto simp: filename_def)
  then have r: "fuzz_ready (af_paths ?fx \<union> set [''i'']) w"
    using own st settled_world_of by (simp add: fuzz_ready_def w_def)
  have c: "content w (af_old ?fx) = Some make_old_content" "content w ''i'' = Some [7]"
    using n(1) by (auto simp: w_def content_def node_at_def world_of_def new_node_def upt_rec)
  have "inputs_at w (af_paths ?fx) [''i''] [[7]]" using n(2) c(2) by (simp add: inputs_at_def)
  from apply_target_never_fails [OF r c(1) this _ record_alg_sound record_alg_total]
  have "reaches (replay_main (apply_one_input True sample_hash ?fx) [] [''replay'', ''i''] w) (\<lambda>printed w'. fst printed = 0)"
    by (rule reaches_mono) (simp_all add: blake_alg_def)
  then show ?thesis using c(2) by blast
qed

end
