(* ===== verification/Fuzz_Process.thy ===== *)
theory Fuzz_Process imports Fuzz_Targets begin

text \<open>
  A fuzz target as a process: the fixture that the first input constructs and the exit destroys
  (\<open>fixture\<close> of \<^verbatim>\<open>src/fuzz/fuzz_apply.cpp\<close> and \<^verbatim>\<open>src/fuzz/fuzz_roundtrip.cpp\<close>), the destructor of the
  workspace and the sink that keeps a view from printing (\<^verbatim>\<open>src/fuzz/FuzzWorkspace.hpp\<close>).  The theorem says
  that a process fed with any inputs leaves the disk as it found it.
\<close>

section \<open>The destructor of the workspace\<close>

definition below :: "path \<Rightarrow> path \<Rightarrow> bool" where
  "below root p \<longleftrightarrow> p = root \<or> (let pre = path_append root [] in take (length pre) p = pre)"

text \<open>\<open>remove_all\<close> with an error code: the name and all names below it.  When it fails, the names for which
  \<open>kept\<close> holds are those that the system had not removed.\<close>

definition fs_remove_all :: "(path \<Rightarrow> bool) \<Rightarrow> path \<Rightarrow> world \<Rightarrow> world" where
  "fs_remove_all kept root w =
     (case take_fault w of (e, w1) \<Rightarrow>
        w1\<lparr>w_names := (\<lambda>p. if below root p \<and> (e = None \<or> \<not> kept p) then None else w_names w1 p)\<rparr>)"

definition workspace_destroy :: "(path \<Rightarrow> bool) \<Rightarrow> path \<Rightarrow> world \<Rightarrow> world" where
  "workspace_destroy kept root w = fs_remove_all kept root w"

section \<open>The sink for output\<close>

text \<open>The buffers behind \<open>std::cout\<close> and \<open>std::cerr\<close>, one of which may be the sink, and what a terminal shows.\<close>

datatype streambuf = Terminal nat | Sink

record std_streams =
  cout_buf :: streambuf
  cerr_buf :: streambuf
  shown :: "nat \<Rightarrow> string"

text \<open>\<open>sputn\<close>: how many characters were taken; a stream fails when they are fewer than it passed.\<close>

definition streambuf_put :: "streambuf \<Rightarrow> string \<Rightarrow> std_streams \<Rightarrow> nat \<times> std_streams" where
  "streambuf_put b s io = (case b of
     Terminal i \<Rightarrow> (length s, io\<lparr>shown := (shown io)(i := shown io i @ s)\<rparr>)
   | Sink \<Rightarrow> (length s, io))"

record SuppressStdout =
  saved :: streambuf
  errors :: streambuf

definition suppress_new :: "std_streams \<Rightarrow> SuppressStdout \<times> std_streams" where
  "suppress_new io = (\<lparr>saved = cout_buf io, errors = cerr_buf io\<rparr>, io\<lparr>cout_buf := Sink, cerr_buf := Sink\<rparr>)"

definition suppress_destroy :: "SuppressStdout \<Rightarrow> std_streams \<Rightarrow> std_streams" where
  "suppress_destroy q io = io\<lparr>cout_buf := saved q, cerr_buf := errors q\<rparr>"

text \<open>The block of a target that views a delta: status, the standard streams and the disk.\<close>

definition quiet_view :: "bool \<Rightarrow> path \<Rightarrow> std_streams \<Rightarrow> world \<Rightarrow> nat \<times> std_streams \<times> world" where
  "quiet_view nr p io w =
     (case suppress_new io of (q, io1) \<Rightarrow>
      case view_delta nr p w of (status, text1, text2, w1) \<Rightarrow>
      case streambuf_put (cout_buf io1) text1 io1 of (_, io2) \<Rightarrow>
      case streambuf_put (cerr_buf io2) text2 io2 of (_, io3) \<Rightarrow>
        (status, suppress_destroy q io3, w1))"

lemma quiet_view_silent: "quiet_view nr p io w = (case view_delta nr p w of (status, _, _, w1) \<Rightarrow> (status, io, w1))"
  by (simp add: quiet_view_def suppress_new_def suppress_destroy_def streambuf_put_def split: prod.split)

section \<open>The process\<close>

text \<open>The static fixture, with the directory of its workspace once it is constructed, and the disk.\<close>

type_synonym 'f fuzz_process = "(path \<times> 'f) option \<times> world"

text \<open>When the constructor of a fixture throws, the workspace, a member that is already constructed, is
  destroyed.\<close>

definition fixture_get ::
  "path \<Rightarrow> (path \<Rightarrow> bool) \<Rightarrow> (path \<Rightarrow> world \<Rightarrow> 'f fuzz_run) \<Rightarrow> 'f fuzz_process \<Rightarrow> (fuzz_stop, 'f, 'f fuzz_process) outcome" where
  "fixture_get tmp kept build s =
     (case s of
        (Some (root, fx), w) \<Rightarrow> (Inr fx, s)
      | (None, w) \<Rightarrow>
          (case escaping (workspace_new tmp w) of
             (Inl e, w1) \<Rightarrow> (Inl e, (None, w1))
           | (Inr root, w1) \<Rightarrow>
               (case build root w1 of
                  (Inl e, w2) \<Rightarrow> (Inl e, (None, workspace_destroy kept root w2))
                | (Inr fx, w2) \<Rightarrow> (Inr fx, (Some (root, fx), w2)))))"

definition roundtrip_fixture_new :: "path \<Rightarrow> world \<Rightarrow> RoundtripFixture fuzz_run" where
  "roundtrip_fixture_new root w = (Inr (roundtrip_fixture root), w)"

definition on_disk :: "('f \<Rightarrow> world \<Rightarrow> unit fuzz_run) \<Rightarrow> 'f \<Rightarrow> 'f fuzz_process \<Rightarrow> (fuzz_stop, unit, 'f fuzz_process) outcome" where
  "on_disk go fx s = (case s of (ws, w) \<Rightarrow> (case go fx w of (r, w1) \<Rightarrow> (r, (ws, w1))))"

definition apply_call ::
  "bool \<Rightarrow> 'u strong_hash \<Rightarrow> path \<Rightarrow> (path \<Rightarrow> bool) \<Rightarrow> bytes \<Rightarrow> ApplyFixture fuzz_process \<Rightarrow>
    (fuzz_stop, unit, ApplyFixture fuzz_process) outcome" where
  "apply_call nr U tmp kept data s =
     and_run (fixture_get tmp kept apply_fixture_new s) (on_disk (\<lambda>fx. apply_one_input nr U fx data))"

text \<open>An input that is too short returns before it asks for the fixture.\<close>

definition roundtrip_call ::
  "bool \<Rightarrow> 'u strong_hash \<Rightarrow> path \<Rightarrow> (path \<Rightarrow> bool) \<Rightarrow> bytes \<Rightarrow> RoundtripFixture fuzz_process \<Rightarrow>
    (fuzz_stop, unit, RoundtripFixture fuzz_process) outcome" where
  "roundtrip_call nr U tmp kept data s =
     (if length data < 2 then (Inr (), s)
      else and_run (fixture_get tmp kept roundtrip_fixture_new s) (on_disk (\<lambda>fx. roundtrip_one_input nr U fx data)))"

text \<open>The engine calls the target on one input after the other.  At exit the static fixture is destroyed;
  \<open>std::abort\<close>, also on an exception that nothing catches, runs no destructor.\<close>

fun fuzz_calls :: "(bytes \<Rightarrow> 's \<Rightarrow> ('e, unit, 's) outcome) \<Rightarrow> bytes list \<Rightarrow> 's \<Rightarrow> ('e, unit, 's) outcome" where
  "fuzz_calls call [] s = (Inr (), s)"
| "fuzz_calls call (d # ds) s = and_run (call d s) (\<lambda>_. fuzz_calls call ds)"

definition process_exit :: "(path \<Rightarrow> bool) \<Rightarrow> 'f fuzz_process \<Rightarrow> world" where
  "process_exit kept s = (case s of (None, w) \<Rightarrow> w | (Some (root, _), w) \<Rightarrow> workspace_destroy kept root w)"

definition fuzz_process_run ::
  "(path \<Rightarrow> bool) \<Rightarrow> (bytes \<Rightarrow> 'f fuzz_process \<Rightarrow> (fuzz_stop, unit, 'f fuzz_process) outcome) \<Rightarrow> bytes list \<Rightarrow> world \<Rightarrow> unit fuzz_run" where
  "fuzz_process_run kept call inputs w =
     (case fuzz_calls call inputs (None, w) of
        (Inl e, s) \<Rightarrow> (Inl e, snd s)
      | (Inr _, s) \<Rightarrow> (Inr (), process_exit kept s))"

section \<open>A new workspace\<close>

text \<open>What the destructor of a workspace at \<open>root\<close> leaves of a disk that had \<open>w\<close> below nothing: a name is there
  if it was there.\<close>

definition outside_kept :: "path \<Rightarrow> world \<Rightarrow> world \<Rightarrow> bool" where
  "outside_kept root w w' \<longleftrightarrow> (\<forall>q. \<not> below root q \<longrightarrow> content w' q = content w q)"

definition unused_below :: "path \<Rightarrow> world \<Rightarrow> bool" where
  "unused_below root w \<longleftrightarrow> (\<forall>q. below root q \<longrightarrow> w_names w q = None)"

lemma below_refl: "below root root" and below_append: "below root (path_append root name)"
  by (auto simp: below_def Let_def path_append_def)

lemma workspace_paths_below: "p \<in> rf_paths (roundtrip_fixture root) \<union> af_paths (apply_fixture root) \<Longrightarrow> below root p"
  by (auto simp: rf_paths_def roundtrip_fixture_def af_paths_def apply_fixture_def workspace_path_def below_append)

lemma path_append_neq: "name \<noteq> [] \<Longrightarrow> path_append dir name \<noteq> dir"
  by (auto simp: path_append_def)

lemma workspace_paths_new:
  assumes "p \<in> rf_paths (roundtrip_fixture root) \<union> af_paths (apply_fixture root)"
  shows "below root p \<and> p \<noteq> root \<and> \<not> staged_name p \<and> filename p \<noteq> []"
proof -
  have "p \<noteq> root"
    using assms not_sym [OF path_append_neq [of _ root]]
    by (auto simp: rf_paths_def roundtrip_fixture_def af_paths_def apply_fixture_def workspace_path_def)
  then show ?thesis using workspace_paths_below [OF assms] fixture_names [OF assms] by blast
qed

definition made_directory :: "path \<Rightarrow> world \<Rightarrow> world \<Rightarrow> bool" where
  "made_directory root w w' \<longleftrightarrow> w_names w root = None \<and> w_names w' = (w_names w)(root \<mapsto> w_next w) \<and>
     w_nodes w' = (w_nodes w)(w_next w := new_node\<lparr>nd_kind := Directory\<rparr>) \<and> w_next w' = Suc (w_next w) \<and>
     w_errs w' = w_errs w \<and> w_plans w' = w_plans w \<and> w_slots w' = w_slots w"

lemma workspace_new_makes:
  assumes "no_faults w" and "workspace_new tmp w = (Inr root, w')"
  shows "made_directory root w w'"
proof -
  have "made_directory root w w'" if "no_faults w" "workspace_attempts n tmp w = (Inr root, w')" for n w
    using that
  proof (induction n arbitrary: w)
    case (Suc n)
    obtain r1 w1 r2 w2 where r: "take_random w = (r1, w1)" "take_random w1 = (r2, w2)" by (metis prod.exhaust)
    have w2: "w_names w2 = w_names w" "w_nodes w2 = w_nodes w" "w_next w2 = w_next w" "w_errs w2 = w_errs w"
      "w_plans w2 = w_plans w" "w_slots w2 = w_slots w"
      using r by (auto simp: take_random_def split: list.splits)
    then have nf: "no_faults w2" using Suc.prems(1) by (simp add: no_faults_def)
    let ?c = "path_append tmp (''rh_fuzz_'' @ to_dec r1 @ ''_'' @ to_dec r2)"
    show ?case
    proof (cases "node_at w2 ?c")
      case None
      then have "w_names w2 ?c = None" by (simp add: node_at_def split: option.splits)
      moreover have "root = ?c" "w' = w2\<lparr>w_names := (w_names w2)(?c \<mapsto> w_next w2),
          w_nodes := (w_nodes w2)(w_next w2 := new_node\<lparr>nd_kind := Directory\<rparr>), w_next := Suc (w_next w2)\<rparr>"
        using Suc.prems(2) None r by (auto simp: fs_create_directory_def no_faults_take nf Let_def)
      ultimately show ?thesis using w2 by (simp add: made_directory_def)
    next
      case (Some n')
      then have "workspace_attempts n tmp w2 = (Inr root, w')"
        using Suc.prems(2) Some r by (simp add: fs_create_directory_def no_faults_take nf Let_def split: if_splits)
      from Suc.IH [OF nf this] show ?thesis using w2 by (simp add: made_directory_def)
    qed
  qed simp
  with assms show ?thesis unfolding workspace_new_def by blast
qed

text \<open>A disk that is ready for the first input: no faults, and no leftover of an interrupted run.\<close>

definition clean_disk :: "world \<Rightarrow> bool" where
  "clean_disk w \<longleftrightarrow> settled w \<and> (\<forall>p. staged_name p \<longrightarrow> w_names w p = None)"

lemma new_workspace_ready:
  assumes "clean_disk w" and "workspace_new tmp w = (Inr root, w')" and "unused_below root w" and "\<not> staged_name root"
    and "\<forall>p \<in> ps. below root p \<and> p \<noteq> root \<and> \<not> staged_name p \<and> filename p \<noteq> []"
  shows "fuzz_ready ps w'" and "outside_kept root w w'"
proof -
  have s: "no_faults w" "wf_world w" "\<forall>s \<in> set (w_slots w). s = None" using assms(1) by (simp_all add: clean_disk_def settled_def)
  have m: "w_names w' = (w_names w)(root \<mapsto> w_next w)" "w_next w' = Suc (w_next w)" "w_errs w' = w_errs w"
      "w_plans w' = w_plans w" "w_slots w' = w_slots w" and k: "nodes_kept w w'"
    using workspace_new_makes [OF s(1) assms(2)] by (simp_all add: made_directory_def nodes_kept_def)
  have "wf_world w'" using s(2) m by (auto simp: wf_world_def less_Suc_eq)
  then have "settled w'" using s m by (simp add: settled_def no_faults_def)
  moreover have "\<forall>p. staged_name p \<longrightarrow> w_names w' p = None" using assms(1,4) m(1) by (auto simp: clean_disk_def)
  moreover have "w_names w' p = None" if "p \<in> ps" for p using assms(3,5) that m(1) by (simp add: unused_below_def)
  ultimately show "fuzz_ready ps w'" using assms(5) by (intro ready_start) blast+
  from content_new [OF s(2) m(1) k] have "content w' = (content w)(root \<mapsto> nd_data (w_nodes w' (w_next w)))" .
  then show "outside_kept root w w'" using below_refl by (auto simp: outside_kept_def)
qed

lemma workspace_destroy_restores:
  assumes "no_faults w'" and "outside_kept root w w'" and "unused_below root w"
  shows "content (workspace_destroy kept root w') = content w"
proof
  fix q
  show "content (workspace_destroy kept root w') q = content w q"
    using assms(2,3)
    by (auto simp: workspace_destroy_def fs_remove_all_def no_faults_take assms(1) content_def node_at_def
        outside_kept_def unused_below_def)
qed

lemma workspace_new_name:
  "workspace_attempts n tmp w = (Inr root, w') \<Longrightarrow> \<exists>r1 r2. root = path_append tmp (''rh_fuzz_'' @ to_dec r1 @ ''_'' @ to_dec r2)"
  by (induction n arbitrary: w) (auto simp: Let_def split: prod.splits sum.splits bool.splits)

lemma to_dec_digits: "c \<in> set (to_dec n) \<Longrightarrow> is_digit c"
proof (induction n rule: to_dec.induct)
  case (1 n)
  have d: "is_digit (char_of (48 + m))" if "m < 10" for m :: nat using that by (simp add: is_digit_def of_char_of)
  show ?case
  proof (cases "n < 10")
    case True
    then show ?thesis using "1.prems" d [of n] by (simp add: to_dec.simps [of n])
  next
    case False
    then show ?thesis using "1.prems" "1.IH" d [of "n mod 10"] by (auto simp: to_dec.simps [of n])
  qed
qed

lemma workspace_not_staged:
  assumes "workspace_new tmp w = (Inr root, w')"
  shows "\<not> staged_name root"
proof
  assume "staged_name root"
  then obtain dir r1 r2 k where a: "root = path_append dir (''.rolling_hash-'' @ to_dec r1 @ ''-'' @ to_dec r2 @ ''-'' @ to_dec k)"
    unfolding staged_name_def by blast
  obtain s1 s2 where b: "root = path_append tmp (''rh_fuzz_'' @ to_dec s1 @ ''_'' @ to_dec s2)"
    using workspace_new_name assms unfolding workspace_new_def by blast
  have "CHR ''/'' \<notin> set (to_dec n)" for n using to_dec_digits [of "CHR ''/''" n] by (auto simp: is_digit_def)
  then have "filename root = ''.rolling_hash-'' @ to_dec r1 @ ''-'' @ to_dec r2 @ ''-'' @ to_dec k"
    and "filename root = ''rh_fuzz_'' @ to_dec s1 @ ''_'' @ to_dec s2"
    by (subst a, subst filename_append, simp_all) (subst b, subst filename_append, simp_all)
  then show False by simp
qed

section \<open>A process leaves nothing\<close>

lemma fuzz_calls_keep:
  assumes "\<And>s d. keep s \<Longrightarrow> d \<in> set inputs \<Longrightarrow> reaches (call d s) (\<lambda>_. keep)" and "keep s"
  shows "reaches (fuzz_calls call inputs s) (\<lambda>_. keep)"
  using assms
proof (induction inputs arbitrary: s)
  case (Cons d ds)
  have "reaches (call d s) (\<lambda>_. keep)" using Cons.prems by simp
  then obtain s1 where "call d s = (Inr (), s1)" "keep s1" by (auto simp: reaches_def)
  with Cons show ?case by simp
qed simp

text \<open>The state between two inputs: nothing constructed and the disk as it was, or the fixture of the
  workspace at \<open>root\<close>, whose files are ready, and everything outside as it was.\<close>

definition process_at :: "path \<Rightarrow> 'f \<Rightarrow> (world \<Rightarrow> bool) \<Rightarrow> world \<Rightarrow> 'f fuzz_process \<Rightarrow> bool" where
  "process_at root fx good w s \<longleftrightarrow> (case s of
     (None, v) \<Rightarrow> v = w
   | (Some (r, f), v) \<Rightarrow> r = root \<and> f = fx \<and> good v \<and> outside_kept root w v)"

lemma fixture_get_reaches:
  assumes "process_at root fx good w s" and "workspace_new tmp w = (Inr root, w1)"
    and "reaches (build root w1) (\<lambda>f v. f = fx \<and> good v \<and> outside_kept root w v)"
  shows "\<exists>v. fixture_get tmp kept build s = (Inr fx, (Some (root, fx), v)) \<and> good v \<and> outside_kept root w v"
  using assms by (auto simp: process_at_def fixture_get_def reaches_def split: option.splits prod.splits)

lemma call_keeps:
  assumes "process_at root fx good w s" and "workspace_new tmp w = (Inr root, w1)"
    and "reaches (build root w1) (\<lambda>f v. f = fx \<and> good v \<and> outside_kept root w v)"
    and "\<And>v. good v \<Longrightarrow> reaches (target fx v) (\<lambda>_ v'. good v' \<and> outside_kept root v v')"
  shows "reaches (and_run (fixture_get tmp kept build s) (on_disk target)) (\<lambda>_. process_at root fx good w)"
proof -
  obtain v where v: "fixture_get tmp kept build s = (Inr fx, (Some (root, fx), v))" "good v" "outside_kept root w v"
    using fixture_get_reaches [where fx = fx and good = good, OF assms(1,2)] assms(3) by blast
  obtain v' where "target fx v = (Inr (), v')" "good v'" "outside_kept root v v'"
    using assms(4) [OF v(2)] by (auto simp: reaches_def)
  with v show ?thesis by (simp add: on_disk_def process_at_def outside_kept_def)
qed

lemma process_leaves_nothing:
  assumes "\<And>s d. process_at root fx good w s \<Longrightarrow> d \<in> set inputs \<Longrightarrow> reaches (call d s) (\<lambda>_. process_at root fx good w)"
    and "\<And>v. good v \<Longrightarrow> no_faults v" and "unused_below root w"
  shows "reaches (fuzz_process_run kept call inputs w) (\<lambda>_ w'. content w' = content w)"
proof -
  have "process_at root fx good w (None, w)" by (simp add: process_at_def)
  then have "reaches (fuzz_calls call inputs (None, w)) (\<lambda>_. process_at root fx good w)"
    by (rule fuzz_calls_keep [rotated]) (rule assms(1))
  then obtain ws v where c: "fuzz_calls call inputs (None, w) = (Inr (), (ws, v))" and p: "process_at root fx good w (ws, v)"
    by (auto simp: reaches_def)
  have "content (process_exit kept (ws, v)) = content w"
    using p workspace_destroy_restores [OF _ _ assms(3)] assms(2)
    by (auto simp: process_at_def process_exit_def split: option.splits)
  with c show ?thesis by (simp add: fuzz_process_run_def)
qed

lemma apply_fixture_ready:
  assumes "clean_disk w" and "workspace_new tmp w = (Inr root, w1)" and "unused_below root w"
  defines "fx \<equiv> apply_fixture root"
  shows "reaches (apply_fixture_new root w1) (\<lambda>f v. f = fx \<and>
    (fuzz_ready (af_paths fx) v \<and> content v (af_old fx) = Some make_old_content) \<and> outside_kept root w v)"
proof -
  have "\<forall>p \<in> af_paths fx. below root p \<and> p \<noteq> root \<and> \<not> staged_name p \<and> filename p \<noteq> []"
    using workspace_paths_new unfolding fx_def by blast
  then have r: "fuzz_ready (af_paths fx) w1" and o: "outside_kept root w w1"
    using new_workspace_ready [OF assms(1-3) workspace_not_staged [OF assms(2)]] by blast+
  have "reaches (and_run (escaping (ws_write (af_old fx) make_old_content w1)) (\<lambda>_ w1. (Inr fx, w1))) (\<lambda>f v. f = fx \<and>
    (fuzz_ready (af_paths fx) v \<and> content v (af_old fx) = Some make_old_content) \<and> outside_kept root w v)"
    by (rule then_write [OF r]) (use o workspace_paths_below [of "af_old fx" root] in
        \<open>auto simp: af_paths_def outside_kept_def fx_def\<close>)
  then show ?thesis by (simp add: apply_fixture_new_def fx_def)
qed

lemma roundtrip_fixture_ready:
  assumes "clean_disk w" and "workspace_new tmp w = (Inr root, w1)" and "unused_below root w"
  defines "fx \<equiv> roundtrip_fixture root"
  shows "reaches (roundtrip_fixture_new root w1) (\<lambda>f v. f = fx \<and> fuzz_ready (rf_paths fx) v \<and> outside_kept root w v)"
proof -
  have "\<forall>p \<in> rf_paths fx. below root p \<and> p \<noteq> root \<and> \<not> staged_name p \<and> filename p \<noteq> []"
    using workspace_paths_new unfolding fx_def by blast
  then have "fuzz_ready (rf_paths fx) w1" and "outside_kept root w w1"
    using new_workspace_ready [OF assms(1-3) workspace_not_staged [OF assms(2)]] by blast+
  then show ?thesis by (simp add: roundtrip_fixture_new_def fx_def)
qed

lemma ready_no_faults: "fuzz_ready ps v \<Longrightarrow> no_faults v"
  using settledD [OF ready_settled] by blast

lemma reaches_outside:
  assumes "reaches (go v) (\<lambda>_ v'. good v' \<and> (\<forall>q. q \<notin> ps \<longrightarrow> content v' q = content v q))" and "\<forall>p \<in> ps. below root p"
  shows "reaches (go v) (\<lambda>_ v'. good v' \<and> outside_kept root v v')"
  by (rule reaches_mono [OF assms(1)]) (use assms(2) in \<open>auto simp: outside_kept_def\<close>)

text \<open>The round trip target, on inputs whose halves the digest tells apart.\<close>

lemma roundtrip_process_leaves_nothing:
  assumes "clean_disk w" and "workspace_new tmp w = (Inr root, w1)" and "unused_below root w"
    and "\<forall>data \<in> set inputs. length data \<le> STREAMOFF_MAX \<and> digest_separates D (old_half data) (new_half data)"
    and "strong_hash_sound U D msg" and "strong_hash_total U msg live" and "sh_size U = HASH_SIZE"
  shows "reaches (fuzz_process_run kept (roundtrip_call nr U tmp kept) inputs w) (\<lambda>_ w'. content w' = content w)"
proof (rule process_leaves_nothing [OF _ ready_no_faults assms(3)])
  let ?fx = "roundtrip_fixture root"
  let ?good = "fuzz_ready (rf_paths ?fx)"
  fix s d assume s: "process_at root ?fx ?good w s" and d: "d \<in> set inputs"
  then have ok: "length d \<le> STREAMOFF_MAX" "digest_separates D (old_half d) (new_half d)" using assms(4) by simp_all
  have "reaches (roundtrip_one_input nr U ?fx d v) (\<lambda>_ v'. ?good v' \<and> outside_kept root v v')" if "?good v" for v
  proof (rule reaches_outside)
    show "reaches (roundtrip_one_input nr U ?fx d v) (\<lambda>_ v'. ?good v' \<and> (\<forall>q. q \<notin> rf_paths ?fx \<longrightarrow> content v' q = content v q))"
      by (rule roundtrip_reaches [OF that roundtrip_fixture_distinct ok assms(5-7)])
  qed (use workspace_paths_below in blast)
  then have "reaches (and_run (fixture_get tmp kept roundtrip_fixture_new s) (on_disk (\<lambda>fx. roundtrip_one_input nr U fx d)))
      (\<lambda>_. process_at root ?fx ?good w)"
    by (intro call_keeps [OF s assms(2)] roundtrip_fixture_ready [OF assms(1-3)])
  then show "reaches (roundtrip_call nr U tmp kept d s) (\<lambda>_. process_at root ?fx ?good w)"
    using s by (simp add: roundtrip_call_def)
qed

text \<open>C12 A process of the target for hostile deltas leaves nothing behind: on a disk without faults, fed with any
  sequence of inputs, it ends normally, and the destructor of its workspace leaves every path of the disk with the content
  it had before the process started, and every path that was free, those of the workspace included, free.\<close>

theorem fuzz_process_leaves_nothing:
  assumes "clean_disk w" and "workspace_new tmp w = (Inr root, w1)" and "unused_below root w"
    and "strong_hash_sound U D msg" and "strong_hash_total U msg live" and "sh_size U = HASH_SIZE"
  shows "reaches (fuzz_process_run kept (apply_call nr U tmp kept) inputs w) (\<lambda>_ w'. content w' = content w)"
proof (rule process_leaves_nothing [OF _ _ assms(3)])
  let ?fx = "apply_fixture root"
  let ?good = "\<lambda>v. fuzz_ready (af_paths ?fx) v \<and> content v (af_old ?fx) = Some make_old_content"
  fix s d assume s: "process_at root ?fx ?good w s"
  have fx: "af_within (af_paths ?fx) ?fx" using apply_fixture_distinct by (simp add: af_within_def)
  have len: "length make_old_content \<le> STREAMOFF_MAX" by (simp add: STREAMOFF_MAX_def)
  have "reaches (apply_one_input nr U ?fx d v) (\<lambda>_ v'. ?good v' \<and> outside_kept root v v')" if "?good v" for v
  proof (rule reaches_outside)
    show "reaches (apply_one_input nr U ?fx d v) (\<lambda>_ v'. ?good v' \<and> (\<forall>q. q \<notin> af_paths ?fx \<longrightarrow> content v' q = content v q))"
      by (rule reaches_mono [OF apply_target_reaches [OF _ fx _ len assms(4-6)]]) (use that in \<open>simp_all add: af_left_def\<close>)
  qed (use workspace_paths_below in blast)
  then show "reaches (apply_call nr U tmp kept d s) (\<lambda>_. process_at root ?fx ?good w)"
    unfolding apply_call_def by (intro call_keeps [OF s assms(2)] apply_fixture_ready [OF assms(1-3)])
qed (use ready_no_faults in blast)

theorem fuzz_process_leaves_nothing_witness:
  "fst (workspace_new ''/tmp'' (world_of [(''i'', [7])])) = Inr ''/tmp/rh_fuzz_0_0'' \<and>
   reaches (fuzz_process_run (\<lambda>_. False) (apply_call True sample_hash ''/tmp'' (\<lambda>_. False)) [[1], [], [2, 3]] (world_of [(''i'', [7])]))
     (\<lambda>_ w'. content w' ''i'' = Some [7] \<and> content w' ''/tmp/rh_fuzz_0_0'' = None)"
proof -
  let ?w = "world_of [(''i'', [7])]"
  have n: "w_names ?w p = (if p = ''i'' then Some 0 else None)" for p by (simp add: world_of_def upt_rec)
  have new: "workspace_new ''/tmp'' ?w = (Inr ''/tmp/rh_fuzz_0_0'', snd (workspace_new ''/tmp'' ?w))"
  proof -
    have "take_random ?w = (0, ?w)" "take_fault ?w = (None, ?w)"
      by (simp_all add: take_random_def take_fault_def world_of_def)
    then have "fst (workspace_attempts (Suc k) ''/tmp'' ?w) = Inr ''/tmp/rh_fuzz_0_0''" for k
      by (simp add: fs_create_directory_def node_at_def n path_append_def to_dec.simps [of 0] char_of_def bit_Suc_0_iff Let_def)
    from this [of 31] show ?thesis by (simp add: workspace_new_def prod_eq_iff)
  qed
  have "\<not> staged_name ''i''" using staged_name_last [of "''i''"] by (auto simp: is_digit_def)
  then have "clean_disk ?w" using settled_world_of by (auto simp: clean_disk_def n)
  moreover have "unused_below ''/tmp/rh_fuzz_0_0'' ?w" by (auto simp: unused_below_def n below_def path_append_def)
  ultimately have "reaches (fuzz_process_run (\<lambda>_. False) (apply_call True sample_hash ''/tmp'' (\<lambda>_. False)) [[1], [], [2, 3]] ?w)
     (\<lambda>_ w'. content w' = content ?w)"
    by (intro fuzz_process_leaves_nothing [OF _ new _ record_alg_sound record_alg_total]) (simp_all add: blake_alg_def)
  then have "reaches (fuzz_process_run (\<lambda>_. False) (apply_call True sample_hash ''/tmp'' (\<lambda>_. False)) [[1], [], [2, 3]] ?w)
     (\<lambda>_ w'. content w' ''i'' = Some [7] \<and> content w' ''/tmp/rh_fuzz_0_0'' = None)"
    by (rule reaches_mono) (simp add: content_def node_at_def n, simp add: world_of_def upt_rec new_node_def)
  moreover have "fst (workspace_new ''/tmp'' ?w) = Inr ''/tmp/rh_fuzz_0_0''" by (subst new) simp
  ultimately show ?thesis by blast
qed

end
