(* ===== verification/Fuzz_Corpus.thy ===== *)
theory Fuzz_Corpus imports Fuzz_Process begin

text \<open>
  The generator of the seed corpus (\<^verbatim>\<open>src/fuzz/make_corpus.cpp\<close>): deltas for the target of hostile
  deltas, and inputs for the round trip target whose first two bytes say where they are split.
\<close>

section \<open>Seeds\<close>

text \<open>The new files for which a delta is generated.\<close>

definition corpus_variants :: "bytes \<Rightarrow> bytes list" where
  "corpus_variants old =
     [old, [], replicate 1024 65, old[1024 := old ! 1024 XOR 1], [110, 101, 119] @ old, drop 128 old, old @ old]"

definition corpus_pairs :: "bytes \<Rightarrow> (bytes \<times> bytes) list" where
  "corpus_pairs base =
     [([], []), ([], base), (base, []), (base, base), (base, base[1024 := base ! 1024 XOR 1]), (base, 88 # base),
      (replicate 512 65, replicate 512 66)]"

definition encode_pair :: "bytes \<times> bytes \<Rightarrow> bytes" where
  "encode_pair p =
     (case p of (a, b) \<Rightarrow> [of_nat (drop_bit 8 (length a)), of_nat (length a)] @ a @ b)"

section \<open>The generator\<close>

text \<open>\<open>create_directories\<close>: every prefix of the path that ends before a separator, then the path.\<close>

definition dir_prefixes :: "path \<Rightarrow> path list" where
  "dir_prefixes p =
     map (\<lambda>i. take i p) (filter (\<lambda>i. p ! i = CHR ''/'' \<and> p ! (i - 1) \<noteq> CHR ''/'') [1..<length p]) @ [p]"

fun create_each :: "path list \<Rightarrow> world \<Rightarrow> (string + unit) \<times> world" where
  "create_each [] w = (Inr (), w)"
| "create_each (p # ps) w =
     (case fs_create_directory p w of (Inl e, w1) \<Rightarrow> (Inl e, w1) | (Inr _, w1) \<Rightarrow> create_each ps w1)"

definition fs_create_directories :: "path \<Rightarrow> world \<Rightarrow> (string + unit) \<times> world" where
  "fs_create_directories p w = create_each (dir_prefixes p) w"

text \<open>One delta per variant, numbered from \<open>i\<close>.\<close>

fun corpus_deltas ::
  "bool \<Rightarrow> 'u strong_hash \<Rightarrow> path \<Rightarrow> path \<Rightarrow> path \<Rightarrow> Signature \<Rightarrow> nat \<Rightarrow> bytes list \<Rightarrow> world \<Rightarrow> (string + unit) \<times> world" where
  "corpus_deltas nr U root old_path new_path os i [] w = (Inr (), w)"
| "corpus_deltas nr U root old_path new_path os i (v # vs) w =
     and_run (ws_write new_path v w) (\<lambda>_ w1.
     and_run (generate_signatures_path nr (rk_alg rk_default) U new_path Compute w1) (\<lambda>(ok, ns) w2.
       if \<not> ok then (Inl ''Cannot sign corpus new file'', w2)
       else (case generate_delta nr U os ns old_path new_path
                    (path_append (path_append root ''apply'') (to_dec i @ ''.delta'')) w2 of
               (Inl _, w3) \<Rightarrow> (Inl ''Cannot generate corpus delta'', w3)
             | (Inr _, w3) \<Rightarrow> corpus_deltas nr U root old_path new_path os (Suc i) vs w3)))"

fun corpus_inputs :: "path \<Rightarrow> nat \<Rightarrow> (bytes \<times> bytes) list \<Rightarrow> world \<Rightarrow> (string + unit) \<times> world" where
  "corpus_inputs root i [] w = (Inr (), w)"
| "corpus_inputs root i (p # ps) w =
     and_run (ws_write (path_append (path_append root ''roundtrip'') (to_dec i)) (encode_pair p) w) (\<lambda>_ w1.
       corpus_inputs root (Suc i) ps w1)"

text \<open>What the \<open>try\<close> block does with its workspace.\<close>

definition corpus_fill :: "bool \<Rightarrow> 'u strong_hash \<Rightarrow> path \<Rightarrow> path \<Rightarrow> world \<Rightarrow> (string + unit) \<times> world" where
  "corpus_fill nr U root ws w =
     (let old_path = workspace_path ws ''old''; new_path = workspace_path ws ''new'' in
     and_run (ws_write old_path make_old_content w) (\<lambda>_ w1.
     and_run (generate_signatures_path nr (rk_alg rk_default) U old_path Skip w1) (\<lambda>(ok, os) w2.
       if \<not> ok then (Inl ''Cannot sign corpus old file'', w2)
       else
     and_run (corpus_deltas nr U root old_path new_path os 0 (corpus_variants make_old_content) w2) (\<lambda>_ w3.
       corpus_inputs root 0 (corpus_pairs (take 4096 make_old_content)) w3))))"

text \<open>The \<open>try\<close> block: however it is left, by an exception too, the workspace is destroyed.\<close>

definition make_corpus ::
  "bool \<Rightarrow> 'u strong_hash \<Rightarrow> path \<Rightarrow> (path \<Rightarrow> bool) \<Rightarrow> path \<Rightarrow> world \<Rightarrow> (string + unit) \<times> world" where
  "make_corpus nr U tmp kept root w =
     and_run (fs_create_directories (path_append root ''apply'') w) (\<lambda>_ w1.
     and_run (fs_create_directories (path_append root ''roundtrip'') w1) (\<lambda>_ w2.
     and_run (workspace_new tmp w2) (\<lambda>ws w3.
       case corpus_fill nr U root ws w3 of (r, w4) \<Rightarrow> (r, workspace_destroy kept ws w4))))"

definition make_corpus_main ::
  "bool \<Rightarrow> 'u strong_hash \<Rightarrow> path \<Rightarrow> (path \<Rightarrow> bool) \<Rightarrow> string list \<Rightarrow> world \<Rightarrow> printed \<times> world" where
  "make_corpus_main nr U tmp kept argv w =
     (if length argv \<noteq> 2 then ((2, [], ''usage: fuzz_make_corpus <directory>'' @ newline), w)
      else case make_corpus nr U tmp kept (argv ! 1) w of
          (Inl e, w1) \<Rightarrow> ((2, [], e @ newline), w1)
        | (Inr _, w1) \<Rightarrow>
            ((0, ''Generated 7 apply and 7 round-trip seeds in '' @ quoted_path (argv ! 1) @ newline, []), w1))"

section \<open>The round trip target splits the seeds where they were joined\<close>

lemma split_bytes:
  assumes "n < 2 ^ 16"
  shows "push_bit 8 (unat (of_nat (drop_bit 8 n) :: byte)) OR unat (of_nat n :: byte) = n"
proof -
  have "unat (of_nat (drop_bit 8 n) :: byte) = drop_bit 8 n" using assms by (simp add: unat_of_nat drop_bit_eq_div)
  moreover have "unat (of_nat n :: byte) = take_bit 8 n" by (simp add: unat_of_nat take_bit_eq_mod)
  moreover have "push_bit 8 (drop_bit 8 n) OR take_bit 8 n = n"
    by (rule bit_eqI) (auto simp: bit_or_iff bit_push_bit_iff bit_drop_bit_eq bit_take_bit_iff)
  ultimately show ?thesis by simp
qed

text \<open>The two bytes the corpus generator writes are those the round trip target reads: for a first half of
  less than 64 KiB, as all of the generator's seeds have, the target splits an encoded pair into exactly
  that pair.\<close>

lemma seed_pair_roundtrip:
  "(\<forall>a b. length a < 2 ^ 16 \<longrightarrow> old_half (encode_pair (a, b)) = a \<and> new_half (encode_pair (a, b)) = b) \<and>
   (\<forall>(a, b) \<in> set (corpus_pairs (take 4096 make_old_content)). length a < 2 ^ 16)"
proof -
  have "old_half (encode_pair (a, b)) = a \<and> new_half (encode_pair (a, b)) = b" if "length a < 2 ^ 16" for a b :: bytes
  proof -
    have "split_point (encode_pair (a, b)) = length a mod (length a + length b + 1)"
      by (simp add: split_point_def encode_pair_def split_bytes [OF that])
    then show ?thesis by (simp add: old_half_def new_half_def encode_pair_def)
  qed
  then show ?thesis by (auto simp: corpus_pairs_def)
qed

end
