(* ===== verification/Output_Steps.thy ===== *)
theory Output_Steps imports Clean_Runs begin

text \<open>
  The output of a command as its calls, one after the other (\<^verbatim>\<open>src/src/OutputTransaction.cpp\<close>).  The functions
  of \<open>Output_Transaction\<close> take \<open>open\<close>, \<open>commit\<close> and the destructor as a whole; a signal may arrive between
  any two of the calls they make.  Here a step makes at most one change that a handler, or anyone who
  looks at the names on the disk, can see; the lemmas say that the functions are runs of these steps, what holds
  between the steps, and what the handler makes of it.
\<close>

section \<open>Stages\<close>

text \<open>What the program has done last.  \<open>Untracked\<close> is the moment in \<open>open\<close> when the candidate exists and no
  slot of the handler names it yet; between \<open>Opened\<close> and the commit the program may do anything to the stream of
  the staged file; \<open>Closing\<close> is before the destructor.\<close>

datatype stage =
    Unopened
  | Attempting nat transaction
  | Retrying nat path transaction
  | Untracked transaction
  | Tracked transaction
  | Opened transaction
  | Closed transaction
  | Flushed transaction
  | Checked transaction
  | Replaced transaction
  | Closing transaction
  | Discarding transaction
  | Removed transaction
  | Finished

definition tx_for :: "path \<Rightarrow> path list \<Rightarrow> transaction" where
  "tx_for dest ins = tx_new\<lparr>tx_destination := dest, tx_inputs := ins\<rparr>"

inductive main_step :: "bool \<Rightarrow> path \<Rightarrow> path list \<Rightarrow> stage \<times> world \<Rightarrow> stage \<times> world \<Rightarrow> bool" for nr dest ins where
  Refuse: "dest = [] \<or> filename dest = [] \<Longrightarrow> main_step nr dest ins (Unopened, w) (Closing (tx_for dest ins), w)"
| Start: "dest \<noteq> [] \<Longrightarrow> filename dest \<noteq> [] \<Longrightarrow> validateDestination (tx_for dest ins) w = (r, w') \<Longrightarrow>
     main_step nr dest ins (Unopened, w) (case r of Inl _ \<Rightarrow> Closing (tx_for dest ins) | Inr _ \<Rightarrow> Attempting 32 (tx_for dest ins), w')"
| Give_up: "main_step nr dest ins (Attempting 0 tx, w) (Closing tx, w)"
| Create: "candidate_path (tx_destination tx) w = (c, w1) \<Longrightarrow> fio_open nr c EXCLUSIVE_OUT (tx_file tx) w1 = (ok, f, w2) \<Longrightarrow>
     main_step nr dest ins (Attempting (Suc n) tx, w)
       (if ok then Untracked (tx\<lparr>tx_file := f, tx_temporary := c\<rparr>) else Retrying n c (tx\<lparr>tx_file := f\<rparr>), w2)"
| Retry: "fs_exists c w = (there, w') \<Longrightarrow>
     main_step nr dest ins (Retrying n c tx, w) (if there then Attempting n tx else Closing tx, w')"
| Track: "tx_track tx w = (tx', w') \<Longrightarrow> main_step nr dest ins (Untracked tx, w) (Tracked tx', w')"
| Permit: "copyPermissions tx w = (r, w') \<Longrightarrow>
     main_step nr dest ins (Tracked tx, w) (case r of Inl _ \<Rightarrow> Closing tx | Inr _ \<Rightarrow> Opened tx, w')"
| Write: "main_step nr dest ins (Opened tx, w) (Opened (tx\<lparr>tx_file := f\<rparr>), w)"
| Fail: "main_step nr dest ins (Opened tx, w) (Closing tx, w)"
| Commit_close: "tx_temporary tx \<noteq> [] \<Longrightarrow> close_staged tx w = (closed, tx', w') \<Longrightarrow>
     main_step nr dest ins (Opened tx, w) (if closed \<and> \<not> has_error (tx_file tx') then Closed tx' else Closing tx', w')"
| Commit_sync: "sync_file (tx_temporary tx) w = (ok, w') \<Longrightarrow>
     main_step nr dest ins (Closed tx, w) (if ok then Flushed tx else Closing tx, w')"
| Commit_check: "validateDestination tx w = (r, w') \<Longrightarrow>
     main_step nr dest ins (Flushed tx, w) (case r of Inl _ \<Rightarrow> Closing tx | Inr _ \<Rightarrow> Checked tx, w')"
| Commit_rename: "fs_rename (tx_temporary tx) (tx_destination tx) w = (e, w') \<Longrightarrow>
     main_step nr dest ins (Checked tx, w) (if e = None then Replaced tx else Closing tx, w')"
| Commit_untrack: "tx_untrack tx w = (tx', w') \<Longrightarrow>
     main_step nr dest ins (Replaced tx, w)
       (Closing (tx'\<lparr>tx_temporary := []\<rparr>), sync_directory (parent_path (tx_destination tx')) w')"
| Destroy_close: "close_staged tx w = (closed, tx', w') \<Longrightarrow> main_step nr dest ins (Closing tx, w) (Discarding tx', w')"
| Destroy_remove: "main_step nr dest ins (Discarding tx, w)
     (Removed tx, if tx_temporary tx \<noteq> [] then fs_remove (tx_temporary tx) w else w)"
| Destroy_untrack: "tx_untrack tx w = (tx', w') \<Longrightarrow> main_step nr dest ins (Removed tx, w) (Finished, w')"

section \<open>The functions are runs of the steps\<close>

lemma attempts_run:
  "tx_attempts nr n tx w = (r, tx', w') \<Longrightarrow>
   (main_step nr dest ins)\<^sup>*\<^sup>* (Attempting n tx, w) (case r of Inl _ \<Rightarrow> Closing tx' | Inr _ \<Rightarrow> Opened tx', w')"
proof (induction n arbitrary: tx w)
  case 0
  then show ?case using main_step.Give_up by auto
next
  case (Suc n)
  obtain c w1 where c: "candidate_path (tx_destination tx) w = (c, w1)" by fastforce
  obtain ok f w2 where o: "fio_open nr c EXCLUSIVE_OUT (tx_file tx) w1 = (ok, f, w2)"
    by (cases "fio_open nr c EXCLUSIVE_OUT (tx_file tx) w1") auto
  note create = main_step.Create [where nr = nr and dest = dest and ins = ins and n = n, OF c o]
  show ?case
  proof (cases ok)
    case True
    obtain tx1 w3 where t: "tx_track (tx\<lparr>tx_file := f, tx_temporary := c\<rparr>) w2 = (tx1, w3)" by fastforce
    obtain x w4 where p: "copyPermissions tx1 w3 = (x, w4)" by fastforce
    have res: "r = x" "tx' = tx1" "w' = w4" using Suc.prems c o True t p by simp_all
    have "main_step nr dest ins (Attempting (Suc n) tx, w) (Untracked (tx\<lparr>tx_file := f, tx_temporary := c\<rparr>), w2)"
      using create True by simp
    from this main_step.Track [OF t] main_step.Permit [OF p] show ?thesis
      unfolding res by (meson converse_rtranclp_into_rtranclp rtranclp.rtrancl_refl)
  next
    case False
    obtain there w3 where x: "fs_exists c w2 = (there, w3)" by fastforce
    note retry = main_step.Retry [where nr = nr and dest = dest and ins = ins and n = n and tx = "tx\<lparr>tx_file := f\<rparr>", OF x]
    have two: "(main_step nr dest ins)\<^sup>*\<^sup>* (Attempting (Suc n) tx, w) (if there then Attempting n (tx\<lparr>tx_file := f\<rparr>) else Closing (tx\<lparr>tx_file := f\<rparr>), w3)"
      using create retry False by (auto intro: converse_rtranclp_into_rtranclp)
    show ?thesis
    proof (cases there)
      case True
      then have "tx_attempts nr n (tx\<lparr>tx_file := f\<rparr>) w3 = (r, tx', w')" using Suc.prems c o False x by simp
      from Suc.IH [OF this] show ?thesis using two True by (auto intro: rtranclp_trans)
    next
      case gone: False
      then show ?thesis using Suc.prems c o False x two by auto
    qed
  qed
qed

lemma open_run:
  assumes "tx_open nr dest ins tx_new w = (r, tx, w')"
  shows "(main_step nr dest ins)\<^sup>*\<^sup>* (Unopened, w) (case r of Inl _ \<Rightarrow> Closing tx | Inr _ \<Rightarrow> Opened tx, w')"
proof (cases "dest = [] \<or> filename dest = []")
  case True
  then show ?thesis using assms main_step.Refuse [OF True] by (auto simp: tx_open_def tx_for_def tx_new_def)
next
  case False
  obtain x w1 where v: "validateDestination (tx_for dest ins) w = (x, w1)" by fastforce
  note start = main_step.Start [where nr = nr, OF _ _ v]
  have "tx_open nr dest ins tx_new w = (case x of Inl e \<Rightarrow> (Inl e, tx_for dest ins, w1) | Inr _ \<Rightarrow> tx_attempts nr 32 (tx_for dest ins) w1)"
    using False v unfolding tx_open_def Let_def tx_for_def [symmetric] by (simp add: tx_new_def)
  then show ?thesis
    using assms start False attempts_run [of nr 32 "tx_for dest ins" w1 r tx w' dest ins]
    by (cases x) (auto intro: converse_rtranclp_into_rtranclp)
qed

lemma commit_run:
  assumes "tx_commit tx w = (r, tx', w')"
  shows "(main_step nr dest ins)\<^sup>*\<^sup>* (Opened tx, w) (Closing tx', w')"
proof (cases "tx_temporary tx = []")
  case True
  then show ?thesis using assms main_step.Fail [of nr dest ins tx w] by (auto simp: tx_commit_def)
next
  case False
  obtain ok tx1 w1 where c: "close_staged tx w = (ok, tx1, w1)" by (cases "close_staged tx w") auto
  obtain s w2 where s: "sync_file (tx_temporary tx1) w1 = (s, w2)" by fastforce
  obtain v w3 where v: "validateDestination tx1 w2 = (v, w3)" by fastforce
  obtain e w4 where rn: "fs_rename (tx_temporary tx1) (tx_destination tx1) w3 = (e, w4)" by fastforce
  obtain tx2 w5 where u: "tx_untrack tx1 w4 = (tx2, w5)" by fastforce
  note close = main_step.Commit_close [where nr = nr and dest = dest and ins = ins, OF False c]
    and sync = main_step.Commit_sync [where nr = nr and dest = dest and ins = ins, OF s]
    and check = main_step.Commit_check [where nr = nr and dest = dest and ins = ins, OF v]
    and rename = main_step.Commit_rename [where nr = nr and dest = dest and ins = ins, OF rn]
    and untrack = main_step.Commit_untrack [where nr = nr and dest = dest and ins = ins, OF u]
  consider (unflushed) "\<not> (ok \<and> \<not> has_error (tx_file tx1))" | (unsynced) "ok \<and> \<not> has_error (tx_file tx1)" "\<not> s"
    | (refused) "ok \<and> \<not> has_error (tx_file tx1)" s "\<exists>e. v = Inl e"
    | (kept) "ok \<and> \<not> has_error (tx_file tx1)" s "\<exists>u. v = Inr u" "e \<noteq> None"
    | (renamed) "ok \<and> \<not> has_error (tx_file tx1)" s "\<exists>u. v = Inr u" "e = None"
    by (cases v) auto
  then show ?thesis
  proof cases
    case unflushed
    then show ?thesis using assms False c close by (auto simp: tx_commit_def)
  next
    case unsynced
    then show ?thesis using assms False c s close sync by (auto simp: tx_commit_def intro: converse_rtranclp_into_rtranclp)
  next
    case refused
    then show ?thesis using assms False c s v close sync check
      by (auto simp: tx_commit_def intro: converse_rtranclp_into_rtranclp)
  next
    case kept
    then show ?thesis using assms False c s v rn close sync check rename
      by (auto simp: tx_commit_def intro: converse_rtranclp_into_rtranclp)
  next
    case renamed
    then show ?thesis using assms False c s v rn u close sync check rename untrack
      by (auto simp: tx_commit_def intro: converse_rtranclp_into_rtranclp)
  qed
qed

lemma destroy_run:
  assumes "tx_destroy tx w = (tx', w')"
  shows "(main_step nr dest ins)\<^sup>*\<^sup>* (Closing tx, w) (Finished, w')"
proof -
  obtain ok tx1 w1 where c: "close_staged tx w = (ok, tx1, w1)" by (cases "close_staged tx w") auto
  have "tx_untrack tx1 (if tx_temporary tx1 \<noteq> [] then fs_remove (tx_temporary tx1) w1 else w1) = (tx', w')"
    using assms c by (simp add: tx_destroy_def)
  from main_step.Destroy_close [OF c] main_step.Destroy_remove main_step.Destroy_untrack [OF this]
  show ?thesis by (meson converse_rtranclp_into_rtranclp rtranclp.rtrancl_refl)
qed

section \<open>Removing what is staged\<close>

lemma discard_fold:
  assumes "no_faults w" and "v = foldl (\<lambda>v s. case s of None \<Rightarrow> v | Some p \<Rightarrow> fs_remove p v) w ss"
  shows "w_names v = (\<lambda>p. if Some p \<in> set ss then None else w_names w p) \<and> w_nodes v = w_nodes w \<and>
    w_slots v = w_slots w \<and> no_faults v"
  using assms
proof (induction ss arbitrary: w)
  case (Cons s ss)
  show ?case
  proof (cases s)
    case (Some p)
    have q: "fs_remove p w = w\<lparr>w_names := (w_names w)(p := None)\<rparr>" "no_faults (w\<lparr>w_names := (w_names w)(p := None)\<rparr>)"
      using Cons.prems(1) by (simp_all add: fs_remove_def no_faults_take)
    show ?thesis using Cons.IH [OF q(2)] Cons.prems(2) Some q(1) by (auto simp: fun_eq_iff)
  qed (use Cons in simp)
qed simp

lemma discard_all_staged_effect:
  assumes "no_faults w"
  shows "w_names (discard_all_staged w) = (\<lambda>p. if Some p \<in> set (w_slots w) then None else w_names w p)"
    and "w_nodes (discard_all_staged w) = w_nodes w" and "w_slots (discard_all_staged w) = w_slots w"
    and "no_faults (discard_all_staged w)"
  using discard_fold [OF assms discard_all_staged_def] by simp_all

text \<open>The staged file is in a slot of the handler.\<close>

definition tracked :: "transaction \<Rightarrow> world \<Rightarrow> bool" where
  "tracked tx w \<longleftrightarrow> tx_temporary tx \<noteq> [] \<longrightarrow>
     (\<exists>i. tx_slot tx = Some i \<and> i < length (w_slots w) \<and> w_slots w ! i = Some (tx_temporary tx))"

lemma tracked_file [simp]: "tracked (tx\<lparr>tx_file := f\<rparr>) w = tracked tx w"
  by (simp add: tracked_def)

lemma tracked_same:
  "tracked tx w \<Longrightarrow> tx_temporary tx' = tx_temporary tx \<Longrightarrow> tx_slot tx' = tx_slot tx \<Longrightarrow> w_slots w' = w_slots w \<Longrightarrow> tracked tx' w'"
  by (simp add: tracked_def)

lemma tx_track_tracked:
  assumes "tx_track tx w = (tx', w')" and "free_slot (w_slots w) \<noteq> None"
  shows "tracked tx' w'"
  using assms free_slot_update [of "w_slots w"] by (auto simp: tx_track_def tracked_def)

lemma copyPermissions_slots:
  assumes "copyPermissions tx w = (r, w')"
  shows "w_slots w' = w_slots w"
proof -
  have "untouched (w\<lparr>w_names := Map.empty, w_next := 0\<rparr>) w" by (simp add: untouched_def)
  from copyPermissions_kept(2) [OF assms this] show ?thesis by simp
qed

text \<open>What may be on the disk when the process ends: the names there were, or those and the finished
  output.\<close>

definition no_trace :: "world \<Rightarrow> path \<Rightarrow> world \<Rightarrow> bool" where
  "no_trace w0 dest w \<longleftrightarrow> nodes_kept w0 w \<and>
     (w_names w = w_names w0 \<or> w_names w = (w_names w0)(dest \<mapsto> w_next w0))"

text \<open>After the handler: no trace, and nothing that a slot names is left.\<close>

definition discarded :: "world \<Rightarrow> path \<Rightarrow> world \<Rightarrow> bool" where
  "discarded w0 dest w \<longleftrightarrow> no_trace w0 dest w \<and> no_faults w \<and> (\<forall>p. Some p \<in> set (w_slots w) \<longrightarrow> w_names w p = None)"

lemma discarded_from_settled: "settled w \<Longrightarrow> no_trace w0 dest w \<Longrightarrow> discarded w0 dest w"
  by (auto simp: discarded_def settled_def)

lemma discarded_again:
  assumes "discarded w0 dest w"
  shows "discarded w0 dest (discard_all_staged w)"
proof -
  have nf: "no_faults w" and gone: "\<And>p. Some p \<in> set (w_slots w) \<Longrightarrow> w_names w p = None"
    using assms by (simp_all add: discarded_def)
  note e = discard_all_staged_effect [OF nf]
  have "w_names (discard_all_staged w) = w_names w" using e(1) gone by (auto simp: fun_eq_iff)
  then show ?thesis using assms e(2-4) by (simp add: discarded_def no_trace_def nodes_kept_def)
qed

lemma slots_of_staged:
  assumes "slots_clear tx w" and "tracked tx w" and "tx_temporary tx \<noteq> []"
  shows "Some p \<in> set (w_slots w) \<longleftrightarrow> p = tx_temporary tx"
proof -
  obtain i where i: "tx_slot tx = Some i" "i < length (w_slots w)" "w_slots w ! i = Some (tx_temporary tx)"
    using assms(2,3) by (auto simp: tracked_def)
  have clear: "(w_slots w)[i := None] ! j = None" if "j < length (w_slots w)" for j
    using assms(1) i(1) that by (simp add: slots_clear_def)
  have "w_slots w ! j = None" if "j < length (w_slots w)" "j \<noteq> i" for j
    using clear [OF that(1)] that(2) by simp
  then show ?thesis using i(2,3) by (metis in_set_conv_nth option.distinct(1) option.inject)
qed

lemma staging_discarded:
  assumes "staging w0 tx w" and "tracked tx w"
  shows "discarded w0 dest (discard_all_staged w)"
proof -
  have st: "no_faults w" "slots_clear tx w" "nodes_kept w0 w" using assms(1) by (simp_all add: staging_def)
  note e = discard_all_staged_effect [OF st(1)]
  have n: "w_names (discard_all_staged w) = w_names w0"
  proof (cases "tx_temporary tx = []")
    case True
    then have "\<forall>s \<in> set (w_slots w). s = None" "w_names w = w_names w0" using assms(1) by (auto simp: staging_def slots_clear_def)
    then show ?thesis using e(1) by (auto simp: fun_eq_iff)
  next
    case False
    then show ?thesis using e(1) slots_of_staged [OF st(2) assms(2) False] assms(1) by (auto simp: staging_def fun_eq_iff)
  qed
  have "w_names (discard_all_staged w) p = None" if "Some p \<in> set (w_slots w)" for p using e(1) that by simp
  then show ?thesis using n e st by (simp add: discarded_def no_trace_def nodes_kept_def)
qed

section \<open>What holds between the steps\<close>

definition idle :: "world \<Rightarrow> path \<Rightarrow> transaction \<Rightarrow> world \<Rightarrow> bool" where
  "idle w0 dest tx w \<longleftrightarrow> staging w0 tx w \<and> tx_temporary tx = [] \<and> tx_destination tx = dest \<and> w_slots w \<noteq> []"

definition staged :: "world \<Rightarrow> path \<Rightarrow> transaction \<Rightarrow> world \<Rightarrow> bool" where
  "staged w0 dest tx w \<longleftrightarrow> staging w0 tx w \<and> tx_temporary tx \<noteq> [] \<and> tx_destination tx = dest"

text \<open>The rename has been done, and the slot still names the file under its old name.\<close>

definition replaced :: "world \<Rightarrow> path \<Rightarrow> transaction \<Rightarrow> world \<Rightarrow> bool" where
  "replaced w0 dest tx w \<longleftrightarrow> no_faults w \<and> slots_clear tx w \<and> nodes_kept w0 w \<and> tx_temporary tx \<noteq> [] \<and>
     tx_destination tx = dest \<and> w_names w0 (tx_temporary tx) = None \<and> w_names w = (w_names w0)(dest \<mapsto> w_next w0) \<and>
     w_next w0 < w_next w \<and> nd_kind (w_nodes w (w_next w0)) = Regular"

text \<open>The staged file is gone, and the slot may still name it; or the output is in place.\<close>

definition removed :: "world \<Rightarrow> path \<Rightarrow> transaction \<Rightarrow> world \<Rightarrow> bool" where
  "removed w0 dest tx w \<longleftrightarrow> slots_clear tx w \<and> discarded w0 dest w \<and>
     (w_names w = w_names w0 \<and> w_next w0 \<le> w_next w \<or> installed w0 w dest \<and> tx_slot tx = None)"

definition main_ok :: "world \<Rightarrow> path \<Rightarrow> stage \<Rightarrow> world \<Rightarrow> bool" where
  "main_ok w0 dest st w \<longleftrightarrow>
     (case st of
        Unopened \<Rightarrow> w = w0
      | Attempting n tx \<Rightarrow> idle w0 dest tx w
      | Retrying n c tx \<Rightarrow> idle w0 dest tx w
      | Untracked tx \<Rightarrow> staged w0 dest tx w \<and> tx_slot tx = None \<and> w_slots w \<noteq> []
      | Tracked tx \<Rightarrow> staged w0 dest tx w \<and> tracked tx w
      | Opened tx \<Rightarrow> staged w0 dest tx w \<and> tracked tx w
      | Closed tx \<Rightarrow> staged w0 dest tx w \<and> tracked tx w
      | Flushed tx \<Rightarrow> staged w0 dest tx w \<and> tracked tx w
      | Checked tx \<Rightarrow> staged w0 dest tx w \<and> tracked tx w
      | Replaced tx \<Rightarrow> replaced w0 dest tx w \<and> tracked tx w
      | Closing tx \<Rightarrow> (\<exists>ok. concluded w0 dest ok tx w) \<and> tracked tx w
      | Discarding tx \<Rightarrow> (\<exists>ok. concluded w0 dest ok tx w) \<and> tracked tx w
      | Removed tx \<Rightarrow> removed w0 dest tx w
      | Finished \<Rightarrow> restored w0 w \<or> installed w0 w dest)"

lemma staged_facts:
  assumes "staged w0 dest tx w"
  shows "staging w0 tx w" and "no_faults w" and "tx_temporary tx \<noteq> []" and "tx_destination tx = dest"
    and "w_names w0 (tx_temporary tx) = None" and "w_names w = (w_names w0)(tx_temporary tx \<mapsto> w_next w0)"
  using assms by (simp_all add: staged_def staging_def)

lemma concluded_fails: "staging w0 tx w \<Longrightarrow> \<exists>ok. concluded w0 dest ok tx w"
  by (rule exI [of _ False]) (simp add: concluded_def)

lemma staged_closing: "staged w0 dest tx w \<Longrightarrow> tracked tx w \<Longrightarrow> main_ok w0 dest (Closing tx) w"
  using concluded_fails by (simp add: main_ok_def staged_def)

lemma idle_closing: "idle w0 dest tx w \<Longrightarrow> main_ok w0 dest (Closing tx) w"
  using concluded_fails by (simp add: main_ok_def idle_def tracked_def)

section \<open>Each step keeps it\<close>

lemma step_start:
  assumes "settled w0" and "w_slots w0 \<noteq> []" and "validateDestination (tx_for dest ins) w0 = (r, w')"
  shows "idle w0 dest (tx_for dest ins) w'"
proof -
  have "no_faults w0" using assms(1) by (simp add: settled_def)
  then have "w' = w0" using validateDestination_quiet [of w0 "tx_for dest ins"] assms(3) by simp
  then show ?thesis using staging_start [OF assms(1)] assms(2) by (simp add: idle_def tx_for_def tx_new_def staging_def slots_clear_def)
qed

lemma step_create:
  assumes "idle w0 dest tx w" and "candidate_path (tx_destination tx) w = (c, w1)"
    and "fio_open nr c EXCLUSIVE_OUT (tx_file tx) w1 = (ok, f, w2)"
  shows "if ok then staged w0 dest (tx\<lparr>tx_file := f, tx_temporary := c\<rparr>) w2 \<and> tx_slot tx = None
         else idle w0 dest (tx\<lparr>tx_file := f\<rparr>) w2"
    and "w_slots w2 = w_slots w"
proof -
  have i: "staging w0 tx w" "tx_temporary tx = []" "tx_destination tx = dest" "w_slots w \<noteq> []"
    using assms(1) by (simp_all add: idle_def)
  have w1: "w_names w1 = w_names w" "w_nodes w1 = w_nodes w" "w_next w1 = w_next w" "w_slots w1 = w_slots w" "no_faults w1 = no_faults w"
    using assms(2) by (auto simp: candidate_path_def Let_def take_random_def no_faults_def split: list.splits)
  have s1: "staging w0 tx w1" using i(1) w1 slots_clear_same [of w1 w tx] by (simp add: staging_def nodes_kept_def)
  then have nf: "no_faults w1" by (simp add: staging_def)
  note fo = fio_open_exclusive_quiet [OF nf assms(3)]
  have "c \<noteq> []" by (rule candidate_path_kept(3) [OF assms(2)])
  moreover have "slots_clear tx (create_name c w1) = slots_clear tx w1" by (simp add: slots_clear_def split: option.split)
  ultimately show "if ok then staged w0 dest (tx\<lparr>tx_file := f, tx_temporary := c\<rparr>) w2 \<and> tx_slot tx = None
         else idle w0 dest (tx\<lparr>tx_file := f\<rparr>) w2"
    using s1 fo i w1(4) by (auto simp: staged_def idle_def staging_def slots_clear_def nodes_kept_def create_name_def new_node_def no_faults_def)
  show "w_slots w2 = w_slots w" using fo(1) w1(4) by simp
qed

lemma step_track:
  assumes "staged w0 dest tx w" and "tx_slot tx = None" and "w_slots w \<noteq> []" and "tx_track tx w = (tx', w')"
  shows "staged w0 dest tx' w' \<and> tracked tx' w'"
proof -
  have sl: "\<forall>s \<in> set (w_slots w). s = None" using assms(1,2) by (simp add: staged_def staging_def slots_clear_def)
  then have "free_slot (w_slots w) \<noteq> None" using assms(3) by (cases "w_slots w") auto
  from tx_track_tracked [OF assms(4) this] tx_track_clear [OF assms(4) sl assms(2)] show ?thesis
    using assms(1,4) by (auto simp: staged_def staging_def tx_track_def nodes_kept_def no_faults_def split: option.splits if_splits)
qed

lemma step_close:
  assumes "close_staged tx w = (closed, tx', w')" and "tracked tx w"
  shows "tracked tx' w'" and "staged w0 dest tx w \<Longrightarrow> staged w0 dest tx' w'"
    and "concluded w0 dest ok tx w \<Longrightarrow> concluded w0 dest ok tx' w'"
proof -
  have c: "tx_temporary tx' = tx_temporary tx" "tx_slot tx' = tx_slot tx" "tx_destination tx' = tx_destination tx" "w_slots w' = w_slots w"
    using assms(1) by (auto simp: close_staged_def store_data_def split: prod.splits if_splits option.splits)
  then show "tracked tx' w'" using assms(2) tracked_same by simp
  show "staged w0 dest tx' w'" if "staged w0 dest tx w"
    using staging_close(1) [OF assms(1)] that c by (simp add: staged_def)
  have "w' = w" if "tx_temporary tx = []" using assms(1) that by (auto simp: close_staged_def split: prod.splits)
  then show "concluded w0 dest ok tx' w'" if "concluded w0 dest ok tx w"
    using staging_close [OF assms(1)] that c by (cases ok) (auto simp: concluded_def)
qed

text \<open>A call that changes neither names, nodes nor slots.\<close>

lemma staged_same:
  assumes "staged w0 dest tx w" and "w_names w' = w_names w" and "w_nodes w' = w_nodes w" and "w_next w' = w_next w"
    and "w_slots w' = w_slots w" and "no_faults w'"
  shows "staged w0 dest tx w'"
  using assms slots_clear_same [OF assms(5), of tx] by (simp add: staged_def staging_def nodes_kept_def)

lemma step_permit:
  assumes "staged w0 dest tx w" and "copyPermissions tx w = (r, w')" and "tracked tx w"
  shows "staged w0 dest tx w' \<and> tracked tx w'"
  using staging_permissions [OF _ _ assms(2)] copyPermissions_slots [OF assms(2)] assms(1,3)
  by (simp add: staged_def tracked_def)

lemma step_rename:
  assumes "staged w0 dest tx w" and "tracked tx w" and "fs_rename (tx_temporary tx) (tx_destination tx) w = (e, w')"
  shows "if e = None then replaced w0 dest tx w' \<and> tracked tx w' else w' = w"
proof -
  note s = staged_facts [OF assms(1)]
  show ?thesis
    using assms s by (auto simp: fs_rename_def no_faults_take [OF s(2)] replaced_def staged_def staging_def nodes_kept_def tracked_def
        slots_clear_def fun_upd_idem no_faults_def split: option.splits if_splits)
qed

lemma step_untrack:
  assumes "replaced w0 dest tx w" and "tx_untrack tx w = (tx', w')" and "wf_world w0"
  shows "installed w0 w' dest" and "tx_slot tx' = None" and "sync_directory d w' = w'"
proof -
  have r: "slots_clear tx w" "no_faults w" "nodes_kept w0 w" "w_names w = (w_names w0)(dest \<mapsto> w_next w0)" "w_next w0 < w_next w"
    "nd_kind (w_nodes w (w_next w0)) = Regular" using assms(1) by (simp_all add: replaced_def)
  note u = tx_untrack_clear [OF assms(2) r(1)]
  have "wf_world w'" using wf_world_update [OF assms(3), of w' dest] u r by simp
  then show "installed w0 w' dest" using u r by (simp add: installed_def settled_def nodes_kept_def)
  show "tx_slot tx' = None" using u(2) by simp
  show "sync_directory d w' = w'" using u(6) r(2) by (intro sync_directory_quiet) simp
qed

lemma step_remove:
  assumes "concluded w0 dest ok tx w" and "tracked tx w"
  shows "removed w0 dest tx (if tx_temporary tx \<noteq> [] then fs_remove (tx_temporary tx) w else w)"
proof (cases ok)
  case True
  then have i: "installed w0 w dest" "tx_temporary tx = []" "tx_slot tx = None" using assms(1) by (simp_all add: concluded_def)
  then have "discarded w0 dest w" by (intro discarded_from_settled) (simp_all add: installed_def no_trace_def)
  then show ?thesis using i by (simp add: removed_def slots_clear_def installed_def settled_def)
next
  case False
  then have s: "staging w0 tx w" using assms(1) by (simp add: concluded_def)
  then have st: "no_faults w" "slots_clear tx w" "nodes_kept w0 w" by (simp_all add: staging_def)
  show ?thesis
  proof (cases "tx_temporary tx = []")
    case True
    then have "\<forall>s \<in> set (w_slots w). s = None" "w_names w = w_names w0" "w_next w = w_next w0"
      using s by (auto simp: staging_def slots_clear_def)
    then show ?thesis using True st by (auto simp: removed_def discarded_def no_trace_def)
  next
    case False
    let ?w = "fs_remove (tx_temporary tx) w"
    have r: "?w = w\<lparr>w_names := w_names w0\<rparr>"
      using s False by (auto simp: fs_remove_def no_faults_take staging_def fun_upd_idem)
    have "w_names w0 p = None" if "Some p \<in> set (w_slots w)" for p
      using slots_of_staged [OF st(2) assms(2) False] that s False by (simp add: staging_def)
    then have "discarded w0 dest ?w" using r st by (simp add: discarded_def no_trace_def nodes_kept_def no_faults_def)
    then show ?thesis using s False r st(2) by (simp add: removed_def staging_def)
  qed
qed

text \<open>The three calls: \<open>open\<close>, what happens up to the end of \<open>commit\<close>, and the destructor.\<close>

fun being_opened :: "stage \<Rightarrow> bool" where
  "being_opened Unopened = True"
| "being_opened (Attempting n tx) = True"
| "being_opened (Retrying n c tx) = True"
| "being_opened (Untracked tx) = True"
| "being_opened (Tracked tx) = True"
| "being_opened _ = False"

fun being_destroyed :: "stage \<Rightarrow> bool" where
  "being_destroyed (Closing tx) = True"
| "being_destroyed (Discarding tx) = True"
| "being_destroyed (Removed tx) = True"
| "being_destroyed _ = False"

lemma opening_ok:
  assumes "main_step nr dest ins s s'" and "main_ok w0 dest (fst s) (snd s)" and "settled w0" and "w_slots w0 \<noteq> []"
    and "being_opened (fst s)"
  shows "main_ok w0 dest (fst s') (snd s')"
  using assms(1,2)
proof cases
  case (Refuse w)
  have "idle w0 dest (tx_for dest ins) w"
    using assms(2-4) Refuse(1) staging_start [OF assms(3)]
    by (simp add: main_ok_def idle_def tx_for_def tx_new_def staging_def slots_clear_def)
  then show ?thesis using idle_closing Refuse(2) by simp
next
  case (Start w r w')
  have "idle w0 dest (tx_for dest ins) w'" using step_start [OF assms(3,4)] Start assms(2) by (simp add: main_ok_def)
  then show ?thesis using idle_closing Start(2) by (cases r) (simp_all add: main_ok_def)
next
  case (Give_up tx w)
  then show ?thesis using assms(2) idle_closing by (simp add: main_ok_def)
next
  case (Create tx w c w1 ok f w2 n)
  have i: "idle w0 dest tx w" using assms(2) Create(1) by (simp add: main_ok_def)
  then have "w_slots w \<noteq> []" by (simp add: idle_def)
  then show ?thesis using step_create [OF i Create(3,4)] Create(2) by (simp add: main_ok_def split: if_splits)
next
  case (Retry c w there w' n tx)
  have i: "idle w0 dest tx w" using assms(2) Retry(1) by (simp add: main_ok_def)
  then have "no_faults w" by (simp add: idle_def staging_def)
  then have "w' = w" using fs_exists_quiet [of w c] Retry(3) by simp
  then show ?thesis using i idle_closing Retry(2) by (simp add: main_ok_def)
next
  case (Track tx w tx' w')
  then have "staged w0 dest tx w" "tx_slot tx = None" "w_slots w \<noteq> []" using assms(2) by (simp_all add: main_ok_def)
  from step_track [OF this Track(3)] show ?thesis using Track(2) by (simp add: main_ok_def)
next
  case (Permit tx w r w')
  then have s: "staged w0 dest tx w" "tracked tx w" using assms(2) by (simp_all add: main_ok_def)
  have "staged w0 dest tx w' \<and> tracked tx w'" by (rule step_permit [OF s(1) Permit(3) s(2)])
  then show ?thesis using staged_closing Permit(2) by (cases r) (simp_all add: main_ok_def)
qed (use assms(5) in simp_all)

lemma committing_ok:
  assumes "main_step nr dest ins s s'" and "main_ok w0 dest (fst s) (snd s)" and "settled w0" and "w_slots w0 \<noteq> []"
    and "\<not> being_opened (fst s)" and "\<not> being_destroyed (fst s)"
  shows "main_ok w0 dest (fst s') (snd s')"
  using assms(1,2)
proof cases
  case (Write tx w f)
  then show ?thesis using assms(2) by (simp add: main_ok_def staged_def)
next
  case (Fail tx w)
  then show ?thesis using assms(2) staged_closing by (simp add: main_ok_def)
next
  case (Commit_close tx w closed tx' w')
  have "staged w0 dest tx w" "tracked tx w" using assms(2) Commit_close(1) by (simp_all add: main_ok_def)
  then have "staged w0 dest tx' w'" "tracked tx' w'" using step_close [OF Commit_close(4)] by blast+
  then show ?thesis using staged_closing Commit_close(2) by (simp add: main_ok_def)
next
  case (Commit_sync tx w ok w')
  have s: "staged w0 dest tx w" "tracked tx w" using assms(2) Commit_sync(1) by (simp_all add: main_ok_def)
  note q = sync_file_quiet [OF staged_facts(2) [OF s(1)] Commit_sync(3)]
  have "staged w0 dest tx w'" "tracked tx w'" using staged_same [OF s(1) q(1-4)] q s(2) by (simp_all add: tracked_def)
  then show ?thesis using staged_closing Commit_sync(2) by (simp add: main_ok_def)
next
  case (Commit_check tx w r w')
  have s: "staged w0 dest tx w" "tracked tx w" using assms(2) Commit_check(1) by (simp_all add: main_ok_def)
  then have "w' = w" using validateDestination_quiet [OF staged_facts(2) [OF s(1)], of tx] Commit_check(3) by simp
  then show ?thesis using s staged_closing Commit_check(2) by (cases r) (simp_all add: main_ok_def)
next
  case (Commit_rename tx w e w')
  have s: "staged w0 dest tx w" "tracked tx w" using assms(2) Commit_rename(1) by (simp_all add: main_ok_def)
  then show ?thesis using step_rename [OF s Commit_rename(3)] staged_closing Commit_rename(2) by (simp add: main_ok_def split: if_splits)
next
  case (Commit_untrack tx w tx' w')
  have r: "replaced w0 dest tx w" "wf_world w0" using assms(2,3) Commit_untrack(1) by (simp_all add: main_ok_def settled_def)
  note u = step_untrack [OF r(1) Commit_untrack(3) r(2)]
  have "concluded w0 dest True (tx'\<lparr>tx_temporary := []\<rparr>) w'" using u by (simp add: concluded_def)
  then show ?thesis using u(3) Commit_untrack(2) by (auto simp: main_ok_def tracked_def)
qed (use assms(5-6) in simp_all)

lemma destroying_ok:
  assumes "main_step nr dest ins s s'" and "main_ok w0 dest (fst s) (snd s)" and "settled w0" and "w_slots w0 \<noteq> []"
    and "being_destroyed (fst s)"
  shows "main_ok w0 dest (fst s') (snd s')"
  using assms(1,2)
proof cases
  case (Destroy_close tx w closed tx' w')
  then obtain ok where s: "concluded w0 dest ok tx w" "tracked tx w" using assms(2) by (auto simp: main_ok_def)
  note c = step_close [OF Destroy_close(3) s(2)]
  from c(3) [OF s(1)] c(1) show ?thesis using Destroy_close(2) by (auto simp: main_ok_def)
next
  case (Destroy_remove tx w)
  then obtain ok where s: "concluded w0 dest ok tx w" "tracked tx w" using assms(2) by (auto simp: main_ok_def)
  from step_remove [OF s] show ?thesis using Destroy_remove(2) by (simp only: main_ok_def stage.case fst_conv snd_conv)
next
  case (Destroy_untrack tx w tx' w')
  have r: "removed w0 dest tx w" and wf: "wf_world w0" using assms(2,3) Destroy_untrack(1) by (simp_all add: main_ok_def settled_def)
  then have c: "slots_clear tx w" "no_faults w" "nodes_kept w0 w" by (simp_all add: removed_def discarded_def no_trace_def)
  note u = tx_untrack_clear [OF Destroy_untrack(3) c(1)]
  show ?thesis
  proof (cases "installed w0 w dest \<and> tx_slot tx = None")
    case True
    then show ?thesis using Destroy_untrack(2,3) by (simp add: main_ok_def tx_untrack_def)
  next
    case False
    then have n: "w_names w = w_names w0" "w_next w0 \<le> w_next w" using r by (auto simp: removed_def)
    then have "wf_world w'" using wf_world_same [OF wf] u by simp
    then have "restored w0 w'" using n u c by (simp add: restored_def settled_def nodes_kept_def)
    then show ?thesis using Destroy_untrack(2) by (simp add: main_ok_def)
  qed
qed (use assms(5) in simp_all)

lemma main_step_ok:
  assumes "main_step nr dest ins s s'" and "main_ok w0 dest (fst s) (snd s)" and "settled w0" and "w_slots w0 \<noteq> []"
  shows "main_ok w0 dest (fst s') (snd s')"
  using opening_ok [OF assms] committing_ok [OF assms] destroying_ok [OF assms] by blast

section \<open>What the handler makes of it\<close>

text \<open>Only the candidate that no slot names yet is beyond the reach of the handler.\<close>

definition left_behind :: "world \<Rightarrow> path \<Rightarrow> world \<Rightarrow> bool" where
  "left_behind w0 c w \<longleftrightarrow> no_faults w \<and> nodes_kept w0 w \<and> (\<forall>s \<in> set (w_slots w). s = None) \<and>
     w_names w0 c = None \<and> w_names w = (w_names w0)(c \<mapsto> w_next w0)"

definition cleaned :: "world \<Rightarrow> path \<Rightarrow> stage \<Rightarrow> world \<Rightarrow> bool" where
  "cleaned w0 dest st w \<longleftrightarrow>
     (case st of Untracked tx \<Rightarrow> left_behind w0 (tx_temporary tx) w | _ \<Rightarrow> discarded w0 dest w)"

lemma left_behind_again: "left_behind w0 c w \<Longrightarrow> left_behind w0 c (discard_all_staged w)"
  using discard_all_staged_effect [of w] by (auto simp: left_behind_def nodes_kept_def fun_eq_iff)

lemma cleaned_again: "cleaned w0 dest st w \<Longrightarrow> cleaned w0 dest st (discard_all_staged w)"
  using discarded_again left_behind_again by (cases st) (simp_all add: cleaned_def)

lemma replaced_discarded:
  assumes "replaced w0 dest tx w" and "tracked tx w"
  shows "discarded w0 dest (discard_all_staged w)"
proof -
  have r: "no_faults w" "slots_clear tx w" "nodes_kept w0 w" "tx_temporary tx \<noteq> []" "w_names w0 (tx_temporary tx) = None"
    "w_names w = (w_names w0)(dest \<mapsto> w_next w0)" using assms(1) by (simp_all add: replaced_def)
  note e = discard_all_staged_effect [OF r(1)]
  have n: "w_names (discard_all_staged w) = (w_names w)(tx_temporary tx := None)"
    using e(1) slots_of_staged [OF r(2) assms(2) r(4)] by (auto simp: fun_eq_iff)
  also have "\<dots> = (if tx_temporary tx = dest then w_names w0 else (w_names w0)(dest \<mapsto> w_next w0))"
    using r(5,6) by (auto simp: fun_eq_iff)
  finally have "no_trace w0 dest (discard_all_staged w)" using r(3) e(2) by (simp add: no_trace_def nodes_kept_def)
  moreover have "w_names (discard_all_staged w) p = None" if "Some p \<in> set (w_slots w)" for p using e(1) that by simp
  ultimately show ?thesis using e by (simp add: discarded_def)
qed

lemma idle_discarded: "idle w0 dest tx w \<Longrightarrow> discarded w0 dest (discard_all_staged w)"
  by (rule staging_discarded [of w0 tx]) (simp_all add: idle_def tracked_def)

lemma untracked_left:
  assumes "staged w0 dest tx w" and "tx_slot tx = None"
  shows "left_behind w0 (tx_temporary tx) w"
  using assms by (simp add: staged_def staging_def slots_clear_def left_behind_def)

lemma main_cleaned:
  assumes "main_ok w0 dest st w" and "settled w0"
  shows "cleaned w0 dest st (discard_all_staged w)"
proof -
  have r: "discarded w0 dest (discard_all_staged v)" if "restored w0 v" for v
    using that by (intro discarded_again discarded_from_settled) (simp_all add: restored_def no_trace_def)
  have i: "discarded w0 dest (discard_all_staged v)" if "installed w0 v dest" for v
    using that by (intro discarded_again discarded_from_settled) (simp_all add: installed_def no_trace_def)
  have c: "discarded w0 dest (discard_all_staged w)" if "concluded w0 dest ok tx w" "tracked tx w" for ok tx
    using that i staging_discarded by (cases ok) (simp_all add: concluded_def)
  have s: "discarded w0 dest (discard_all_staged w)" if "staged w0 dest tx w" "tracked tx w" for tx
    using staging_discarded [OF staged_facts(1) [OF that(1)] that(2)] .
  show ?thesis
  proof (cases "\<exists>tx. st = Untracked tx")
    case True
    then show ?thesis using assms(1) untracked_left left_behind_again by (auto simp: main_ok_def cleaned_def)
  next
    case False
    have "discarded w0 dest (discard_all_staged w)"
      using assms(1) False r [OF restored_refl [OF assms(2)]] r i c s idle_discarded replaced_discarded discarded_again
      by (cases st) (auto simp: main_ok_def removed_def)
    then show ?thesis using False by (cases st) (simp_all add: cleaned_def)
  qed
qed

end
