(* ===== verification/Signal_Cleanup.thy ===== *)
theory Signal_Cleanup imports Output_Steps begin

text \<open>
  What \<^verbatim>\<open>main.cpp\<close> does about signals: \<open>install_signal_cleanup\<close> and the handler
  \<open>discard_staged_and_reraise\<close>.  The process is a state machine in which the calls of one output
  transaction are interleaved with signals that arrive, wait while they are blocked, and run their
  handler, which other signals may interrupt.  Its invariant says that a signal the tool handles ends the
  process only after what was staged has been removed.
\<close>

section \<open>Signals and their actions\<close>

text \<open>\<open>OTHER n\<close> is any other signal whose default action ends the process, \<open>SIGKILL\<close> among them.\<close>

datatype signum = SIGINT | SIGTERM | SIGHUP | SIGQUIT | SIGXFSZ | OTHER nat

datatype sighandler = SIG_DFL | SIG_IGN | Discard_staged_and_reraise

text \<open>\<open>struct sigaction\<close>; the mask is always empty, so only the signal itself is blocked in its handler.\<close>

record sigaction =
  sa_handler :: sighandler
  sa_resethand :: bool

type_synonym actions = "signum \<Rightarrow> sigaction"



definition cleanup_action :: sigaction where
  "cleanup_action = \<lparr>sa_handler = Discard_staged_and_reraise, sa_resethand = True\<rparr>"



section \<open>The handler and the process\<close>

datatype handler_call = Discard_all_staged | Raise_again signum

text \<open>The body of the handler, a call after the other.\<close>

definition discard_staged_and_reraise :: "signum \<Rightarrow> handler_call list" where
  "discard_staged_and_reraise s = [Discard_all_staged, Raise_again s]"

text \<open>The frames are the handlers that run, the innermost first, each with the calls it has left; a
  signal is blocked while a handler for it runs.\<close>

record process =
  pr_stage :: stage
  pr_world :: world
  pr_actions :: actions
  pr_frames :: "(signum \<times> handler_call list) list"
  pr_pending :: "signum set"
  pr_killed :: "signum option"

definition pr_blocked :: "process \<Rightarrow> signum set" where
  "pr_blocked pr = fst ` set (pr_frames pr)"

definition process_start :: "world \<Rightarrow> actions \<Rightarrow> process" where
  "process_start w acts = \<lparr>pr_stage = Unopened, pr_world = w, pr_actions = acts, pr_frames = [],
                           pr_pending = {}, pr_killed = None\<rparr>"

text \<open>What the process does by itself.  The program goes on only when no handler runs and no signal waits; a
  signal that waits and is not blocked is delivered.\<close>

inductive own_step :: "bool \<Rightarrow> path \<Rightarrow> path list \<Rightarrow> process \<Rightarrow> process \<Rightarrow> bool" for nr dest ins where
  Main: "pr_killed pr = None \<Longrightarrow> pr_frames pr = [] \<Longrightarrow> pr_pending pr = {} \<Longrightarrow>
     main_step nr dest ins (pr_stage pr, pr_world pr) (st, w) \<Longrightarrow>
     own_step nr dest ins pr (pr\<lparr>pr_stage := st, pr_world := w\<rparr>)"
| Ignore: "pr_killed pr = None \<Longrightarrow> s \<in> pr_pending pr - pr_blocked pr \<Longrightarrow> sa_handler (pr_actions pr s) = SIG_IGN \<Longrightarrow>
     own_step nr dest ins pr (pr\<lparr>pr_pending := pr_pending pr - {s}\<rparr>)"
| Kill: "pr_killed pr = None \<Longrightarrow> s \<in> pr_pending pr - pr_blocked pr \<Longrightarrow> sa_handler (pr_actions pr s) = SIG_DFL \<Longrightarrow>
     own_step nr dest ins pr (pr\<lparr>pr_killed := Some s\<rparr>)"
| Handle: "pr_killed pr = None \<Longrightarrow> s \<in> pr_pending pr - pr_blocked pr \<Longrightarrow>
     sa_handler (pr_actions pr s) = Discard_staged_and_reraise \<Longrightarrow>
     own_step nr dest ins pr
       (pr\<lparr>pr_pending := pr_pending pr - {s},
           pr_actions := (if sa_resethand (pr_actions pr s)
                          then (pr_actions pr)(s := \<lparr>sa_handler = SIG_DFL, sa_resethand = False\<rparr>) else pr_actions pr),
           pr_frames := (s, discard_staged_and_reraise s) # pr_frames pr\<rparr>)"
| Discard: "pr_killed pr = None \<Longrightarrow> pr_frames pr = (s, Discard_all_staged # cs) # fs \<Longrightarrow>
     own_step nr dest ins pr (pr\<lparr>pr_world := discard_all_staged (pr_world pr), pr_frames := (s, cs) # fs\<rparr>)"
| Raise: "pr_killed pr = None \<Longrightarrow> pr_frames pr = (s, Raise_again t # cs) # fs \<Longrightarrow>
     own_step nr dest ins pr (pr\<lparr>pr_pending := insert t (pr_pending pr), pr_frames := (s, cs) # fs\<rparr>)"
| Return: "pr_killed pr = None \<Longrightarrow> pr_frames pr = (s, []) # fs \<Longrightarrow>
     own_step nr dest ins pr (pr\<lparr>pr_frames := fs\<rparr>)"

text \<open>Signals arrive at any time.\<close>

inductive process_step :: "bool \<Rightarrow> path \<Rightarrow> path list \<Rightarrow> process \<Rightarrow> process \<Rightarrow> bool" for nr dest ins where
  Own: "own_step nr dest ins pr pr' \<Longrightarrow> process_step nr dest ins pr pr'"
| Arrive: "pr_killed pr = None \<Longrightarrow> process_step nr dest ins pr (pr\<lparr>pr_pending := insert s (pr_pending pr)\<rparr>)"


section \<open>What the registration does\<close>


section \<open>The invariant of the process\<close>

text \<open>How far the handling of a signal with the clean-up action has come.  Once the handler has begun, the
  action is the default one and the clean-up is either still to be done by a handler that runs, or done.\<close>

definition default_action :: sigaction where
  "default_action = \<lparr>sa_handler = SIG_DFL, sa_resethand = False\<rparr>"

definition handling_ok :: "bool \<Rightarrow> process \<Rightarrow> signum \<Rightarrow> bool" where
  "handling_ok done pr s \<longleftrightarrow>
     (case map_of (pr_frames pr) s of
        Some cs \<Rightarrow> pr_actions pr s = default_action \<and>
          (cs = discard_staged_and_reraise s \<or> done \<and> (cs = [Raise_again s] \<or> cs = [] \<and> s \<in> pr_pending pr))
      | None \<Rightarrow> pr_actions pr s = cleanup_action \<or> pr_actions pr s = default_action \<and> s \<in> pr_pending pr \<and> done)"



lemma action_simps [simp]:
  "sa_handler cleanup_action = Discard_staged_and_reraise" "sa_resethand cleanup_action"
  "sa_handler default_action = SIG_DFL" "cleanup_action \<noteq> default_action" "default_action \<noteq> cleanup_action"
  by (simp_all add: cleanup_action_def default_action_def)


lemma handling_default: "handling_ok d pr s \<Longrightarrow> map_of (pr_frames pr) s = Some cs \<Longrightarrow> pr_actions pr s = default_action"
  by (simp add: handling_ok_def)














section \<open>A handled signal ends the process\<close>









section \<open>Interrupted runs\<close>

text \<open>A run of the program that no signal disturbs, and an interrupt where it stands: the handler discards
  what is staged and raises the signal again.\<close>

lemma main_run:
  assumes "(main_step nr dest ins)\<^sup>*\<^sup>* (Unopened, w) s"
  shows "(process_step nr dest ins)\<^sup>*\<^sup>* (process_start w acts) ((process_start w acts)\<lparr>pr_stage := fst s, pr_world := snd s\<rparr>)"
  using assms
proof induction
  case base
  show ?case by (simp add: process_start_def)
next
  case (step s t)
  let ?p = "\<lambda>s. (process_start w acts)\<lparr>pr_stage := fst s, pr_world := snd s\<rparr>"
  have "main_step nr dest ins (pr_stage (?p s), pr_world (?p s)) (fst t, snd t)" using step.hyps(2) by simp
  from own_step.Main [OF _ _ _ this] have "own_step nr dest ins (?p s) (?p t)" by (simp add: process_start_def)
  from rtranclp.rtrancl_into_rtrancl [OF step.IH process_step.Own [OF this]] show ?case .
qed

lemma interrupted_at:
  assumes "(main_step nr dest ins)\<^sup>*\<^sup>* (Unopened, w) (st, w')" and "acts SIGINT = cleanup_action"
  shows "\<exists>pr. (process_step nr dest ins)\<^sup>*\<^sup>* (process_start w acts) pr \<and> pr_killed pr = Some SIGINT \<and>
    pr_stage pr = st \<and> pr_world pr = discard_all_staged w'"
proof -
  define p1 where "p1 = (process_start w acts)\<lparr>pr_stage := st, pr_world := w'\<rparr>"
  define p2 where "p2 = p1\<lparr>pr_pending := {SIGINT}\<rparr>"
  define p3 where "p3 = p2\<lparr>pr_pending := {}, pr_actions := acts(SIGINT := default_action),
    pr_frames := [(SIGINT, discard_staged_and_reraise SIGINT)]\<rparr>"
  define p4 where "p4 = p3\<lparr>pr_world := discard_all_staged w', pr_frames := [(SIGINT, [Raise_again SIGINT])]\<rparr>"
  define p5 where "p5 = p4\<lparr>pr_pending := {SIGINT}, pr_frames := [(SIGINT, [])]\<rparr>"
  define p6 where "p6 = p5\<lparr>pr_frames := []\<rparr>"
  define p7 where "p7 = p6\<lparr>pr_killed := Some SIGINT\<rparr>"
  note defs = p1_def p2_def p3_def p4_def p5_def p6_def p7_def process_start_def pr_blocked_def
    default_action_def discard_staged_and_reraise_def
  have "(process_step nr dest ins)\<^sup>*\<^sup>* (process_start w acts) p1" using main_run [OF assms(1)] by (simp add: p1_def)
  moreover have "process_step nr dest ins p1 p2"
    using process_step.Arrive [of p1 nr dest ins SIGINT] by (simp add: defs)
  moreover have "own_step nr dest ins p2 p3"
    using own_step.Handle [of p2 SIGINT nr dest ins] assms(2) by (simp add: defs cleanup_action_def)
  moreover have "own_step nr dest ins p3 p4"
    using own_step.Discard [of p3 SIGINT "[Raise_again SIGINT]" "[]" nr dest ins] by (simp add: defs)
  moreover have "own_step nr dest ins p4 p5"
    using own_step.Raise [of p4 SIGINT SIGINT "[]" "[]" nr dest ins] by (simp add: defs)
  moreover have "own_step nr dest ins p5 p6"
    using own_step.Return [of p5 SIGINT "[]" nr dest ins] by (simp add: defs)
  moreover have "own_step nr dest ins p6 p7"
    using own_step.Kill [of p6 SIGINT nr dest ins] by (simp add: defs)
  ultimately have "(process_step nr dest ins)\<^sup>*\<^sup>* (process_start w acts) p7"
    by (meson process_step.Own rtranclp.rtrancl_into_rtrancl)
  then show ?thesis by (intro exI [of _ p7]) (simp add: defs)
qed

text \<open>The moment before tracking is real: an interrupt that arrives when the candidate has been created and no
  slot names it ends the process and leaves the candidate beside the output.\<close>

lemma interrupted_before_tracking:
  assumes "settled w" and "w_slots w \<noteq> []" and "dest \<noteq> []" and "filename dest \<noteq> []"
    and "validateDestination (tx_for dest ins) w = (Inr (), w)" and "candidate_path dest w = (c, w1)"
    and "fio_open nr c EXCLUSIVE_OUT (tx_file tx_new) w1 = (True, f, w2)" and "acts SIGINT = cleanup_action"
  shows "\<exists>pr. (process_step nr dest ins)\<^sup>*\<^sup>* (process_start w acts) pr \<and> pr_killed pr = Some SIGINT \<and>
    left_behind w c (pr_world pr)"
proof -
  let ?tx = "(tx_for dest ins)\<lparr>tx_file := f, tx_temporary := c\<rparr>"
  have i: "idle w dest (tx_for dest ins) w" using step_start [OF assms(1,2,5)] .
  have tx: "tx_destination (tx_for dest ins) = dest" "tx_file (tx_for dest ins) = tx_file tx_new" by (simp_all add: tx_for_def)
  have "main_step nr dest ins (Unopened, w) (Attempting (Suc 31) (tx_for dest ins), w)"
    using main_step.Start [OF assms(3-5)] by (simp add: eval_nat_numeral)
  moreover have "main_step nr dest ins (Attempting (Suc 31) (tx_for dest ins), w) (Untracked ?tx, w2)"
    using main_step.Create [of "tx_for dest ins" w c w1 nr True f w2 dest ins 31] assms(6,7) tx by simp
  ultimately have run: "(main_step nr dest ins)\<^sup>*\<^sup>* (Unopened, w) (Untracked ?tx, w2)"
    by (meson converse_rtranclp_into_rtranclp rtranclp.rtrancl_refl)
  have "staged w dest ?tx w2 \<and> tx_slot ?tx = None"
    using step_create [OF i, of c w1 nr True f w2] assms(6,7) tx by (simp add: tx_for_def tx_new_def)
  then have "left_behind w c (discard_all_staged w2)" using untracked_left [of w dest ?tx w2] left_behind_again by simp
  with interrupted_at [where acts = acts, OF run assms(8)] show ?thesis by metis
qed

section \<open>The property of the clean-up\<close>




end
