(* ===== verification/Blake2b_Contexts.thy ===== *)
theory Blake2b_Contexts imports Blake2b begin

text \<open>
  Who owns the digest contexts of \<^verbatim>\<open>src/src/blake2b.cpp\<close>.  The theory \<open>Blake2b\<close> gives an object the value
  of its context; here an object holds the pointer \<open>ctx_\<close>, and the contexts live in a store from which
  \<open>EVP_MD_CTX_new\<close> takes an address and to which \<open>EVP_MD_CTX_free\<close> returns it.  A program is a sequence of
  constructions, moves, calls and destructions of named objects.  Its execution over pointers is undefined
  (\<open>None\<close>) when it frees or uses a context that is not live; the theorems say that this never happens,
  that no context is left behind, and that the results are those of the objects as values.
\<close>

section \<open>The store of contexts\<close>

text \<open>\<open>bh_live\<close>: the contexts handed out and not yet freed.  \<open>bh_objs\<close>: the objects that exist, with their
  member \<open>ctx_\<close>, where \<open>None\<close> is the null pointer.\<close>

record ('v, 'c) blake_heap =
  bh_live :: "nat \<rightharpoonup> 'c"
  bh_objs :: "'v \<rightharpoonup> nat option"

text \<open>The allocator is a parameter: an address that is not in use.\<close>

definition fresh_addr :: "(nat set \<Rightarrow> nat) \<Rightarrow> bool" where
  "fresh_addr addr \<longleftrightarrow> (\<forall>X. finite X \<longrightarrow> addr X \<notin> X)"

definition evp_new :: "(nat set \<Rightarrow> nat) \<Rightarrow> 'c evp \<Rightarrow> ('v, 'c) blake_heap \<Rightarrow> nat option \<times> ('v, 'c) blake_heap" where
  "evp_new addr E s = (case MD_CTX_new E of
     None \<Rightarrow> (None, s)
   | Some c \<Rightarrow> let p = addr (dom (bh_live s)) in (Some p, s\<lparr>bh_live := (bh_live s)(p \<mapsto> c)\<rparr>))"

definition evp_free :: "nat \<Rightarrow> ('v, 'c) blake_heap \<Rightarrow> ('v, 'c) blake_heap option" where
  "evp_free p s = (if bh_live s p = None then None else Some (s\<lparr>bh_live := (bh_live s)(p := None)\<rparr>))"

text \<open>A call on the context at \<open>p\<close>; \<open>spoil\<close> is what a call that fails leaves of its context.\<close>

definition evp_call ::
  "('c \<Rightarrow> 'c) \<Rightarrow> ('c \<Rightarrow> ('r \<times> 'c) option) \<Rightarrow> nat option \<Rightarrow> ('v, 'c) blake_heap \<Rightarrow> ('r option \<times> ('v, 'c) blake_heap) option" where
  "evp_call spoil f p s = (case p of
     None \<Rightarrow> None
   | Some a \<Rightarrow> (case bh_live s a of
       None \<Rightarrow> None
     | Some c \<Rightarrow> (case f c of
         None \<Rightarrow> Some (None, s\<lparr>bh_live := (bh_live s)(a \<mapsto> spoil c)\<rparr>)
       | Some (r, c1) \<Rightarrow> Some (Some r, s\<lparr>bh_live := (bh_live s)(a \<mapsto> c1)\<rparr>))))"

section \<open>The members over pointers\<close>

text \<open>Each yields what the member returns, the digest or the exception, and the store.\<close>

type_synonym ('v, 'c) blake_result = "((string + bytes) \<times> ('v, 'c) blake_heap) option"

definition ptr_construct :: "(nat set \<Rightarrow> nat) \<Rightarrow> 'c evp \<Rightarrow> 'v \<Rightarrow> ('v, 'c) blake_heap \<Rightarrow> ('v, 'c) blake_result" where
  "ptr_construct addr E v s = (case evp_new addr E s of
     (None, s1) \<Rightarrow> Some (Inl ''BLAKE2b: EVP_MD_CTX_new failed'', s1)
   | (Some p, s1) \<Rightarrow> Some (Inr [], s1\<lparr>bh_objs := (bh_objs s1)(v \<mapsto> Some p)\<rparr>))"

definition ptr_release :: "nat option \<Rightarrow> ('v, 'c) blake_heap \<Rightarrow> ('v, 'c) blake_heap option" where
  "ptr_release p s = (case p of None \<Rightarrow> Some s | Some a \<Rightarrow> evp_free a s)"

definition ptr_destroy :: "'v \<Rightarrow> ('v, 'c) blake_heap \<Rightarrow> ('v, 'c) blake_result" where
  "ptr_destroy v s =
     Option.bind (bh_objs s v) (\<lambda>p.
     Option.bind (ptr_release p s) (\<lambda>s1.
     Some (Inr [], s1\<lparr>bh_objs := (bh_objs s1)(v := None)\<rparr>)))"

definition ptr_move_construct :: "'v \<Rightarrow> 'v \<Rightarrow> ('v, 'c) blake_heap \<Rightarrow> ('v, 'c) blake_result" where
  "ptr_move_construct v other s =
     Option.bind (bh_objs s other) (\<lambda>p.
     Some (Inr [], s\<lparr>bh_objs := (bh_objs s)(v \<mapsto> p, other \<mapsto> None)\<rparr>))"

definition ptr_move_assign :: "'v \<Rightarrow> 'v \<Rightarrow> ('v, 'c) blake_heap \<Rightarrow> ('v, 'c) blake_result" where
  "ptr_move_assign v other s =
     (if v = other then Some (Inr [], s)
      else
        Option.bind (bh_objs s v) (\<lambda>p.
        Option.bind (ptr_release p s) (\<lambda>s1.
        Option.bind (bh_objs s1 other) (\<lambda>q.
        Some (Inr [], s1\<lparr>bh_objs := (bh_objs s1)(v \<mapsto> q, other \<mapsto> None)\<rparr>)))))"

definition ptr_init :: "('c \<Rightarrow> 'c) \<Rightarrow> 'c evp \<Rightarrow> 'v \<Rightarrow> ('v, 'c) blake_heap \<Rightarrow> ('v, 'c) blake_result" where
  "ptr_init spoil E v s =
     Option.bind (bh_objs s v) (\<lambda>p.
     Option.bind (evp_call spoil (\<lambda>c. map_option (Pair ()) (DigestInit E c)) p s) (\<lambda>(r, s1).
     Some (case r of None \<Rightarrow> Inl ''BLAKE2b: EVP_DigestInit_ex failed'' | Some _ \<Rightarrow> Inr [], s1)))"

definition ptr_update :: "('c \<Rightarrow> 'c) \<Rightarrow> 'c evp \<Rightarrow> bytes \<Rightarrow> 'v \<Rightarrow> ('v, 'c) blake_heap \<Rightarrow> ('v, 'c) blake_result" where
  "ptr_update spoil E d v s =
     (if d = [] then Some (Inr [], s)
      else
        Option.bind (bh_objs s v) (\<lambda>p.
        Option.bind (evp_call spoil (\<lambda>c. map_option (Pair ()) (DigestUpdate E d c)) p s) (\<lambda>(r, s1).
        Some (case r of None \<Rightarrow> Inl ''BLAKE2b: EVP_DigestUpdate failed'' | Some _ \<Rightarrow> Inr [], s1))))"

definition ptr_finalize :: "('c \<Rightarrow> 'c) \<Rightarrow> 'c evp \<Rightarrow> bytes \<Rightarrow> 'v \<Rightarrow> ('v, 'c) blake_heap \<Rightarrow> ('v, 'c) blake_result" where
  "ptr_finalize spoil E dst v s =
     (if length dst < HASH_SIZE then Some (Inr dst, s)
      else
        Option.bind (bh_objs s v) (\<lambda>p.
        Option.bind (evp_call spoil (DigestFinal E) p s) (\<lambda>(r, s1).
        Some (case r of None \<Rightarrow> Inl ''BLAKE2b: EVP_DigestFinal_ex failed''
              | Some digest \<Rightarrow> Inr (digest @ drop (length digest) dst), s1))))"

section \<open>Programs\<close>

datatype 'v ctx_command =
    Construct 'v
  | Move_construct 'v 'v
  | Move_assign 'v 'v
  | Destroy 'v
  | Call_init 'v
  | Call_update 'v bytes
  | Call_finalize 'v bytes

text \<open>What the language lets a program do: an object is constructed once, and used while it exists.\<close>

fun in_scope :: "'v set \<Rightarrow> 'v ctx_command \<Rightarrow> bool" where
  "in_scope X (Construct v) = (v \<notin> X)"
| "in_scope X (Move_construct v u) = (v \<notin> X \<and> u \<in> X)"
| "in_scope X (Move_assign v u) = (v \<in> X \<and> u \<in> X)"
| "in_scope X (Destroy v) = (v \<in> X)"
| "in_scope X (Call_init v) = (v \<in> X)"
| "in_scope X (Call_update v d) = (v \<in> X)"
| "in_scope X (Call_finalize v dst) = (v \<in> X)"

fun ptr_member ::
  "(nat set \<Rightarrow> nat) \<Rightarrow> ('c \<Rightarrow> 'c) \<Rightarrow> 'c evp \<Rightarrow> 'v ctx_command \<Rightarrow> ('v, 'c) blake_heap \<Rightarrow> ('v, 'c) blake_result" where
  "ptr_member addr spoil E (Construct v) s = ptr_construct addr E v s"
| "ptr_member addr spoil E (Move_construct v u) s = ptr_move_construct v u s"
| "ptr_member addr spoil E (Move_assign v u) s = ptr_move_assign v u s"
| "ptr_member addr spoil E (Destroy v) s = ptr_destroy v s"
| "ptr_member addr spoil E (Call_init v) s = ptr_init spoil E v s"
| "ptr_member addr spoil E (Call_update v d) s = ptr_update spoil E d v s"
| "ptr_member addr spoil E (Call_finalize v dst) s = ptr_finalize spoil E dst v s"

fun ptr_run ::
  "(nat set \<Rightarrow> nat) \<Rightarrow> ('c \<Rightarrow> 'c) \<Rightarrow> 'c evp \<Rightarrow> 'v ctx_command list \<Rightarrow> ('v, 'c) blake_heap \<Rightarrow>
    ((string + bytes) list \<times> ('v, 'c) blake_heap) option" where
  "ptr_run addr spoil E [] s = Some ([], s)"
| "ptr_run addr spoil E (k # ks) s =
     (if in_scope (dom (bh_objs s)) k
      then Option.bind (ptr_member addr spoil E k s) (\<lambda>(r, s1).
           Option.bind (ptr_run addr spoil E ks s1) (\<lambda>(rs, s2). Some (r # rs, s2)))
      else None)"

section \<open>The same programs over values\<close>

text \<open>Objects as the theory \<open>Blake2b\<close> has them.  A digest call on an object whose context was moved away is
  outside the contract of OpenSSL; only there, and out of scope, a program has no meaning.\<close>

type_synonym ('v, 'c) blake_objs = "'v \<rightharpoonup> 'c BLAKE2b"

definition value_call ::
  "('c \<Rightarrow> 'c) \<Rightarrow> ('c BLAKE2b \<Rightarrow> string + (bytes \<times> 'c BLAKE2b)) \<Rightarrow> 'v \<Rightarrow> ('v, 'c) blake_objs \<Rightarrow>
    ((string + bytes) \<times> ('v, 'c) blake_objs) option" where
  "value_call spoil m v V =
     Option.bind (V v) (\<lambda>u. Option.bind (ctx u) (\<lambda>c.
       Some (case m u of Inl e \<Rightarrow> (Inl e, V(v \<mapsto> \<lparr>ctx = Some (spoil c)\<rparr>)) | Inr (r, u1) \<Rightarrow> (Inr r, V(v \<mapsto> u1)))))"

definition no_bytes :: "string + 'u \<Rightarrow> string + (bytes \<times> 'u)" where
  "no_bytes r = bind_sum r (\<lambda>u. Inr ([], u))"

fun value_member ::
  "('c \<Rightarrow> 'c) \<Rightarrow> 'c evp \<Rightarrow> 'v ctx_command \<Rightarrow> ('v, 'c) blake_objs \<Rightarrow> ((string + bytes) \<times> ('v, 'c) blake_objs) option" where
  "value_member spoil E (Construct v) V =
     Some (case blake_new E of Inl e \<Rightarrow> (Inl e, V) | Inr u \<Rightarrow> (Inr [], V(v \<mapsto> u)))"
| "value_member spoil E (Move_construct v other) V =
     Option.bind (V other) (\<lambda>u. case blake_move u of (mine, rest) \<Rightarrow> Some (Inr [], V(v \<mapsto> mine, other \<mapsto> rest)))"
| "value_member spoil E (Move_assign v other) V =
     (if v = other then Some (Inr [], V)
      else Option.bind (V other) (\<lambda>u. case blake_move u of (mine, rest) \<Rightarrow> Some (Inr [], V(v \<mapsto> mine, other \<mapsto> rest))))"
| "value_member spoil E (Destroy v) V = Some (Inr [], V(v := None))"
| "value_member spoil E (Call_init v) V = value_call spoil (\<lambda>u. no_bytes (blake_init E u)) v V"
| "value_member spoil E (Call_update v d) V =
     (if d = [] then Some (Inr [], V) else value_call spoil (\<lambda>u. no_bytes (blake_update E d u)) v V)"
| "value_member spoil E (Call_finalize v dst) V =
     (if length dst < HASH_SIZE then Some (Inr dst, V) else value_call spoil (blake_finalize E dst) v V)"

fun value_run ::
  "('c \<Rightarrow> 'c) \<Rightarrow> 'c evp \<Rightarrow> 'v ctx_command list \<Rightarrow> ('v, 'c) blake_objs \<Rightarrow> ((string + bytes) list \<times> ('v, 'c) blake_objs) option" where
  "value_run spoil E [] V = Some ([], V)"
| "value_run spoil E (k # ks) V =
     (if in_scope (dom V) k
      then Option.bind (value_member spoil E k V) (\<lambda>(r, V1).
           Option.bind (value_run spoil E ks V1) (\<lambda>(rs, V2). Some (r # rs, V2)))
      else None)"

section \<open>Ownership\<close>

text \<open>Every live context has exactly one owner, and every pointer that is not null points to a live one.\<close>

definition owned :: "('v, 'c) blake_heap \<Rightarrow> bool" where
  "owned s \<longleftrightarrow> finite (dom (bh_live s)) \<and>
     (\<forall>p. bh_live s p \<noteq> None \<longleftrightarrow> (\<exists>v. bh_objs s v = Some (Some p))) \<and>
     (\<forall>u v p. bh_objs s u = Some (Some p) \<longrightarrow> bh_objs s v = Some (Some p) \<longrightarrow> u = v)"

definition blake_values :: "('v, 'c) blake_heap \<Rightarrow> ('v, 'c) blake_objs" where
  "blake_values s v = map_option (\<lambda>p. \<lparr>ctx = Option.bind p (bh_live s)\<rparr>) (bh_objs s v)"

definition no_contexts :: "('v, 'c) blake_heap" where
  "no_contexts = \<lparr>bh_live = Map.empty, bh_objs = Map.empty\<rparr>"

lemma owned_no_contexts: "owned no_contexts" and values_no_contexts: "blake_values no_contexts = Map.empty"
  by (simp_all add: owned_def no_contexts_def blake_values_def fun_eq_iff)

lemma dom_values: "dom (blake_values s) = dom (bh_objs s)"
  by (auto simp: blake_values_def)

lemma owned_live:
  assumes "owned s" and "bh_objs s v = Some (Some p)"
  obtains c where "bh_live s p = Some c"
  using assms unfolding owned_def by blast

lemma owned_unique:
  assumes "owned s" and "bh_objs s v = Some (Some p)" and "u \<noteq> v"
  shows "bh_objs s u \<noteq> Some (Some p)"
  using assms unfolding owned_def by blast

lemma ownedI:
  assumes "finite (dom (bh_live s))"
    and "\<And>p c. bh_live s p = Some c \<Longrightarrow> \<exists>v. bh_objs s v = Some (Some p)"
    and "\<And>v p. bh_objs s v = Some (Some p) \<Longrightarrow> bh_live s p \<noteq> None"
    and "\<And>u v p. bh_objs s u = Some (Some p) \<Longrightarrow> bh_objs s v = Some (Some p) \<Longrightarrow> u = v"
  shows "owned s"
  unfolding owned_def using assms by blast

lemma ownedD:
  assumes "owned s"
  shows "finite (dom (bh_live s))" and "bh_live s p = Some c \<Longrightarrow> \<exists>v. bh_objs s v = Some (Some p)"
    and "bh_objs s v = Some (Some p) \<Longrightarrow> bh_live s p \<noteq> None"
    and "bh_objs s u = Some (Some p) \<Longrightarrow> bh_objs s v = Some (Some p) \<Longrightarrow> u = v"
  using assms unfolding owned_def by blast+

section \<open>What the members do to the store\<close>

lemma owned_null: "owned s \<Longrightarrow> bh_objs s v = Some p \<Longrightarrow> Option.bind p (bh_live s) = None \<longleftrightarrow> p = None"
  unfolding owned_def by (cases p) auto

lemma values_at: "bh_objs s v = Some p \<Longrightarrow> blake_values s v = Some \<lparr>ctx = Option.bind p (bh_live s)\<rparr>"
  by (simp add: blake_values_def)

lemma owned_store:
  assumes "owned s" and "bh_objs s v = Some (Some a)"
  shows "owned (s\<lparr>bh_live := (bh_live s)(a \<mapsto> c)\<rparr>)"
    and "blake_values (s\<lparr>bh_live := (bh_live s)(a \<mapsto> c)\<rparr>) = (blake_values s)(v \<mapsto> \<lparr>ctx = Some c\<rparr>)"
proof -
  show "owned (s\<lparr>bh_live := (bh_live s)(a \<mapsto> c)\<rparr>)" using assms unfolding owned_def by auto
  have "bh_objs s u \<noteq> Some (Some a)" if "u \<noteq> v" for u by (rule owned_unique [OF assms that])
  then show "blake_values (s\<lparr>bh_live := (bh_live s)(a \<mapsto> c)\<rparr>) = (blake_values s)(v \<mapsto> \<lparr>ctx = Some c\<rparr>)"
    using assms(2) by (auto simp: blake_values_def fun_eq_iff map_option_case split: option.split Option.bind_split)
qed

lemma owned_fresh:
  fixes s :: "('v, 'c) blake_heap" and c :: 'c
  assumes "owned s" and "bh_objs s v = None" and "bh_live s p = None"
  defines "s1 \<equiv> s\<lparr>bh_live := (bh_live s)(p \<mapsto> c), bh_objs := (bh_objs s)(v \<mapsto> Some p)\<rparr>"
  shows "owned s1" and "blake_values s1 = (blake_values s)(v \<mapsto> \<lparr>ctx = Some c\<rparr>)"
proof -
  have p: "bh_objs s u \<noteq> Some (Some p)" for u using ownedD(3) [OF assms(1)] assms(3) by metis
  show "owned s1"
  proof (rule ownedI)
    fix p' c' assume "bh_live s1 p' = Some c'"
    then consider "p' = p" | "p' \<noteq> p" "bh_live s p' = Some c'" by (cases "p' = p") (simp_all add: s1_def)
    then show "\<exists>u. bh_objs s1 u = Some (Some p')"
    proof cases
      case 2
      then obtain u where "bh_objs s u = Some (Some p')" using ownedD(2) [OF assms(1)] by blast
      then show ?thesis using assms(2) by (intro exI [of _ u]) (auto simp: s1_def)
    qed (auto simp: s1_def)
  qed (use ownedD(1,3,4) [OF assms(1)] p in \<open>auto simp: s1_def split: if_splits\<close>)
  show "blake_values s1 = (blake_values s)(v \<mapsto> \<lparr>ctx = Some c\<rparr>)"
    using p by (auto simp: blake_values_def s1_def fun_eq_iff map_option_case split: option.split Option.bind_split)
qed

lemma owned_release:
  assumes "owned s" and "bh_objs s v = Some p"
  obtains s1 where "ptr_release p s = Some s1" and "bh_objs s1 = bh_objs s"
    and "owned (s1\<lparr>bh_objs := (bh_objs s)(v := None)\<rparr>)"
    and "blake_values (s1\<lparr>bh_objs := (bh_objs s)(v := None)\<rparr>) = (blake_values s)(v := None)"
proof (cases p)
  case None
  show thesis
  proof (rule that)
    show "ptr_release p s = Some s" by (simp add: ptr_release_def None)
    show "owned (s\<lparr>bh_objs := (bh_objs s)(v := None)\<rparr>)"
    proof (rule ownedI)
      fix p' c assume "bh_live (s\<lparr>bh_objs := (bh_objs s)(v := None)\<rparr>) p' = Some c"
      then obtain u where "bh_objs s u = Some (Some p')" using ownedD(2) [OF assms(1)] by auto
      then show "\<exists>u. bh_objs (s\<lparr>bh_objs := (bh_objs s)(v := None)\<rparr>) u = Some (Some p')"
        using assms(2) None by (intro exI [of _ u]) auto
    qed (use ownedD(1,3,4) [OF assms(1)] in \<open>auto split: if_splits\<close>)
  qed (auto simp: blake_values_def fun_eq_iff)
next
  case (Some a)
  obtain c where c: "bh_live s a = Some c" using ownedD(3) [OF assms(1), of v a] assms(2) Some by auto
  have u: "bh_objs s u \<noteq> Some (Some a)" if "u \<noteq> v" for u
    using owned_unique [OF assms(1) _ that] assms(2) Some by simp
  show thesis
  proof (rule that)
    show "ptr_release p s = Some (s\<lparr>bh_live := (bh_live s)(a := None)\<rparr>)"
      using c by (simp add: ptr_release_def evp_free_def Some)
    show "owned (s\<lparr>bh_live := (bh_live s)(a := None), bh_objs := (bh_objs s)(v := None)\<rparr>)" (is "owned ?s")
    proof (rule ownedI)
      fix p' c' assume "bh_live ?s p' = Some c'"
      then have n: "p' \<noteq> a" and "bh_live s p' = Some c'" by (simp_all split: if_splits)
      then obtain w where "bh_objs s w = Some (Some p')" using ownedD(2) [OF assms(1)] by blast
      then show "\<exists>w. bh_objs ?s w = Some (Some p')" using assms(2) Some n by (intro exI [of _ w]) auto
    next
      fix w p' assume "bh_objs ?s w = Some (Some p')"
      then have w: "w \<noteq> v" "bh_objs s w = Some (Some p')" by (simp_all split: if_splits)
      then have "p' \<noteq> a" using u by blast
      then show "bh_live ?s p' \<noteq> None" using ownedD(3) [OF assms(1) w(2)] by simp
    qed (use ownedD(1,3,4) [OF assms(1)] in \<open>auto split: if_splits\<close>)
  qed (use u in \<open>auto simp: blake_values_def fun_eq_iff map_option_case split: option.split Option.bind_split\<close>)
qed

lemma owned_transfer:
  assumes "owned s" and "bh_objs s v = None" and "bh_objs s other = Some q"
  defines "s1 \<equiv> s\<lparr>bh_objs := (bh_objs s)(v \<mapsto> q, other \<mapsto> None)\<rparr>"
  shows "owned s1"
    and "blake_values s1 = (blake_values s)(v \<mapsto> \<lparr>ctx = Option.bind q (bh_live s)\<rparr>, other \<mapsto> \<lparr>ctx = None\<rparr>)"
proof -
  have n: "v \<noteq> other" using assms(2,3) by auto
  have holds: "bh_objs s1 u = Some (Some p) \<longleftrightarrow> u \<noteq> other \<and> bh_objs s (if u = v then other else u) = Some (Some p)" for u p
    using n assms(3) by (simp add: s1_def)
  show "owned s1"
  proof (rule ownedI)
    fix p c assume "bh_live s1 p = Some c"
    then obtain u where u: "bh_objs s u = Some (Some p)" using ownedD(2) [OF assms(1)] by (auto simp: s1_def)
    then show "\<exists>u. bh_objs s1 u = Some (Some p)"
      using assms(2) n by (intro exI [of _ "if u = other then v else u"]) (auto simp: holds)
  next
    fix u w p assume "bh_objs s1 u = Some (Some p)" and "bh_objs s1 w = Some (Some p)"
    then show "u = w" using ownedD(4) [OF assms(1)] by (auto simp: holds split: if_splits)
  qed (use ownedD(1,3,4) [OF assms(1)] assms(3) in \<open>auto simp: s1_def split: if_splits\<close>)
  show "blake_values s1 = (blake_values s)(v \<mapsto> \<lparr>ctx = Option.bind q (bh_live s)\<rparr>, other \<mapsto> \<lparr>ctx = None\<rparr>)"
    by (auto simp: blake_values_def s1_def fun_eq_iff)
qed

section \<open>Pointers implement values\<close>

text \<open>A result over pointers matches one over values: both are undefined, or they are the same and the
  contexts are still owned.\<close>

definition matches :: "('r \<times> ('v, 'c) blake_heap) option \<Rightarrow> ('r \<times> ('v, 'c) blake_objs) option \<Rightarrow> bool" where
  "matches x y \<longleftrightarrow> (case x of None \<Rightarrow> y = None | Some (r, s) \<Rightarrow> owned s \<and> y = Some (r, blake_values s))"

lemma matches_simps [simp]:
  "matches None y \<longleftrightarrow> y = None" "matches (Some (r, s)) y \<longleftrightarrow> owned s \<and> y = Some (r, blake_values s)"
  by (simp_all add: matches_def)

lemma matches_bind:
  assumes "matches x y" and "\<And>r s. owned s \<Longrightarrow> matches (f (r, s)) (g (r, blake_values s))"
  shows "matches (Option.bind x f) (Option.bind y g)"
proof (cases x)
  case (Some rs)
  then obtain r s where "x = Some (r, s)" by (cases rs) auto
  then show ?thesis using assms by simp
qed (use assms(1) in simp)

lemma construct_matches:
  assumes "owned s" and "fresh_addr addr" and "bh_objs s v = None"
  shows "matches (ptr_construct addr E v s) (value_member spoil E (Construct v) (blake_values s))"
proof (cases "MD_CTX_new E")
  case (Some c)
  let ?p = "addr (dom (bh_live s))"
  have "bh_live s ?p = None" using assms(2) ownedD(1) [OF assms(1)] unfolding fresh_addr_def by (meson domIff)
  from owned_fresh [OF assms(1,3) this, of c] show ?thesis
    by (simp add: ptr_construct_def evp_new_def blake_new_def Some Let_def)
qed (use assms(1) in \<open>simp add: ptr_construct_def evp_new_def blake_new_def\<close>)

lemma destroy_matches:
  assumes "owned s" and "bh_objs s v = Some p"
  shows "matches (ptr_destroy v s) (value_member spoil E (Destroy v) (blake_values s))"
  by (rule owned_release [OF assms]) (simp add: ptr_destroy_def assms(2))

lemma move_construct_matches:
  assumes "owned s" and "bh_objs s v = None" and "bh_objs s u = Some q"
  shows "matches (ptr_move_construct v u s) (value_member spoil E (Move_construct v u) (blake_values s))"
  using owned_transfer [OF assms] by (simp add: ptr_move_construct_def assms(3) values_at blake_move_def)

lemma move_assign_matches:
  assumes "owned s" and "bh_objs s v = Some p" and "bh_objs s u = Some q"
  shows "matches (ptr_move_assign v u s) (value_member spoil E (Move_assign v u) (blake_values s))"
proof (cases "v = u")
  case False
  obtain s1 where s1: "ptr_release p s = Some s1" "bh_objs s1 = bh_objs s"
    and rest: "owned (s1\<lparr>bh_objs := (bh_objs s)(v := None)\<rparr>)"
      "blake_values (s1\<lparr>bh_objs := (bh_objs s)(v := None)\<rparr>) = (blake_values s)(v := None)" (is "blake_values ?s2 = _")
    by (rule owned_release [OF assms(1,2)])
  have u: "bh_objs ?s2 v = None" "bh_objs ?s2 u = Some q" using False assms(3) by simp_all
  note t = owned_transfer [OF rest(1) u]
  have "blake_values ?s2 u = Some \<lparr>ctx = Option.bind q (bh_live s1)\<rparr>" using values_at [OF u(2)] by simp
  then have "blake_values s u = Some \<lparr>ctx = Option.bind q (bh_live s1)\<rparr>" using rest(2) False by simp
  then show ?thesis
    using t rest(2) False by (simp add: ptr_move_assign_def assms(2,3) s1 blake_move_def)
qed (use assms(1) in \<open>simp add: ptr_move_assign_def\<close>)

lemma call_matches:
  assumes "owned s" and "bh_objs s v = Some p"
    and "\<And>c. m \<lparr>ctx = Some c\<rparr> = (case f c of None \<Rightarrow> Inl e | Some (r, c1) \<Rightarrow> Inr (g r, \<lparr>ctx = Some c1\<rparr>))"
  shows "matches (Option.bind (evp_call spoil f p s) (\<lambda>(r, s1). Some (case r of None \<Rightarrow> Inl e | Some x \<Rightarrow> Inr (g x), s1)))
    (value_call spoil m v (blake_values s))"
proof (cases p)
  case None
  then show ?thesis using assms(2) by (simp add: evp_call_def value_call_def values_at)
next
  case (Some a)
  then obtain c where c: "bh_live s a = Some c" using ownedD(3) [OF assms(1), of v a] assms(2) by auto
  have v: "bh_objs s v = Some (Some a)" using assms(2) Some by simp
  show ?thesis
    using owned_store [OF assms(1) v] by (auto simp: evp_call_def value_call_def values_at [OF v] Some c assms(3) split: option.split)
qed

lemma init_matches:
  assumes "owned s" and "bh_objs s v = Some p"
  shows "matches (ptr_init spoil E v s) (value_member spoil E (Call_init v) (blake_values s))"
  using call_matches [OF assms, where g = "\<lambda>_. []" and f = "\<lambda>c. map_option (Pair ()) (DigestInit E c)"
      and m = "\<lambda>u. no_bytes (blake_init E u)"]
  by (simp add: ptr_init_def assms(2) no_bytes_def blake_init_def bind_sum_def split: option.split)

lemma update_matches:
  assumes "owned s" and "bh_objs s v = Some p"
  shows "matches (ptr_update spoil E d v s) (value_member spoil E (Call_update v d) (blake_values s))"
proof (cases "d = []")
  case False
  show ?thesis
    using call_matches [OF assms, where g = "\<lambda>_. []" and f = "\<lambda>c. map_option (Pair ()) (DigestUpdate E d c)"
        and m = "\<lambda>u. no_bytes (blake_update E d u)"] False
    by (simp add: ptr_update_def assms(2) no_bytes_def blake_update_def bind_sum_def split: option.split)
qed (use assms(1) in \<open>simp add: ptr_update_def\<close>)

lemma finalize_matches:
  assumes "owned s" and "bh_objs s v = Some p"
  shows "matches (ptr_finalize spoil E dst v s) (value_member spoil E (Call_finalize v dst) (blake_values s))"
  using call_matches [OF assms, where g = "\<lambda>r. r @ drop (length r) dst" and f = "DigestFinal E"
      and m = "blake_finalize E dst"] assms(1)
  by (simp add: ptr_finalize_def assms(2) blake_finalize_def split: option.split)

lemma member_matches:
  assumes "owned s" and "fresh_addr addr" and "in_scope (dom (bh_objs s)) k"
  shows "matches (ptr_member addr spoil E k s) (value_member spoil E k (blake_values s))"
  using assms(3)
  by (cases k)
    (auto simp del: value_member.simps intro: construct_matches [OF assms(1,2)] destroy_matches [OF assms(1)]
      move_construct_matches [OF assms(1)] move_assign_matches [OF assms(1)] init_matches [OF assms(1)]
      update_matches [OF assms(1)] finalize_matches [OF assms(1)])

lemma run_matches:
  assumes "fresh_addr addr"
  shows "owned s \<Longrightarrow> matches (ptr_run addr spoil E ks s) (value_run spoil E ks (blake_values s))"
proof (induction ks arbitrary: s)
  case (Cons k ks)
  show ?case
  proof (cases "in_scope (dom (bh_objs s)) k")
    case True
    have "matches (Option.bind (ptr_member addr spoil E k s) (\<lambda>(r, s1).
             Option.bind (ptr_run addr spoil E ks s1) (\<lambda>(rs, s2). Some (r # rs, s2))))
           (Option.bind (value_member spoil E k (blake_values s)) (\<lambda>(r, V1).
             Option.bind (value_run spoil E ks V1) (\<lambda>(rs, V2). Some (r # rs, V2))))"
      by (rule matches_bind [OF member_matches [OF Cons.prems assms True]], simp,
          rule matches_bind [OF Cons.IH]) simp_all
    then show ?thesis using True by (simp add: dom_values)
  qed (simp add: dom_values)
qed simp

text \<open>C19 The objects may be taken for values: a program of constructions, moves, digest calls and destructions that
  starts without objects gives over pointers the results it gives over values, each object ends with the context
  it has as a value, and the program over pointers is undefined only where the one over values is, which is at a digest
  call on an object whose context was moved away.  No member frees or uses a context that is not live.\<close>

theorem pointer_objects_are_values:
  assumes "fresh_addr addr"
  shows "map_option (map_prod id blake_values) (ptr_run addr spoil E ks no_contexts) = value_run spoil E ks Map.empty"
  using run_matches [OF assms owned_no_contexts, of spoil E ks]
  by (auto simp: matches_def values_no_contexts split: option.splits prod.splits)

section \<open>Every context is freed once\<close>

lemma value_destroy_all:
  "distinct vs \<Longrightarrow> set vs = dom V \<Longrightarrow> value_run spoil E (map Destroy vs) V = Some (replicate (length vs) (Inr []), Map.empty)"
proof (induction vs arbitrary: V)
  case (Cons v vs)
  then have "distinct vs" and "set vs = dom (V(v := None))" and v: "v \<in> dom V" by auto
  from Cons.IH [OF this(1,2)] v show ?case by (simp del: fun_upd_apply)
next
  case Nil
  then have "dom V = {}" by simp
  then show ?case by simp
qed

lemma owned_no_objects:
  assumes "owned s" and "blake_values s = Map.empty"
  shows "s = no_contexts"
proof -
  have "dom (bh_objs s) = {}" using dom_values [of s] assms(2) by simp
  then have o: "bh_objs s = Map.empty" by simp
  then have "bh_live s p = None" for p using ownedD(2) [OF assms(1), of p] by (cases "bh_live s p") auto
  with o show ?thesis by (cases s) (simp add: no_contexts_def fun_eq_iff)
qed

text \<open>C20 However a program has constructed its objects, moved them over each other and used them, a live context
  belongs to exactly one object, and when the objects that are left are destroyed, in any order, every destructor is
  defined and no context stays behind: nothing is freed twice and nothing leaks.\<close>

theorem contexts_freed_once:
  assumes "fresh_addr addr" and "ptr_run addr spoil E ks no_contexts = Some (rs, s)"
    and "distinct vs" and "set vs = dom (bh_objs s)"
  shows "owned s \<and>
    ptr_run addr spoil E (map Destroy vs) s = Some (replicate (length vs) (Inr []), no_contexts)"
proof -
  have s: "owned s" using run_matches [OF assms(1) owned_no_contexts, of spoil E ks] assms(2) by simp
  have "matches (ptr_run addr spoil E (map Destroy vs) s) (Some (replicate (length vs) (Inr []), Map.empty))"
    using run_matches [OF assms(1) s, of spoil E "map Destroy vs"] value_destroy_all [OF assms(3), of "blake_values s"]
      assms(4) by (simp add: dom_values)
  then obtain s1 where "ptr_run addr spoil E (map Destroy vs) s = Some (replicate (length vs) (Inr []), s1)"
    and "owned s1" and "blake_values s1 = Map.empty" by (auto simp: matches_def split: option.splits prod.splits)
  with owned_no_objects s show ?thesis by blast
qed

text \<open>An allocator: the first address above all that are in use.\<close>

definition bump_addr :: "nat set \<Rightarrow> nat" where
  "bump_addr X = (if X = {} then 0 else Suc (Max X))"

lemma fresh_bump_addr: "fresh_addr bump_addr"
  unfolding fresh_addr_def bump_addr_def by (auto dest: Max_ge)

definition move_program :: "nat ctx_command list" where
  "move_program =
     [Construct 0, Call_init 0, Construct 1, Call_update 0 [7], Move_assign 1 0, Destroy 0, Move_construct 2 1,
      Move_assign 2 2, Call_finalize 2 (replicate 64 0)]"

theorem pointer_objects_are_values_witness:
  "map_option (map_prod id blake_values) (ptr_run bump_addr id record_evp move_program no_contexts) =
     Some ([Inr [], Inr [], Inr [], Inr [], Inr [], Inr [], Inr [], Inr [], Inr (7 # replicate 63 0)],
       [2 \<mapsto> \<lparr>ctx = Some [7]\<rparr>, 1 \<mapsto> \<lparr>ctx = None\<rparr>])"
proof -
  have "record_digest [7] = 7 # replicate 63 0" by (simp add: record_digest_def HASH_SIZE_def)
  then have "value_run id record_evp move_program Map.empty =
     Some ([Inr [], Inr [], Inr [], Inr [], Inr [], Inr [], Inr [], Inr [], Inr (7 # replicate 63 0)],
       [2 \<mapsto> \<lparr>ctx = Some [7]\<rparr>, 1 \<mapsto> \<lparr>ctx = None\<rparr>])"
    by (auto simp: move_program_def value_call_def no_bytes_def bind_sum_def blake_new_def blake_move_def
        blake_init_def blake_update_def blake_finalize_def record_evp_def HASH_SIZE_def fun_eq_iff)
  then show ?thesis by (simp only: pointer_objects_are_values [OF fresh_bump_addr])
qed

theorem contexts_freed_once_witness:
  "\<exists>rs s. ptr_run bump_addr id record_evp move_program no_contexts = Some (rs, s) \<and>
     ptr_run bump_addr id record_evp (map Destroy [1, 2]) s = Some ([Inr [], Inr []], no_contexts)"
proof -
  have "map_option (\<lambda>(rs, s). dom (bh_objs s)) (ptr_run bump_addr id record_evp move_program no_contexts) = Some {1, 2}"
    by (simp add: move_program_def no_contexts_def ptr_construct_def ptr_init_def ptr_update_def ptr_destroy_def
        ptr_move_construct_def ptr_move_assign_def ptr_finalize_def ptr_release_def evp_new_def evp_free_def evp_call_def
        bump_addr_def record_evp_def HASH_SIZE_def Let_def)
  then obtain rs s where r: "ptr_run bump_addr id record_evp move_program no_contexts = Some (rs, s)"
    and d: "set [1, 2] = dom (bh_objs s)" by auto
  from contexts_freed_once [OF fresh_bump_addr r _ d] r show ?thesis by simp
qed

end
