(* ===== verification/Spec2Isabelle.thy ===== *)
theory Spec2Isabelle
  imports Cli_Main Fuzz_Corpus Signal_Cleanup Blake2b_Contexts
begin

text \<open>
  \<^bold>\<open>What this is.\<close>  A model of \<^verbatim>\<open>roll\<close>, a binary delta tool: \<open>roll create\<close> cuts an old and a new file into
  content-defined chunks and writes a delta, \<open>roll apply\<close> turns the old file and the delta into the new
  file, \<open>roll view\<close> prints a delta.  The definitions are translations of \<^verbatim>\<open>src/src\<close>; the theorems say what
  the three commands guarantee, from the bits of the wire format up to the exit status.

  \<^bold>\<open>The parts and how they interact.\<close>  \<open>FileIO\<close> is a buffered \<open>std::fstream\<close>.  \<open>Signature\<close> reads a file
  through it, rolls \<open>RKFinger\<close> over it to find the boundaries of chunks and hashes each with \<open>BLAKE2b\<close>.
  \<open>Delta\<close> looks every new chunk up in a \<open>ChunkIndex\<close> of the old ones; a chunk that is new is shipped as it
  is or as a diff (\<open>myersSES\<close>, or a greedy diff where the edit distance is too large) against the old
  chunk in its place.  \<open>DeltaWriter\<close> and \<open>DeltaReader\<close> are the wire format.  \<open>Apply\<close> reads the stream,
  rebuilds chunk after chunk, checks every digest and the digest of the whole.  Both write through an
  \<open>OutputTransaction\<close>, which stages the output in a file of its own and renames it when all is well.
  \<open>main\<close> dispatches the commands and turns failures into exit statuses.

  \<^bold>\<open>Which theory models what.\<close>

  \<^item> \<^verbatim>\<open>Roll_Prelude\<close>: types, lemmas on lists and words.
  \<^item> \<^verbatim>\<open>Delta_Format\<close>: \<^verbatim>\<open>DeltaFormat.hpp\<close> and \<^verbatim>\<open>DeltaError.hpp\<close>.
  \<^item> \<^verbatim>\<open>Byte_Source\<close>: what \<open>DeltaReader\<close> uses of a file, as a record of operations in the state monad,
    and the locale \<open>byte_source\<close> that relates any such source to the list of its bytes.
  \<^item> \<^verbatim>\<open>File_IO\<close>: \<^verbatim>\<open>FileIO.cpp\<close> over a model of \<open>std::fstream\<close> (position, flags, and a plan of faults: every
    transfer may be told to fail or to stop short); the interpretation of \<open>byte_source\<close>.
  \<^item> \<^verbatim>\<open>File_System\<close>: the calls of \<open>std::filesystem\<close> and POSIX the sources make, over a world of names,
    nodes, a list of the error codes of the calls to come and a journal of the successful syncs
    and renames, and \<open>FileIO::open\<close>.
  \<^item> \<^verbatim>\<open>Output_Transaction\<close>: \<^verbatim>\<open>OutputTransaction.cpp\<close>; a step relation of all its operations and the
    signal handler.
  \<^item> \<^verbatim>\<open>Hash_Concepts\<close>, \<^verbatim>\<open>Blake2b\<close>, \<^verbatim>\<open>RK_Finger\<close>: \<^verbatim>\<open>HashConcepts.hpp\<close>, \<^verbatim>\<open>blake2b.cpp\<close>, \<^verbatim>\<open>RK_finger.hpp\<close>.
    \<^verbatim>\<open>Blake2b_Contexts\<close>: the same wrapper with its pointer, over a store of live contexts.  The
    locale \<open>rolling_fingerprint\<close> is the contract of a rolling hash, interpreted for \<open>RKFinger\<close>.
  \<^item> \<^verbatim>\<open>Signature_Gen\<close>: \<^verbatim>\<open>Signature.hpp\<close>.  \<^verbatim>\<open>Chunk_Index\<close>: \<^verbatim>\<open>ChunkIndex.hpp\<close>, with the locale \<open>chunk_lookup\<close>.
  \<^item> \<^verbatim>\<open>Delta_Codec\<close>: \<^verbatim>\<open>DeltaCodec.hpp\<close>.  \<^verbatim>\<open>Reader_Progress\<close>: every read consumes, for termination.
  \<^item> \<^verbatim>\<open>Diff_Ops\<close>: the effect of an opcode in \<^verbatim>\<open>Apply.hpp\<close>.  \<^verbatim>\<open>Myers\<close>, \<^verbatim>\<open>Delta_Diff\<close>: the search and the
    creation of diffs in \<^verbatim>\<open>Delta.hpp\<close>.
  \<^item> \<^verbatim>\<open>Apply_Delta\<close>: \<^verbatim>\<open>Apply.hpp\<close>.  \<^verbatim>\<open>Delta_Gen\<close>: \<open>generate_delta\<close> of \<^verbatim>\<open>Delta.hpp\<close>.
  \<^item> \<^verbatim>\<open>Fault_Free\<close>: what the calls do in a world without faults.  \<^verbatim>\<open>Round_Trip\<close>: generation and
    application put together.  \<^verbatim>\<open>Clean_Runs\<close>: the exact effect of both on the names of such a world.
  \<^item> \<^verbatim>\<open>Delta_Viewer\<close>: \<^verbatim>\<open>DeltaViewer.cpp\<close>.  \<^verbatim>\<open>Cli_Main\<close>: \<^verbatim>\<open>main.cpp\<close>.
  \<^item> \<^verbatim>\<open>Output_Steps\<close>: the transaction once more as a step relation of its single calls, of which \<open>tx_open\<close>,
    \<open>tx_commit\<close> and \<open>tx_destroy\<close> are runs.  \<^verbatim>\<open>Signal_Cleanup\<close>: the signal handler of \<^verbatim>\<open>main.cpp\<close>, as a state
    machine of the process that interleaves these calls with arriving signals.
  \<^item> \<^verbatim>\<open>Fuzz_Workspace\<close>: \<^verbatim>\<open>FuzzWorkspace.hpp\<close> and \<^verbatim>\<open>SeedData.hpp\<close>, with the locale \<open>scratch_files\<close>.
    \<^verbatim>\<open>Fuzz_Targets\<close>: \<^verbatim>\<open>fuzz_roundtrip.cpp\<close>, \<^verbatim>\<open>fuzz_apply.cpp\<close> and \<^verbatim>\<open>replay_main.cpp\<close>.
    \<^verbatim>\<open>Fuzz_Process\<close>: a target as a process, from the construction of its fixture at the first input to its
    destruction at the exit, and the sink for output.  \<^verbatim>\<open>Fuzz_Corpus\<close>: \<^verbatim>\<open>make_corpus.cpp\<close>.

  \<^bold>\<open>State and operations.\<close>  An object is a record with the members of the class; a method takes the
  object and returns it; a method that fails or throws returns a sum.  \<open>failure\<close> tells a \<open>DeltaError\<close> from
  an exception.  The disk is threaded as a \<open>world\<close>.  64-bit values whose overflow matters (fingerprints,
  varints, sizes on the command line, the output limit) are words; sizes bounded by the length of a file
  are naturals, with \<open>size_sub\<close> for subtraction on \<open>size_t\<close>.

  \<^bold>\<open>What the lemmas show.\<close>

  \<^item> Soundness holds for every plan of faults: a delta or an output is published only if it is right
    (\<open>generate_delta_sound\<close>, \<open>apply_delta_sound\<close>, \<open>signature_refines_chunking\<close>), and a command that fails
    leaves every file alone (\<open>transaction_touches_nothing\<close>, \<open>failed_command_untouched\<close>).
  \<^item> Completeness holds where nothing fails: creation and application succeed, the round trip gives
    back the new file (\<open>create_apply_roundtrip\<close>, \<open>command_line_roundtrip\<close>, \<open>applier_accepts_exactly\<close>).
  \<^item> The invariants the fuzz targets check hold for every input, on a workspace without faults
    (\<open>roundtrip_target_never_fails\<close>, \<open>apply_target_never_fails\<close>); no operation leaves a staged file
    behind there (\<open>operations_leave_no_trace\<close>).  A handled signal ends the process, whatever other
    signals arrive, and leaves no staged file behind (\<open>handled_signal_cleans_up\<close>), with one exception: in
    the moment between the creation of the candidate and the call that tracks it the candidate stays
    (\<open>interrupted_before_tracking\<close>).  A process of a target leaves the disk as it found it
    (\<open>fuzz_process_leaves_nothing\<close>).
  \<^item> Where the guarantees end is stated too: a change of a reused chunk that keeps the size of the new file is
    not noticed under a precomputed digest (see \<open>stale_signature_refused\<close>), and a candidate whose
    creation failed half-way stays on the disk (\<open>candidate_left_behind\<close>).
  \<^item> Ownership: the digest contexts behind \<open>BLAKE2b\<close> objects are freed once and used only while they are
    live, whatever moves a program makes, so that the objects may be modelled as values
    (\<open>pointer_objects_are_values\<close>, \<open>contexts_freed_once\<close>).
  \<^item> The wire format: readers and writers are inverse to each other, truncated and oversized records
    are refused, the viewer and the applier accept the same streams.
  \<^item> The algorithms: the search finds a shortest script, the rolled fingerprint is the polynomial of
    the window, fast reduction is the remainder, lookups are first matches, chunking is local.

  \<^bold>\<open>Parameters and hypotheses.\<close>  OpenSSL's digest is a record of operations; \<open>strong_hash_sound\<close> says that
  its calls compute some function \<open>D\<close> of the bytes, \<open>strong_hash_total\<close> that they do not fail.  \<open>record_evp\<close>
  is an instance on which the witnesses compute.  That no two different chunks of equal size share a
  truncated digest (\<open>digest_separates\<close>) is a hypothesis of the round trips only: without it the tool
  detects the collision by the digest of the whole file and \<open>apply\<close> fails.

  \<^bold>\<open>Termination.\<close>  There is no fuel: loops over a file end because every step takes a byte of what is
  left (measures on \<open>remaining\<close>), the search because of its limit of 256 edits, \<open>find_unused\<close> because its
  cursor moves on.

  \<^bold>\<open>Not modelled.\<close>  The Windows branches; the unit tests; accessors that return a constant or a member; the
  header the build generates, whose version is a parameter of \<open>main\<close> and whose test for
  \<open>std::ios::noreplace\<close> is the parameter \<open>nr\<close>.  The worker thread of \<open>create\<close> shares nothing with its
  parent, so it is a call with faults of its own.
\<close>


section \<open>The applier and the viewer agree\<close>

text \<open>C23 The applier and the viewer agree on the format: a delta that \<open>apply_delta\<close> turned into an output, with
  whatever faults on the way, is shown by \<open>view_delta\<close> with exit status 0 wherever its bytes are read
  without faults.\<close>

theorem applied_delta_is_viewable:
  assumes "apply_delta nr (rk_alg rk_default) U old_path delta_path out_path m w = (Inr stats, w')"
    and "strong_hash_sound U D msg" and "sh_size U = HASH_SIZE"
    and "wf_world w" and "\<forall>s \<in> set (w_slots w). s = None"
    and "file_at w delta_path bs" and "file_at v p bs" and "no_faults v"
  shows "fst (view_delta nr2 p v) = 0"
proof -
  have dig: "DELTA_DIGEST_BYTES \<le> sh_size U" by (simp add: assms(3) HASH_SIZE_def DELTA_DIGEST_BYTES_def)
  obtain n :: node and d rest es ps where a: "node_at w delta_path = Some d" "nd_data d = header_bytes @ rest"
    "stream_wire rest es (D (concat ps))" "list_all2 (entry_output D (nd_data n) (sign D (nd_data n))) es ps"
    using apply_delta_publishes [OF assms(1,2) dig assms(4,5)] by (elim exE conjE) (rule that)
  have "wire_valid rest es (D (concat ps))"
    by (rule applied_wire_valid [OF a(3,4)]) (simp add: strong_hash_soundD(1) [OF assms(2)] assms(3))
  moreover have "bs = header_bytes @ rest" using a(1,2) assms(6) by (auto simp: file_at_def)
  ultimately show ?thesis by (rule view_delta_complete [OF assms(7,8), rotated])
qed

theorem applied_delta_is_viewable_witness:
  "\<exists>w'. apply_delta True (rk_alg rk_default) sample_hash ''a'' ''d'' ''o'' 9 sample_delta_world =
      (Inr \<lparr>as_entries_processed = 1, as_bytes_written = 1\<rparr>, w') \<and>
    fst (view_delta True ''d'' sample_delta_world) = 0"
proof -
  obtain w' where a: "apply_delta True (rk_alg rk_default) sample_hash ''a'' ''d'' ''o'' 9 sample_delta_world =
      (Inr \<lparr>as_entries_processed = 1, as_bytes_written = 1\<rparr>, w')" using sample_applied by blast
  have w: "wf_world sample_delta_world" "\<forall>s \<in> set (w_slots sample_delta_world). s = None" "no_faults sample_delta_world"
    using sample_ready(2) by (simp_all add: output_ready_def)
  have "sh_size sample_hash = HASH_SIZE" by (simp add: blake_alg_def)
  from applied_delta_is_viewable [OF a record_alg_sound this w(1,2) sample_files(4) sample_files(4) w(3)] a
  show ?thesis by blast
qed

end
